(* ===== verification/Prelude.thy ===== *)
theory Prelude
  imports Main "HOL-Library.Word"
begin

text \<open>
  Shared vocabulary of the development: the C integer types, the outcome of a C call that may
  fault, C strings as buffers of characters, and the generic lemmas on lists that the components
  use. A call that is undefined behaviour in C, or that never returns, is a value of the type
  \<open>fault\<close>, so that every such call of the source is a branch of the model.
\<close>

unbundle bit_operations_syntax

section \<open>Hint collections\<close>

named_theorems outcome_simps
  "equations of the outcome combinators"

named_theorems buffer_simps
  "lengths and contents of character buffers after the string operations"

section \<open>C types and outcomes\<close>

type_synonym u8 = "8 word"
type_synonym u16 = "16 word"
type_synonym u32 = "32 word"
type_synonym u64 = "64 word"

datatype fault =
    Null_Pointer
  | Out_Of_Bounds
  | Use_After_Free
  | Unterminated_String
  | Self_Deadlock
  | Out_Of_Fuel
  | Program_Exit

type_synonym 'a outcome = "fault + 'a"

definition and_then :: "'a outcome \<Rightarrow> ('a \<Rightarrow> 'b outcome) \<Rightarrow> 'b outcome" where
  "and_then r f = (case r of Inl e \<Rightarrow> Inl e | Inr x \<Rightarrow> f x)"

lemma and_then_Inl [simp, outcome_simps]: "and_then (Inl e) f = Inl e"
  by (simp add: and_then_def)

lemma and_then_Inr [simp, outcome_simps]: "and_then (Inr x) f = f x"
  by (simp add: and_then_def)

lemma and_then_eq_Inr:
  "and_then r f = Inr y \<longleftrightarrow> (\<exists>x. r = Inr x \<and> f x = Inr y)"
  by (cases r) simp_all

lemma and_then_eq_Inl:
  "and_then r f = Inl e \<longleftrightarrow> r = Inl e \<or> (\<exists>x. r = Inr x \<and> f x = Inl e)"
  by (cases r) simp_all

lemma and_then_assoc:
  "and_then (and_then r f) g = and_then r (\<lambda>x. and_then (f x) g)"
  by (cases r) simp_all

lemma and_then_cong [fundef_cong]:
  "r = r' \<Longrightarrow> (\<And>x. r' = Inr x \<Longrightarrow> f x = g x) \<Longrightarrow> and_then r f = and_then r' g"
  by (cases r') simp_all

text \<open>Dereferencing a pointer that may be null.\<close>

definition deref :: "'a option \<Rightarrow> 'a outcome" where
  "deref p = (case p of None \<Rightarrow> Inl Null_Pointer | Some x \<Rightarrow> Inr x)"

lemma deref_simps [simp, outcome_simps]:
  "deref None = Inl Null_Pointer" "deref (Some x) = Inr x"
  by (simp_all add: deref_def)

lemma and_then_InrE:
  assumes "and_then r f = Inr y"
  obtains x where "r = Inr x" "f x = Inr y"
  using assms by (cases r) auto

lemma deref_eq_Inr [simp]: "deref x = Inr y \<longleftrightarrow> x = Some y"
  by (cases x) auto

text \<open>The beginning of a \<open>main\<close> function: it returns, or it gets to its loop.\<close>

datatype 'a started = Returns int | Running 'a

section \<open>Words\<close>

lemma unat_bound: "unat (w :: 'a::len word) < 2 ^ LENGTH('a)"
  by (rule unsigned_less)

section \<open>Lists\<close>

lemma find_cong_set:
  assumes "\<And>x. x \<in> set xs \<Longrightarrow> P x = Q x"
  shows "find P xs = find Q xs"
  using assms by (induction xs) auto

lemma find_SomeD: "find P xs = Some x \<Longrightarrow> x \<in> set xs \<and> P x"
  by (induction xs) (auto split: if_splits)

text \<open>
  The search that stops at the first element satisfying \<open>Q\<close>: if that element satisfies
  \<open>P'\<close>, and \<open>P'\<close> implies \<open>Q\<close> elsewhere, then the search for \<open>P'\<close> finds it as well.
\<close>

lemma find_first_match:
  assumes "find Q xs = Some x" and "P x"
    and "\<And>y. y \<in> set xs \<Longrightarrow> y \<noteq> x \<Longrightarrow> P y \<Longrightarrow> Q y"
  shows "find P xs = Some x"
  using assms
proof (induction xs)
  case Nil
  then show ?case by simp
next
  case (Cons a xs)
  show ?case
  proof (cases "a = x")
    case True
    with Cons.prems(2) show ?thesis by simp
  next
    case False
    with Cons.prems(1) have nQ: "\<not> Q a" and rest: "find Q xs = Some x"
      by (auto split: if_splits)
    with False Cons.prems(3) [of a] have "\<not> P a" by auto
    with Cons.IH [OF rest Cons.prems(2)] Cons.prems(3) show ?thesis by auto
  qed
qed

text \<open>How an update of one cell changes the number of cells that satisfy a predicate.\<close>

lemma length_filter_update:
  assumes "i < length xs"
  shows "int (length (filter P (xs[i := x])))
         = int (length (filter P xs)) + of_bool (P x) - of_bool (P (xs ! i))"
  using assms
proof (induction xs arbitrary: i)
  case Nil
  then show ?case by simp
next
  case (Cons a xs)
  then show ?case by (cases i) auto
qed

lemma length_filter_less_ex:
  assumes "length (filter P xs) < length xs"
  shows "\<exists>i < length xs. \<not> P (xs ! i)"
  using assms by (metis filter_True in_set_conv_nth less_irrefl)

end
