(* ===== verification/Hashmap.thy ===== *)
theory Hashmap
  imports Prelude
begin

text \<open>
  The hash map of \<open>src/hashmap.c\<close>: a table of slots with linear probing, a hash on 64-bit
  keys, and one mutex that is not recursive. \<open>el_in_use\<close> is the C \<open>in_use\<close>, which the code only
  sets to 0 and 1; a data pointer is an option, \<open>None\<close> for \<open>NULL\<close>. The mutex is the field
  \<open>hm_locked\<close>: it is true while the calling thread holds it, and locking it again is
  \<open>Self_Deadlock\<close>, since \<open>pthread_mutex_init\<close> with no attributes makes a non-recursive mutex.
\<close>

section \<open>State\<close>

abbreviation MAP_MISSING :: int where "MAP_MISSING \<equiv> -3"
abbreviation MAP_FULL :: int where "MAP_FULL \<equiv> -2"
abbreviation MAP_OMEM :: int where "MAP_OMEM \<equiv> -1"
abbreviation MAP_OK :: int where "MAP_OK \<equiv> 0"

definition INITIAL_SIZE :: nat where
  "INITIAL_SIZE = 1024"

record 'v hashmap_element =
  el_key :: u64
  el_in_use :: bool
  el_data :: "'v option"

record 'v hashmap_map =
  hm_table_size :: nat
  hm_size :: int
  hm_data :: "'v hashmap_element list"
  hm_locked :: bool

definition empty_element :: "'v hashmap_element" where
  "empty_element = \<lparr>el_key = 0, el_in_use = False, el_data = None\<rparr>"

text \<open>
  The two allocations of \<open>hashmap_new\<close> may fail; either failure gives \<open>NULL\<close>.
\<close>

definition hashmap_new :: "bool \<Rightarrow> bool \<Rightarrow> 'v hashmap_map option" where
  "hashmap_new malloc_ok calloc_ok =
     (if \<not> malloc_ok then None
      else if \<not> calloc_ok then None
      else Some \<lparr>hm_table_size = INITIAL_SIZE, hm_size = 0,
                 hm_data = replicate INITIAL_SIZE empty_element, hm_locked = False\<rparr>)"

section \<open>Hashing and probing\<close>

definition hashmap_hash_int :: "'v hashmap_map \<Rightarrow> u64 \<Rightarrow> u32" where
  "hashmap_hash_int m key =
     (let key = key + push_bit 12 key;
          key = key XOR drop_bit 22 key;
          key = key + push_bit 4 key;
          key = key XOR drop_bit 9 key;
          key = key + push_bit 10 key;
          key = key XOR drop_bit 2 key;
          key = key + push_bit 7 key;
          key = key XOR drop_bit 12 key;
          key = drop_bit 3 key * 2654435761
      in ucast (key mod of_nat (hm_table_size m)))"

text \<open>The loop of \<open>hashmap_hash\<close>: \<open>n\<close> iterations are left and \<open>cur\<close> is the current slot.\<close>

fun hashmap_hash_loop :: "'v hashmap_map \<Rightarrow> u64 \<Rightarrow> nat \<Rightarrow> nat \<Rightarrow> int" where
  "hashmap_hash_loop m key 0 cur = MAP_FULL"
| "hashmap_hash_loop m key (Suc n) cur =
     (if \<not> el_in_use (hm_data m ! cur) then int cur
      else if el_key (hm_data m ! cur) = key \<and> el_in_use (hm_data m ! cur) then int cur
      else hashmap_hash_loop m key n ((cur + 1) mod hm_table_size m))"

definition hashmap_hash :: "'v hashmap_map \<Rightarrow> u64 \<Rightarrow> int" where
  "hashmap_hash m key =
     (if hm_size m = int (hm_table_size m) then MAP_FULL
      else hashmap_hash_loop m key (hm_table_size m) (unat (hashmap_hash_int m key)))"

section \<open>Operations\<close>

text \<open>
  \<open>hashmap_put\<close> and \<open>hashmap_rehash\<close> call each other, and \<open>hashmap_put\<close> loops while the table
  is full. The fuel counts nested calls and loop iterations; \<open>calloc_ok n\<close> says whether
  \<open>calloc\<close> of \<open>n\<close> elements succeeds.
\<close>

fun hashmap_put_fuel ::
    "nat \<Rightarrow> (nat \<Rightarrow> bool) \<Rightarrow> 'v hashmap_map \<Rightarrow> u64 \<Rightarrow> 'v option \<Rightarrow> (int \<times> 'v hashmap_map) outcome"
  and hashmap_put_loop ::
    "nat \<Rightarrow> (nat \<Rightarrow> bool) \<Rightarrow> 'v hashmap_map \<Rightarrow> u64 \<Rightarrow> 'v option \<Rightarrow> (int \<times> 'v hashmap_map) outcome"
  and hashmap_rehash ::
    "nat \<Rightarrow> (nat \<Rightarrow> bool) \<Rightarrow> 'v hashmap_map \<Rightarrow> (int \<times> 'v hashmap_map) outcome"
  and hashmap_rehash_loop ::
    "nat \<Rightarrow> (nat \<Rightarrow> bool) \<Rightarrow> 'v hashmap_map \<Rightarrow> 'v hashmap_element list
      \<Rightarrow> (int \<times> 'v hashmap_map) outcome"
  where
  "hashmap_put_fuel 0 calloc_ok m key v = Inl Out_Of_Fuel"
| "hashmap_put_fuel (Suc n) calloc_ok m key v =
     (if hm_locked m then Inl Self_Deadlock
      else hashmap_put_loop n calloc_ok (m\<lparr>hm_locked := True\<rparr>) key v)"
| "hashmap_put_loop 0 calloc_ok m key v = Inl Out_Of_Fuel"
| "hashmap_put_loop (Suc n) calloc_ok m key v =
     (let index = hashmap_hash m key in
      if index = MAP_FULL then
        and_then (hashmap_rehash n calloc_ok m) (\<lambda>(status, m').
          if status = MAP_OMEM then Inr (MAP_OMEM, m'\<lparr>hm_locked := False\<rparr>)
          else hashmap_put_loop n calloc_ok m' key v)
      else
        Inr (MAP_OK,
          m\<lparr>hm_data := (hm_data m)[nat index :=
               \<lparr>el_key = key, el_in_use = True, el_data = v\<rparr>],
            hm_size := hm_size m + 1,
            hm_locked := False\<rparr>))"
| "hashmap_rehash 0 calloc_ok m = Inl Out_Of_Fuel"
| "hashmap_rehash (Suc n) calloc_ok m =
     (if \<not> calloc_ok (2 * hm_table_size m) then Inr (MAP_OMEM, m)
      else hashmap_rehash_loop n calloc_ok
             (m\<lparr>hm_data := replicate (2 * hm_table_size m) empty_element,
                hm_table_size := 2 * hm_table_size m,
                hm_size := 0\<rparr>)
             (hm_data m))"
| "hashmap_rehash_loop 0 calloc_ok m es = Inl Out_Of_Fuel"
| "hashmap_rehash_loop (Suc n) calloc_ok m [] = Inr (MAP_OK, m)"
| "hashmap_rehash_loop (Suc n) calloc_ok m (e # es) =
     and_then (hashmap_put_fuel n calloc_ok m (el_key e) (el_data e)) (\<lambda>(status, m').
       if status \<noteq> MAP_OK then Inr (status, m')
       else hashmap_rehash_loop n calloc_ok m' es)"

definition hashmap_put ::
    "(nat \<Rightarrow> bool) \<Rightarrow> 'v hashmap_map \<Rightarrow> u64 \<Rightarrow> 'v option \<Rightarrow> (int \<times> 'v hashmap_map) outcome" where
  "hashmap_put calloc_ok m key v = hashmap_put_fuel 5 calloc_ok m key v"

text \<open>
  The loop shared by the probing of \<open>hashmap_get\<close> and \<open>hashmap_remove\<close>: the first slot in use
  that holds the key.
\<close>

fun find_key_loop :: "'v hashmap_map \<Rightarrow> u64 \<Rightarrow> nat \<Rightarrow> nat \<Rightarrow> nat option" where
  "find_key_loop m key 0 cur = None"
| "find_key_loop m key (Suc n) cur =
     (if el_key (hm_data m ! cur) = key \<and> el_in_use (hm_data m ! cur) then Some cur
      else find_key_loop m key n ((cur + 1) mod hm_table_size m))"

definition hashmap_get :: "'v hashmap_map \<Rightarrow> u64 \<Rightarrow> (int \<times> 'v option) outcome" where
  "hashmap_get m key =
     (if hm_locked m then Inl Self_Deadlock
      else (case find_key_loop m key (hm_table_size m) (unat (hashmap_hash_int m key)) of
              Some cur \<Rightarrow> Inr (MAP_OK, el_data (hm_data m ! cur))
            | None \<Rightarrow> Inr (MAP_MISSING, None)))"

definition hashmap_remove :: "'v hashmap_map \<Rightarrow> u64 \<Rightarrow> (int \<times> 'v hashmap_map) outcome" where
  "hashmap_remove m key =
     (if hm_locked m then Inl Self_Deadlock
      else (case find_key_loop m key (hm_table_size m) (unat (hashmap_hash_int m key)) of
              Some cur \<Rightarrow>
                Inr (MAP_OK, m\<lparr>hm_data := (hm_data m)[cur := empty_element],
                               hm_size := hm_size m - 1\<rparr>)
            | None \<Rightarrow> Inr (MAP_MISSING, m)))"

text \<open>
  \<open>hashmap_free\<close>: the blocks it releases, and whether the lock that it destroys was initialised and not
  held. \<open>data\<close> is the pointer to the array, \<open>lock\<close> says whether an initialised lock is held.
\<close>

datatype hm_block = Data_Block nat | Map_Block

definition hashmap_free :: "'v hashmap_element list option \<Rightarrow> bool option \<Rightarrow> hm_block list \<times> bool" where
  "hashmap_free data lock =
     ((case data of None \<Rightarrow> [] | Some es \<Rightarrow> [Data_Block (length es)]) @ [Map_Block], lock = Some False)"

definition hashmap_length :: "'v hashmap_map option \<Rightarrow> int" where
  "hashmap_length m = (case m of Some m \<Rightarrow> hm_size m | None \<Rightarrow> 0)"

text \<open>
  \<open>hashmap_get_one\<close> walks the table from slot 0; with \<open>remove\<close> it clears \<open>in_use\<close> only.
\<close>

fun get_one_loop :: "'v hashmap_map \<Rightarrow> nat \<Rightarrow> nat \<Rightarrow> nat option" where
  "get_one_loop m 0 i = None"
| "get_one_loop m (Suc n) i =
     (if el_in_use (hm_data m ! i) then Some i else get_one_loop m n (i + 1))"

definition hashmap_get_one ::
    "'v hashmap_map \<Rightarrow> bool \<Rightarrow> (int \<times> 'v option \<times> 'v hashmap_map) outcome" where
  "hashmap_get_one m remove =
     (if hashmap_length (Some m) \<le> 0 then Inr (MAP_MISSING, None, m)
      else if hm_locked m then Inl Self_Deadlock
      else (case get_one_loop m (hm_table_size m) 0 of
              Some i \<Rightarrow>
                Inr (MAP_OK, el_data (hm_data m ! i),
                  if remove
                  then m\<lparr>hm_data := (hm_data m)[i := (hm_data m ! i)\<lparr>el_in_use := False\<rparr>],
                         hm_size := hm_size m - 1\<rparr>
                  else m)
            | None \<Rightarrow> Inr (MAP_MISSING, None, m)))"

text \<open>
  \<open>hashmap_iterate\<close> calls \<open>f item data\<close> on every slot in use, in table order, until a call
  does not return \<open>MAP_OK\<close>. What \<open>f\<close> does to its environment is a state that is passed along.
\<close>

fun iterate_loop ::
    "('s \<Rightarrow> 'v option \<Rightarrow> int \<times> 's) \<Rightarrow> 'v hashmap_element list \<Rightarrow> 's \<Rightarrow> int \<times> 's" where
  "iterate_loop f [] s = (MAP_OK, s)"
| "iterate_loop f (e # es) s =
     (if el_in_use e then
        (case f s (el_data e) of (status, s') \<Rightarrow>
           if status \<noteq> MAP_OK then (status, s') else iterate_loop f es s')
      else iterate_loop f es s)"

definition hashmap_iterate ::
    "'v hashmap_map \<Rightarrow> ('s \<Rightarrow> 'v option \<Rightarrow> int \<times> 's) \<Rightarrow> 's \<Rightarrow> (int \<times> 's) outcome" where
  "hashmap_iterate m f s =
     (if hashmap_length (Some m) \<le> 0 then Inr (MAP_MISSING, s)
      else if hm_locked m then Inl Self_Deadlock
      else Inr (iterate_loop f (take (hm_table_size m) (hm_data m)) s))"

section \<open>Probe sequences\<close>

text \<open>
  The slots a probing loop visits, in order. Both loops are searches along this list, which
  reduces their proofs to facts about \<open>find\<close>.
\<close>

fun probe_walk :: "nat \<Rightarrow> nat \<Rightarrow> nat \<Rightarrow> nat list" where
  "probe_walk ts 0 cur = []"
| "probe_walk ts (Suc n) cur = cur # probe_walk ts n ((cur + 1) mod ts)"

definition walk_of :: "'v hashmap_map \<Rightarrow> u64 \<Rightarrow> nat list" where
  "walk_of m key = probe_walk (hm_table_size m) (hm_table_size m) (unat (hashmap_hash_int m key))"

definition slot_holds :: "'v hashmap_map \<Rightarrow> u64 \<Rightarrow> nat \<Rightarrow> bool" where
  "slot_holds m key i \<longleftrightarrow> el_key (hm_data m ! i) = key \<and> el_in_use (hm_data m ! i)"

definition slot_usable :: "'v hashmap_map \<Rightarrow> u64 \<Rightarrow> nat \<Rightarrow> bool" where
  "slot_usable m key i \<longleftrightarrow> \<not> el_in_use (hm_data m ! i) \<or> el_key (hm_data m ! i) = key"

lemma length_probe_walk [simp]: "length (probe_walk ts n cur) = n"
  by (induction ts n cur rule: probe_walk.induct) auto

lemma probe_walk_nth:
  "j < n \<Longrightarrow> cur < ts \<Longrightarrow> probe_walk ts n cur ! j = (cur + j) mod ts"
proof (induction ts n cur arbitrary: j rule: probe_walk.induct)
  case (1 ts cur)
  then show ?case by simp
next
  case (2 ts n cur)
  then show ?case by (cases j) (auto simp: mod_simps)
qed

lemma set_probe_walk:
  assumes "cur < ts"
  shows "set (probe_walk ts ts cur) = {..<ts}"
proof
  show "set (probe_walk ts ts cur) \<subseteq> {..<ts}"
    using assms by (auto simp: in_set_conv_nth probe_walk_nth)
  show "{..<ts} \<subseteq> set (probe_walk ts ts cur)"
  proof
    fix i
    assume "i \<in> {..<ts}"
    then have i: "i < ts" by simp
    define j where "j = (if cur \<le> i then i - cur else ts - cur + i)"
    have j: "j < ts" "(cur + j) mod ts = i"
      using i assms by (auto simp: j_def)
    with assms have "probe_walk ts ts cur ! j = i" by (simp add: probe_walk_nth)
    then show "i \<in> set (probe_walk ts ts cur)"
      using j(1) nth_mem [of j "probe_walk ts ts cur"] by simp
  qed
qed

lemma hashmap_hash_loop_find:
  "hashmap_hash_loop m key n cur =
     (case find (slot_usable m key) (probe_walk (hm_table_size m) n cur) of
        Some i \<Rightarrow> int i | None \<Rightarrow> MAP_FULL)"
  by (induction m key n cur rule: hashmap_hash_loop.induct) (auto simp: slot_usable_def)

lemma find_key_loop_find:
  "find_key_loop m key n cur =
     find (slot_holds m key) (probe_walk (hm_table_size m) n cur)"
  by (induction m key n cur rule: find_key_loop.induct) (auto simp: slot_holds_def)

text \<open>The hash is a slot of the table, whatever the key, as long as the size fits an \<open>int\<close>.\<close>

lemma hashmap_hash_int_less:
  assumes "0 < hm_table_size m" and "hm_table_size m < 2 ^ 31"
  shows "unat (hashmap_hash_int m key) < hm_table_size m"
proof -
  have bound: "unat (ucast (x mod of_nat t :: u64) :: u32) < t"
    if "0 < t" "t < 2 ^ 31" for x :: u64 and t :: nat
  proof -
    have t: "unat (of_nat t :: u64) = t"
      using that by (simp add: unat_of_nat)
    have lt: "unat (x mod of_nat t) < t"
      using that(1) by (simp add: unat_mod_distrib t)
    then have "unat (ucast (x mod of_nat t) :: u32) = unat (x mod of_nat t)"
      using that(2) by (simp add: unsigned_ucast_eq take_bit_nat_eq_self)
    with lt show ?thesis by simp
  qed
  show ?thesis
    unfolding hashmap_hash_int_def Let_def by (rule bound [OF assms])
qed

section \<open>Invariant and lookup\<close>

definition hm_used :: "'v hashmap_map \<Rightarrow> nat" where
  "hm_used m = length (filter el_in_use (hm_data m))"

definition hm_inv :: "'v hashmap_map \<Rightarrow> bool" where
  "hm_inv m \<longleftrightarrow>
     0 < hm_table_size m \<and> hm_table_size m < 2 ^ 31 \<and>
     length (hm_data m) = hm_table_size m \<and> \<not> hm_locked m \<and>
     int (hm_used m) \<le> hm_size m \<and> hm_size m \<le> int (hm_table_size m)"

definition hm_lookup :: "'v hashmap_map \<Rightarrow> u64 \<Rightarrow> 'v option option" where
  "hm_lookup m key =
     map_option (\<lambda>i. el_data (hm_data m ! i)) (find (slot_holds m key) (walk_of m key))"

definition hm_room :: "'v hashmap_map \<Rightarrow> nat" where
  "hm_room m = nat (int (hm_table_size m) - hm_size m)"

definition hm_copies :: "'v hashmap_map \<Rightarrow> u64 \<Rightarrow> nat" where
  "hm_copies m key = card {i. i < hm_table_size m \<and> slot_holds m key i}"

lemma hm_invD:
  assumes "hm_inv m"
  shows "0 < hm_table_size m" "hm_table_size m < 2 ^ 31"
    "length (hm_data m) = hm_table_size m" "\<not> hm_locked m"
    "int (hm_used m) \<le> hm_size m" "hm_size m \<le> int (hm_table_size m)"
  using assms by (auto simp: hm_inv_def)

lemma set_walk_of: "hm_inv m \<Longrightarrow> set (walk_of m key) = {..<hm_table_size m}"
  unfolding walk_of_def by (intro set_probe_walk hashmap_hash_int_less hm_invD)

lemma walk_of_cong:
  "hm_table_size m' = hm_table_size m \<Longrightarrow> walk_of m' key = walk_of m key"
  by (simp add: walk_of_def hashmap_hash_int_def)

lemma INITIAL_SIZE_bounds: "0 < INITIAL_SIZE" "INITIAL_SIZE < 2 ^ 31"
  by (simp_all add: INITIAL_SIZE_def)

lemma hashmap_new_Some: "hashmap_new a b = Some m \<Longrightarrow> hashmap_new True True = Some m"
  by (simp add: hashmap_new_def split: if_splits)

lemma hm_inv_new:
  assumes "hashmap_new True True = Some m"
  shows "hm_inv m"
proof -
  have "m = \<lparr>hm_table_size = INITIAL_SIZE, hm_size = 0,
             hm_data = replicate INITIAL_SIZE empty_element, hm_locked = False\<rparr>"
    using assms by (simp add: hashmap_new_def)
  then show ?thesis
    using INITIAL_SIZE_bounds by (simp add: hm_inv_def hm_used_def empty_element_def)
qed

lemma hashmap_free_inv:
  "hm_inv m \<Longrightarrow> hashmap_free (Some (hm_data m)) (Some (hm_locked m)) =
    ([Data_Block (hm_table_size m), Map_Block], True)"
  by (simp add: hashmap_free_def hm_inv_def)

text \<open>On the error path of \<open>hashmap_new\<close> there is no array yet, and no lock to destroy.\<close>

lemma hashmap_free_failed_new: "hashmap_free None None = ([Map_Block], False)"
  by (simp add: hashmap_free_def)

lemma slot_holds_new:
  assumes "hashmap_new True True = Some m" and "i < hm_table_size m"
  shows "\<not> el_in_use (hm_data m ! i)"
  using assms by (auto simp: hashmap_new_def empty_element_def)

lemma hm_lookup_new:
  assumes "hashmap_new True True = Some m"
  shows "hm_lookup m = Map.empty"
proof
  fix key
  have "find (slot_holds m key) (walk_of m key) = None"
    using slot_holds_new [OF assms] set_walk_of [OF hm_inv_new [OF assms], of key]
    by (auto simp: find_None_iff slot_holds_def)
  then show "hm_lookup m key = None" by (simp add: hm_lookup_def)
qed

lemma hashmap_get_lookup:
  "hm_inv m \<Longrightarrow> hashmap_get m key =
     (case hm_lookup m key of
        Some d \<Rightarrow> Inr (MAP_OK, d) | None \<Rightarrow> Inr (MAP_MISSING, None))"
  by (auto simp: hashmap_get_def hm_lookup_def find_key_loop_find walk_of_def hm_invD
      split: option.splits)


section \<open>Put, get and remove\<close>

definition put_slot :: "'v hashmap_map \<Rightarrow> nat \<Rightarrow> u64 \<Rightarrow> 'v option \<Rightarrow> 'v hashmap_map" where
  "put_slot m i key v =
     m\<lparr>hm_data := (hm_data m)[i := \<lparr>el_key = key, el_in_use = True, el_data = v\<rparr>],
       hm_size := hm_size m + 1\<rparr>"

definition clear_slot :: "'v hashmap_map \<Rightarrow> nat \<Rightarrow> 'v hashmap_map" where
  "clear_slot m i =
     m\<lparr>hm_data := (hm_data m)[i := empty_element], hm_size := hm_size m - 1\<rparr>"

text \<open>While there is room a probe finds a usable slot.\<close>

lemma usable_slot_ex:
  assumes inv: "hm_inv m" and room: "hm_size m < int (hm_table_size m)"
  obtains i where "find (slot_usable m key) (walk_of m key) = Some i" "i < hm_table_size m"
    "slot_usable m key i"
proof -
  have "hm_used m < length (hm_data m)"
    using room hm_invD [OF inv] by linarith
  then obtain j where "j < hm_table_size m" "\<not> el_in_use (hm_data m ! j)"
    using length_filter_less_ex [of el_in_use "hm_data m"] hm_invD(3) [OF inv]
    by (auto simp: hm_used_def)
  then have "find (slot_usable m key) (walk_of m key) \<noteq> None"
    using set_walk_of [OF inv, of key] by (auto simp: find_None_iff slot_usable_def)
  then obtain i where i: "find (slot_usable m key) (walk_of m key) = Some i" by auto
  from find_SomeD [OF i] set_walk_of [OF inv, of key] i that show ?thesis by auto
qed

lemma hashmap_hash_room:
  assumes "hm_size m < int (hm_table_size m)"
    and "find (slot_usable m key) (walk_of m key) = Some i"
  shows "hashmap_hash m key = int i"
  using assms by (simp add: hashmap_hash_def hashmap_hash_loop_find walk_of_def)

lemma hashmap_hash_locked [simp]: "hashmap_hash (m\<lparr>hm_locked := b\<rparr>) key = hashmap_hash m key"
proof -
  have "hashmap_hash_loop (m\<lparr>hm_locked := b\<rparr>) key n cur = hashmap_hash_loop m key n cur"
    for n cur
    by (induction m key n cur rule: hashmap_hash_loop.induct) auto
  then show ?thesis by (simp add: hashmap_hash_def hashmap_hash_int_def)
qed

lemma hashmap_put_fuel_room:
  assumes inv: "hm_inv m" and room: "hm_size m < int (hm_table_size m)"
    and i: "find (slot_usable m key) (walk_of m key) = Some i"
  shows "hashmap_put_fuel (Suc (Suc n)) ok m key v = Inr (MAP_OK, put_slot m i key v)"
  using hashmap_hash_room [OF room i] hm_invD(4) [OF inv]
  by (simp add: put_slot_def Let_def)

text \<open>
  A full table: the rehash relocks the mutex that \<open>hashmap_put\<close> holds, so the call never
  returns unless the allocation fails first.
\<close>

lemma hashmap_put_fuel_full:
  assumes inv: "hm_inv m" and full: "hm_size m = int (hm_table_size m)"
  shows "hashmap_put_fuel (Suc (Suc (Suc (Suc (Suc n))))) ok m key v =
    (if ok (2 * hm_table_size m) then Inl Self_Deadlock else Inr (MAP_OMEM, m))"
proof -
  have FULL: "hashmap_hash m key = MAP_FULL"
    using full by (simp add: hashmap_hash_def)
  obtain e es where "hm_data m = e # es"
    using hm_invD(1,3) [OF inv] by (cases "hm_data m") auto
  with FULL hm_invD(4) [OF inv] show ?thesis by (simp add: Let_def)
qed

lemma hm_inv_put_slot:
  assumes inv: "hm_inv m" and room: "hm_size m < int (hm_table_size m)"
    and "i < hm_table_size m"
  shows "hm_inv (put_slot m i key v)"
  using assms length_filter_update [of i "hm_data m" el_in_use]
  by (auto simp: hm_inv_def put_slot_def hm_used_def split: if_splits)

lemma slot_holds_put_slot:
  assumes "hm_inv m" and "i < hm_table_size m" and "j < hm_table_size m"
  shows "slot_holds (put_slot m i key v) k j \<longleftrightarrow>
    (if j = i then k = key else slot_holds m k j)"
  using assms by (auto simp: slot_holds_def put_slot_def nth_list_update hm_invD)

lemma hm_lookup_put_slot:
  assumes inv: "hm_inv m" and i: "find (slot_usable m key) (walk_of m key) = Some i"
  shows "hm_lookup (put_slot m i key v) = (hm_lookup m)(key \<mapsto> v)"
proof
  fix k
  let ?m = "put_slot m i key v"
  have lt: "i < hm_table_size m" and us: "slot_usable m key i"
    using find_SomeD [OF i] set_walk_of [OF inv, of key] by auto
  have walk: "walk_of ?m k = walk_of m k" for k
    by (rule walk_of_cong) (simp add: put_slot_def)
  have len: "length (hm_data m) = hm_table_size m" using hm_invD(3) [OF inv] .
  show "hm_lookup ?m k = ((hm_lookup m)(key \<mapsto> v)) k"
  proof (cases "k = key")
    case True
    have "find (slot_holds ?m key) (walk_of m key) = Some i"
    proof (rule find_first_match [OF i])
      show "slot_holds ?m key i" using slot_holds_put_slot [OF inv lt lt] by simp
    next
      fix j
      assume "j \<in> set (walk_of m key)" "j \<noteq> i" "slot_holds ?m key j"
      then show "slot_usable m key j"
        using slot_holds_put_slot [OF inv lt, of j] set_walk_of [OF inv, of key]
        by (auto simp: slot_usable_def slot_holds_def)
    qed
    then show ?thesis
      using True walk lt len by (simp add: hm_lookup_def) (simp add: put_slot_def)
  next
    case False
    have "find (slot_holds ?m k) (walk_of m k) = find (slot_holds m k) (walk_of m k)"
      using slot_holds_put_slot [OF inv lt] set_walk_of [OF inv, of k] us False
      by (intro find_cong_set) (auto simp: slot_usable_def slot_holds_def)
    moreover have "el_data (hm_data ?m ! j) = el_data (hm_data m ! j)"
      if "find (slot_holds m k) (walk_of m k) = Some j" for j
      using find_SomeD [OF that] us False lt len
      by (cases "j = i") (auto simp: put_slot_def slot_holds_def slot_usable_def)
    ultimately show ?thesis
      using False walk by (auto simp: hm_lookup_def split: option.split intro: option.map_cong)
  qed
qed

lemma hashmap_put_room:
  assumes "hm_inv m" and "hm_size m < int (hm_table_size m)"
    and "find (slot_usable m key) (walk_of m key) = Some i"
  shows "hashmap_put ok m key v = Inr (MAP_OK, put_slot m i key v)"
  using hashmap_put_fuel_room [OF assms, of 3] by (simp add: hashmap_put_def eval_nat_numeral)

lemma hashmap_put_full:
  assumes "hm_inv m" and "hm_size m = int (hm_table_size m)"
  shows "hashmap_put ok m key v =
    (if ok (2 * hm_table_size m) then Inl Self_Deadlock else Inr (MAP_OMEM, m))"
  using hashmap_put_fuel_full [OF assms, of 0] by (simp add: hashmap_put_def eval_nat_numeral)

lemma hm_room_simps:
  assumes "hm_inv m"
  shows "0 < hm_room m \<longleftrightarrow> hm_size m < int (hm_table_size m)"
    and "hm_size m = int (hm_table_size m) \<longleftrightarrow> hm_room m = 0"
  using hm_invD(6) [OF assms] by (auto simp: hm_room_def)

text \<open>The contract of \<open>hashmap_put\<close> while there is room, in terms of the lookup alone.\<close>

lemma hashmap_put_correct:
  assumes inv: "hm_inv m" and room: "0 < hm_room m"
  shows "\<exists>m'. hashmap_put ok m key v = Inr (MAP_OK, m') \<and> hm_inv m' \<and>
    hm_room m = Suc (hm_room m') \<and> hm_table_size m' = hm_table_size m \<and>
    hm_lookup m' = (hm_lookup m)(key \<mapsto> v)"
proof -
  have r: "hm_size m < int (hm_table_size m)" using hm_room_simps(1) [OF inv] room by simp
  obtain i where i: "find (slot_usable m key) (walk_of m key) = Some i"
    and lt: "i < hm_table_size m"
    by (rule usable_slot_ex [OF inv r])
  have "hm_room m = Suc (hm_room (put_slot m i key v))"
    using r by (simp add: hm_room_def put_slot_def)
  moreover have "hm_table_size (put_slot m i key v) = hm_table_size m"
    by (simp add: put_slot_def)
  ultimately show ?thesis
    using hashmap_put_room [OF inv r i] hm_inv_put_slot [OF inv r lt]
      hm_lookup_put_slot [OF inv i] by blast
qed

lemma hm_used_clear_slot:
  assumes "i < length (hm_data m)"
  shows "int (hm_used (clear_slot m i)) =
    int (hm_used m) - of_bool (el_in_use (hm_data m ! i))"
  using length_filter_update [OF assms, of el_in_use empty_element]
  by (simp add: hm_used_def clear_slot_def empty_element_def)

lemma hm_inv_clear_slot:
  assumes inv: "hm_inv m" and lt: "i < hm_table_size m" and used: "el_in_use (hm_data m ! i)"
  shows "hm_inv (clear_slot m i)"
proof -
  have "int (hm_used (clear_slot m i)) = int (hm_used m) - 1"
    using hm_used_clear_slot [of i m] used lt hm_invD(3) [OF inv] by simp
  then show ?thesis using inv by (auto simp: hm_inv_def clear_slot_def)
qed

lemma slot_holds_clear_slot:
  assumes "hm_inv m" and "i < hm_table_size m" and "j < hm_table_size m"
  shows "slot_holds (clear_slot m i) k j \<longleftrightarrow> j \<noteq> i \<and> slot_holds m k j"
  using assms
  by (auto simp: slot_holds_def clear_slot_def nth_list_update hm_invD empty_element_def)

lemma hm_lookup_clear_slot:
  assumes inv: "hm_inv m" and lt: "i < hm_table_size m"
    and holds: "slot_holds m key i" and "k \<noteq> key"
  shows "hm_lookup (clear_slot m i) k = hm_lookup m k"
proof -
  have walk: "walk_of (clear_slot m i) k = walk_of m k"
    by (rule walk_of_cong) (simp add: clear_slot_def)
  have "find (slot_holds (clear_slot m i) k) (walk_of m k) = find (slot_holds m k) (walk_of m k)"
    using slot_holds_clear_slot [OF inv lt] set_walk_of [OF inv, of k] holds assms(4)
    by (intro find_cong_set) (auto simp: slot_holds_def)
  moreover have "el_data (hm_data (clear_slot m i) ! j) = el_data (hm_data m ! j)"
    if "find (slot_holds m k) (walk_of m k) = Some j" for j
    using find_SomeD [OF that] holds assms(4)
    by (cases "j = i") (auto simp: clear_slot_def slot_holds_def)
  ultimately show ?thesis
    using walk by (auto simp: hm_lookup_def split: option.split intro: option.map_cong)
qed

lemma hashmap_remove_eq:
  assumes "hm_inv m"
  shows "hashmap_remove m key =
    (case find (slot_holds m key) (walk_of m key) of
       Some i \<Rightarrow> Inr (MAP_OK, clear_slot m i) | None \<Rightarrow> Inr (MAP_MISSING, m))"
  using hm_invD(4) [OF assms]
  by (auto simp: hashmap_remove_def find_key_loop_find walk_of_def clear_slot_def
      split: option.split)

lemma hm_copies_one:
  assumes "hm_copies m key \<le> 1" and "slot_holds m key i" "i < hm_table_size m"
    and "slot_holds m key j" "j < hm_table_size m"
  shows "j = i"
  using assms card_le_Suc0_iff_eq [of "{i. i < hm_table_size m \<and> slot_holds m key i}"]
  by (auto simp: hm_copies_def)

lemma hashmap_remove_correct:
  assumes inv: "hm_inv m"
  shows "\<exists>m'. hashmap_remove m key =
      Inr (if hm_lookup m key = None then MAP_MISSING else MAP_OK, m') \<and>
    hm_inv m' \<and> (\<forall>k. k \<noteq> key \<longrightarrow> hm_lookup m' k = hm_lookup m k) \<and>
    (hm_copies m key \<le> 1 \<longrightarrow> hm_lookup m' key = None)"
proof (cases "find (slot_holds m key) (walk_of m key)")
  case None
  then show ?thesis
    using inv by (simp add: hashmap_remove_eq hm_lookup_def)
next
  case (Some i)
  let ?m = "clear_slot m i"
  have holds: "slot_holds m key i" and lt: "i < hm_table_size m"
    using find_SomeD [OF Some] set_walk_of [OF inv, of key] by auto
  have "hm_inv ?m" using inv lt holds by (intro hm_inv_clear_slot) (auto simp: slot_holds_def)
  moreover have "hm_lookup ?m key = None" if "hm_copies m key \<le> 1"
  proof -
    have "walk_of ?m key = walk_of m key"
      by (rule walk_of_cong) (simp add: clear_slot_def)
    moreover have "\<not> slot_holds ?m key j" if "j \<in> set (walk_of m key)" for j
      using that set_walk_of [OF inv, of key] slot_holds_clear_slot [OF inv lt, of j key]
        hm_copies_one [OF \<open>hm_copies m key \<le> 1\<close> holds lt, of j] by auto
    ultimately show ?thesis by (auto simp: hm_lookup_def find_None_iff)
  qed
  moreover have "hm_lookup m key \<noteq> None" using Some by (simp add: hm_lookup_def)
  ultimately show ?thesis
    using Some hm_lookup_clear_slot [OF inv lt holds] by (simp add: hashmap_remove_eq [OF inv])
qed

section \<open>Tables filled without removal\<close>

text \<open>
  \<open>hm_chained\<close>: every slot in use is the slot a probe for its own key stops at. It holds of a
  new table and \<open>hashmap_put\<close> keeps it; then no key occupies two slots. \<open>hashmap_remove\<close> breaks
  it, because it leaves a gap in the probe sequence of the keys behind the removed one.
\<close>

definition hm_chained :: "'v hashmap_map \<Rightarrow> bool" where
  "hm_chained m \<longleftrightarrow> (\<forall>i < hm_table_size m. el_in_use (hm_data m ! i) \<longrightarrow>
     find (slot_usable m (el_key (hm_data m ! i))) (walk_of m (el_key (hm_data m ! i))) = Some i)"

lemma hm_chained_new: "hashmap_new True True = Some m \<Longrightarrow> hm_chained m"
  using slot_holds_new by (auto simp: hm_chained_def)

lemma hm_chained_copies:
  assumes "hm_chained m"
  shows "hm_copies m key \<le> 1"
proof -
  have "i = j" if "slot_holds m key i" "i < hm_table_size m" "slot_holds m key j"
    "j < hm_table_size m" for i j
  proof -
    have "find (slot_usable m key) (walk_of m key) = Some l"
      if "slot_holds m key l" "l < hm_table_size m" for l
      using assms that by (auto simp: hm_chained_def slot_holds_def)
    from this [OF that(1,2)] this [OF that(3,4)] show ?thesis by simp
  qed
  then show ?thesis
    unfolding hm_copies_def One_nat_def
    by (subst card_le_Suc0_iff_eq) auto
qed

lemma hm_chained_put_slot:
  assumes inv: "hm_inv m" and ch: "hm_chained m"
    and i: "find (slot_usable m key) (walk_of m key) = Some i"
  shows "hm_chained (put_slot m i key v)"
  unfolding hm_chained_def
proof (intro allI impI)
  fix j
  let ?m = "put_slot m i key v"
  let ?k = "el_key (hm_data ?m ! j)"
  assume j: "j < hm_table_size ?m" and used: "el_in_use (hm_data ?m ! j)"
  have lt: "i < hm_table_size m" and us: "slot_usable m key i"
    using find_SomeD [OF i] set_walk_of [OF inv, of key] by auto
  have walk: "walk_of ?m k = walk_of m k" for k
    by (rule walk_of_cong) (simp add: put_slot_def)
  have usable: "slot_usable ?m k l \<longleftrightarrow> (if l = i then key = k else slot_usable m k l)"
    if "l < hm_table_size m" for k l
    using that lt hm_invD(3) [OF inv]
    by (auto simp: slot_usable_def put_slot_def nth_list_update)
  show "find (slot_usable ?m ?k) (walk_of ?m ?k) = Some j"
  proof (cases "j = i")
    case True
    then have k: "?k = key" using lt hm_invD(3) [OF inv] by (simp add: put_slot_def)
    have "find (slot_usable ?m key) (walk_of m key) = Some i"
      using set_walk_of [OF inv, of key] usable lt
      by (intro find_first_match [OF i]) (auto simp: slot_usable_def)
    then show ?thesis using True k walk by simp
  next
    case False
    then have k: "?k = el_key (hm_data m ! j)" and u: "el_in_use (hm_data m ! j)"
      using used by (simp_all add: put_slot_def)
    have j': "j < hm_table_size m" using j by (simp add: put_slot_def)
    with ch k u have fj: "find (slot_usable m ?k) (walk_of m ?k) = Some j"
      by (auto simp: hm_chained_def)
    with i False have "?k \<noteq> key" by auto
    with fj False set_walk_of [OF inv, of ?k] usable j'
    have "find (slot_usable ?m ?k) (walk_of m ?k) = Some j"
      by (intro find_first_match [OF fj]) (auto dest: find_SomeD split: if_splits)
    then show ?thesis using walk by simp
  qed
qed

text \<open>A run of \<open>hashmap_put\<close> calls, each of which must return \<open>MAP_OK\<close>.\<close>

fun put_all ::
    "('m \<Rightarrow> u64 \<Rightarrow> 'v option \<Rightarrow> (int \<times> 'm) outcome) \<Rightarrow> 'm \<Rightarrow> (u64 \<times> 'v option) list
      \<Rightarrow> 'm option" where
  "put_all put m [] = Some m"
| "put_all put m ((k, v) # kvs) =
     (case put m k v of Inr (status, m') \<Rightarrow>
          if status = MAP_OK then put_all put m' kvs else None
      | Inl _ \<Rightarrow> None)"

lemma hm_chained_put_all:
  "hm_inv m \<Longrightarrow> hm_chained m \<Longrightarrow> put_all (hashmap_put ok) m kvs = Some m'
    \<Longrightarrow> hm_inv m' \<and> hm_chained m'"
proof (induction kvs arbitrary: m)
  case Nil
  then show ?case by simp
next
  case (Cons kv kvs)
  obtain k v where kv: "kv = (k, v)" by (cases kv)
  show ?case
  proof (cases "0 < hm_room m")
    case True
    then have r: "hm_size m < int (hm_table_size m)"
      using hm_room_simps(1) [OF Cons.prems(1)] by simp
    obtain i where i: "find (slot_usable m k) (walk_of m k) = Some i"
      and lt: "i < hm_table_size m"
      by (rule usable_slot_ex [OF Cons.prems(1) r])
    have "put_all (hashmap_put ok) (put_slot m i k v) kvs = Some m'"
      using Cons.prems(3) hashmap_put_room [OF Cons.prems(1) r i, of ok v] kv by simp
    then show ?thesis
      by (rule Cons.IH [OF hm_inv_put_slot [OF Cons.prems(1) r lt]
            hm_chained_put_slot [OF Cons.prems(1,2) i]])
  next
    case False
    then have "hm_size m = int (hm_table_size m)"
      using hm_room_simps(2) [OF Cons.prems(1)] by simp
    with Cons.prems kv show ?thesis by (simp add: hashmap_put_full split: if_splits)
  qed
qed

text \<open>A run of \<open>hashmap_remove\<close> calls, whatever they return.\<close>

fun remove_all :: "('m \<Rightarrow> u64 \<Rightarrow> (int \<times> 'm) outcome) \<Rightarrow> 'm \<Rightarrow> u64 list \<Rightarrow> 'm outcome" where
  "remove_all remove m [] = Inr m"
| "remove_all remove m (k # ks) = and_then (remove m k) (\<lambda>(_, m'). remove_all remove m' ks)"

text \<open>\<open>hashmap_remove\<close> never adds a slot that holds a key.\<close>

lemma hm_copies_remove:
  assumes inv: "hm_inv m" and rm: "hashmap_remove m key = Inr (status, m')"
  shows "hm_copies m' k \<le> hm_copies m k"
proof (cases "find (slot_holds m key) (walk_of m key)")
  case None
  then show ?thesis using rm by (simp add: hashmap_remove_eq [OF inv])
next
  case (Some i)
  then have lt: "i < hm_table_size m" and m': "m' = clear_slot m i"
    using find_SomeD [OF Some] set_walk_of [OF inv, of key] rm by (auto simp: hashmap_remove_eq [OF inv])
  have "hm_table_size m' = hm_table_size m" by (simp add: m' clear_slot_def)
  then show ?thesis
    unfolding hm_copies_def using slot_holds_clear_slot [OF inv lt, of _ k] by (auto simp: m' intro!: card_mono)
qed

section \<open>The interface clients rely on\<close>

text \<open>
  \<open>pointer_table\<close> is what the chat client uses (put and get), \<open>removable_table\<close> what the server
  uses (put, get and remove). A key may be removed for good only where it occupies one slot.
\<close>

locale pointer_table =
  fixes inv :: "'m \<Rightarrow> bool"
    and room :: "'m \<Rightarrow> nat"
    and put :: "'m \<Rightarrow> u64 \<Rightarrow> 'v option \<Rightarrow> (int \<times> 'm) outcome"
    and lookup :: "'m \<Rightarrow> u64 \<Rightarrow> 'v option option"
  assumes put_room: "inv m \<Longrightarrow> 0 < room m \<Longrightarrow>
    \<exists>m'. put m k v = Inr (MAP_OK, m') \<and> inv m' \<and> room m = Suc (room m') \<and>
      lookup m' = (lookup m)(k \<mapsto> v)"
begin

lemma put_all_lookup:
  "inv m \<Longrightarrow> length kvs \<le> room m \<Longrightarrow>
    \<exists>m'. put_all put m kvs = Some m' \<and> inv m' \<and> room m' = room m - length kvs \<and>
      lookup m' = lookup m ++ map_of (rev kvs)"
proof (induction kvs arbitrary: m)
  case Nil
  then show ?case by simp
next
  case (Cons kv kvs)
  obtain k v where kv: "kv = (k, v)" by (cases kv)
  from Cons.prems obtain m1 where m1: "put m k v = Inr (MAP_OK, m1)" "inv m1"
      "room m = Suc (room m1)" "lookup m1 = (lookup m)(k \<mapsto> v)"
    using put_room [of m k v] by auto
  then have "length kvs \<le> room m1" using Cons.prems(2) by simp
  from Cons.IH [OF m1(2) this] obtain m' where
      "put_all put m1 kvs = Some m'" "inv m'" "room m' = room m1 - length kvs"
      "lookup m' = lookup m1 ++ map_of (rev kvs)"
    by blast
  with m1 kv show ?case by simp
qed

end

locale removable_table = pointer_table +
  fixes remove :: "'m \<Rightarrow> u64 \<Rightarrow> (int \<times> 'm) outcome"
    and copies :: "'m \<Rightarrow> u64 \<Rightarrow> nat"
  assumes remove_law: "inv m \<Longrightarrow>
    \<exists>m'. remove m k = Inr (if lookup m k = None then MAP_MISSING else MAP_OK, m') \<and>
      inv m' \<and> (\<forall>k'. k' \<noteq> k \<longrightarrow> lookup m' k' = lookup m k') \<and>
      (copies m k \<le> 1 \<longrightarrow> lookup m' k = None)"
    and remove_copies: "inv m \<Longrightarrow> remove m k = Inr (status, m') \<Longrightarrow> copies m' k' \<le> copies m k'"
begin

lemma remove_lookup:
  assumes "inv m" and "copies m k \<le> 1" and "remove m k = Inr (status, m')"
  shows "inv m' \<and> lookup m' = (lookup m)(k := None)"
  using remove_law [OF assms(1), of k] assms(2,3) by auto

lemma remove_returns:
  assumes "inv m"
  obtains status m' where "remove m k = Inr (status, m')" "inv m'"
    "\<And>k'. k' \<noteq> k \<Longrightarrow> lookup m' k' = lookup m k'"
  using remove_law [OF assms, of k] by auto

lemma remove_all_lookup:
  "inv m \<Longrightarrow> (\<And>k. copies m k \<le> 1) \<Longrightarrow>
    \<exists>m'. remove_all remove m ks = Inr m' \<and> inv m' \<and> lookup m' = lookup m |` (- set ks)"
proof (induction ks arbitrary: m)
  case Nil
  then show ?case by simp
next
  case (Cons k ks)
  obtain status m1 where m1: "remove m k = Inr (status, m1)"
    using remove_returns [OF Cons.prems(1), of k] by blast
  have inv1: "inv m1" and del: "lookup m1 = (lookup m)(k := None)"
    using remove_lookup [OF Cons.prems m1] by simp_all
  have "copies m1 j \<le> 1" for j
    using remove_copies [OF Cons.prems(1) m1, of j] Cons.prems(2) [of j] by linarith
  from Cons.IH [OF inv1 this] obtain m' where m': "remove_all remove m1 ks = Inr m'" "inv m'"
      "lookup m' = lookup m1 |` (- set ks)" by blast
  have "lookup m1 |` (- set ks) = lookup m |` (- set (k # ks))"
    by (auto simp: del restrict_map_def fun_eq_iff)
  then show ?case using m1 m' by simp
qed

end

interpretation hm: removable_table hm_inv hm_room "hashmap_put ok" hm_lookup hashmap_remove
    hm_copies for ok
proof unfold_locales
  fix m :: "'v hashmap_map" and k v
  assume "hm_inv m" "0 < hm_room m"
  then show "\<exists>m'. hashmap_put ok m k v = Inr (MAP_OK, m') \<and> hm_inv m' \<and>
      hm_room m = Suc (hm_room m') \<and> hm_lookup m' = (hm_lookup m)(k \<mapsto> v)"
    using hashmap_put_correct by blast
next
  fix m :: "'v hashmap_map" and k
  assume "hm_inv m"
  then show "\<exists>m'. hashmap_remove m k =
        Inr (if hm_lookup m k = None then MAP_MISSING else MAP_OK, m') \<and> hm_inv m' \<and>
      (\<forall>k'. k' \<noteq> k \<longrightarrow> hm_lookup m' k' = hm_lookup m k') \<and>
      (hm_copies m k \<le> 1 \<longrightarrow> hm_lookup m' k = None)"
    by (rule hashmap_remove_correct)
qed (rule hm_copies_remove)


section \<open>Any number of fuel units from five on\<close>

lemma hashmap_put_fuel_enough:
  assumes inv: "hm_inv m" and n: "5 \<le> n"
  shows "hashmap_put_fuel n ok m key v = hashmap_put ok m key v"
proof -
  obtain k where k: "n = Suc (Suc (Suc (Suc (Suc k))))"
    using le_Suc_ex [OF n] by (auto simp: eval_nat_numeral)
  show ?thesis
  proof (cases "0 < hm_room m")
    case True
    then have r: "hm_size m < int (hm_table_size m)"
      using hm_room_simps(1) [OF inv] by simp
    obtain i where i: "find (slot_usable m key) (walk_of m key) = Some i"
      by (rule usable_slot_ex [OF inv r])
    show ?thesis
      unfolding k hashmap_put_room [OF inv r i] by (rule hashmap_put_fuel_room [OF inv r i])
  next
    case False
    then have full: "hm_size m = int (hm_table_size m)"
      using hm_room_simps(2) [OF inv] by simp
    show ?thesis
      unfolding k hashmap_put_full [OF inv full] by (rule hashmap_put_fuel_full [OF inv full])
  qed
qed

lemma hashmap_put_cases:
  assumes inv: "hm_inv m"
  obtains (room) m' where "0 < hm_room m" "hashmap_put ok m key v = Inr (MAP_OK, m')" "hm_inv m'"
      "hm_table_size m' = hm_table_size m"
    | (deadlock) "hm_room m = 0" "ok (2 * hm_table_size m)"
      "hashmap_put ok m key v = Inl Self_Deadlock"
    | (omem) "hm_room m = 0" "\<not> ok (2 * hm_table_size m)"
      "hashmap_put ok m key v = Inr (MAP_OMEM, m)"
proof (cases "0 < hm_room m")
  case True
  then show ?thesis using room hashmap_put_correct [OF inv True, of ok key v] by blast
next
  case False
  then have full: "hm_size m = int (hm_table_size m)" and r: "hm_room m = 0"
    using hm_room_simps(2) [OF inv] by auto
  show ?thesis
    using deadlock omem r hashmap_put_full [OF inv full, of ok key v] by presburger
qed

section \<open>Taking any element, and walking all of them\<close>

lemma get_one_loop_find:
  "get_one_loop m n i = find (\<lambda>j. el_in_use (hm_data m ! j)) [i..<i + n]"
proof (induction m n i rule: get_one_loop.induct)
  case (1 m i)
  then show ?case by simp
next
  case (2 m n i)
  have "[i..<i + Suc n] = i # [Suc i..<Suc i + n]" by (simp add: upt_conv_Cons)
  then show ?case using 2 by (auto simp del: upt_Suc)
qed

lemma hm_inv_get_one:
  assumes inv: "hm_inv m" and got: "hashmap_get_one m remove = Inr (status, d, m')"
  shows "hm_inv m' \<and> hm_table_size m' = hm_table_size m"
proof (cases "get_one_loop m (hm_table_size m) 0")
  case None
  then show ?thesis using assms by (auto simp: hashmap_get_one_def split: if_splits)
next
  case (Some i)
  then have used: "el_in_use (hm_data m ! i)" and lt: "i < hm_table_size m"
    by (auto simp: get_one_loop_find dest: find_SomeD)
  have "int (length (filter el_in_use
      ((hm_data m)[i := (hm_data m ! i)\<lparr>el_in_use := False\<rparr>]))) = int (hm_used m) - 1"
    using length_filter_update [of i "hm_data m" el_in_use] used lt hm_invD(3) [OF inv]
    by (simp add: hm_used_def)
  with assms Some show ?thesis
    by (auto simp: hashmap_get_one_def hm_inv_def hm_used_def split: if_splits)
qed

lemma hm_inv_remove:
  assumes inv: "hm_inv m" and rm: "hashmap_remove m key = Inr (status, m')"
  shows "hm_inv m' \<and> hm_table_size m' = hm_table_size m"
proof (cases "find (slot_holds m key) (walk_of m key)")
  case None
  then show ?thesis using assms by (simp add: hashmap_remove_eq)
next
  case (Some i)
  then have "i < hm_table_size m" and "el_in_use (hm_data m ! i)"
    using find_SomeD [OF Some] set_walk_of [OF inv, of key] by (auto simp: slot_holds_def)
  then have "hm_inv (clear_slot m i)" by (rule hm_inv_clear_slot [OF inv])
  moreover have "m' = clear_slot m i" using assms Some by (simp add: hashmap_remove_eq)
  ultimately show ?thesis by (simp add: clear_slot_def)
qed

lemma iterate_loop_all:
  assumes "\<And>s d. fst (f s d) = MAP_OK"
  shows "iterate_loop f es s =
    (MAP_OK, fold (\<lambda>d s. snd (f s d)) (map el_data (filter el_in_use es)) s)"
proof (induction es arbitrary: s)
  case Nil
  then show ?case by simp
next
  case (Cons e es)
  obtain status s' where f: "f s (el_data e) = (status, s')" by (cases "f s (el_data e)")
  with assms [of s "el_data e"] have "status = MAP_OK" by simp
  with f Cons show ?case by simp
qed

text \<open>Runs of arbitrary operations on one table.\<close>

datatype 'v hm_op = Put u64 "'v option" | Remove u64 | Get_One bool

fun hm_run :: "(nat \<Rightarrow> bool) \<Rightarrow> 'v hm_op list \<Rightarrow> 'v hashmap_map \<Rightarrow> 'v hashmap_map outcome" where
  "hm_run ok [] m = Inr m"
| "hm_run ok (Put k v # ops) m =
     and_then (hashmap_put ok m k v) (\<lambda>(_, m'). hm_run ok ops m')"
| "hm_run ok (Remove k # ops) m =
     and_then (hashmap_remove m k) (\<lambda>(_, m'). hm_run ok ops m')"
| "hm_run ok (Get_One r # ops) m =
     and_then (hashmap_get_one m r) (\<lambda>(_, _, m'). hm_run ok ops m')"

lemma hm_run_inv:
  "hm_inv m \<Longrightarrow> hm_run ok ops m = Inr m' \<Longrightarrow> hm_inv m' \<and> hm_table_size m' = hm_table_size m"
proof (induction ok ops m rule: hm_run.induct)
  case (1 ok m)
  then show ?case by simp
next
  case (2 ok k v ops m)
  obtain status m1 where m1: "hashmap_put ok m k v = Inr (status, m1)"
      "hm_run ok ops m1 = Inr m'"
    using "2.prems"(2) by (auto simp: and_then_eq_Inr)
  have "hm_inv m1 \<and> hm_table_size m1 = hm_table_size m"
    using "2.prems"(1) m1(1)
    by (cases rule: hashmap_put_cases [OF "2.prems"(1), where ok = ok and key = k and v = v]) auto
  with "2.IH" [OF m1(1) refl] m1(2) show ?case by simp
next
  case (3 ok k ops m)
  then show ?case by (auto simp: and_then_eq_Inr dest: hm_inv_remove)
next
  case (4 ok r ops m)
  then show ?case by (auto simp: and_then_eq_Inr dest: hm_inv_get_one)
qed

lemma put_all_table_size:
  "hm_inv m \<Longrightarrow> put_all (hashmap_put ok) m kvs = Some m' \<Longrightarrow>
    hm_table_size m' = hm_table_size m"
proof (induction kvs arbitrary: m)
  case Nil
  then show ?case by simp
next
  case (Cons kv kvs)
  obtain k v where kv: "kv = (k, v)" by (cases kv)
  show ?case
    using Cons kv
    by (cases rule: hashmap_put_cases [OF Cons.prems(1), where ok = ok and key = k and v = v]) auto
qed

section \<open>Concrete tables and runs\<close>

definition new_map :: "nat hashmap_map" where
  "new_map = the (hashmap_new True True)"

lemma new_map_new: "hashmap_new True True = Some new_map"
  by (simp add: new_map_def hashmap_new_def)

lemma hm_room_new: "hashmap_new True True = Some m \<Longrightarrow> hm_room m = INITIAL_SIZE"
  by (auto simp: hashmap_new_def hm_room_def)

text \<open>Keys 8 and 57 have the same home slot: put both, remove the first, put the second again, and
  remove it.\<close>

definition stale_run ::
    "nat option \<Rightarrow> nat option \<Rightarrow> nat option \<Rightarrow> (int \<times> nat option) outcome" where
  "stale_run a b c =
     and_then (deref (hashmap_new True True)) (\<lambda>m0.
     and_then (hashmap_put (\<lambda>_. True) m0 8 a) (\<lambda>(_, m1).
     and_then (hashmap_put (\<lambda>_. True) m1 57 b) (\<lambda>(_, m2).
     and_then (hashmap_remove m2 8) (\<lambda>(_, m3).
     and_then (hashmap_put (\<lambda>_. True) m3 57 c) (\<lambda>(_, m4).
     and_then (hashmap_remove m4 57) (\<lambda>(_, m5).
     hashmap_get m5 57))))))"

text \<open>\<open>hashmap_iterate\<close> with a callback that never reports an error applies it to the data of
  every slot in use, once each and in table order; on a table of size 0 it does nothing and returns
  \<open>MAP_MISSING\<close>.\<close>

lemma hashmap_iterate_all:
  assumes "hm_inv m" and "\<And>s d. fst (f s d) = MAP_OK"
  shows "hashmap_iterate m f s =
    Inr (if hm_size m \<le> 0 then (MAP_MISSING, s)
         else (MAP_OK, fold (\<lambda>d s. snd (f s d)) (map el_data (filter el_in_use (hm_data m))) s))"
  using hm_invD(3,4) [OF assms(1)] iterate_loop_all [of f, OF assms(2)]
  by (simp add: hashmap_iterate_def hashmap_length_def)

text \<open>The mutual recursion of \<open>hashmap_put\<close> and \<open>hashmap_rehash\<close> always comes to an end (in a
  result, or in a thread blocked on its own mutex): five nested steps decide it, and more change
  nothing.\<close>

lemma hashmap_put_decided:
  assumes "hm_inv m" and "5 \<le> n"
  shows "hashmap_put_fuel n ok m key v = hashmap_put ok m key v \<and>
    hashmap_put_fuel n ok m key v \<noteq> Inl Out_Of_Fuel"
  using hashmap_put_fuel_enough [OF assms, of ok key v]
  by (cases rule: hashmap_put_cases [OF assms(1), where ok = ok and key = key and v = v]) auto

section \<open>Properties\<close>

text \<open>After \<open>hashmap_put\<close> in a table that is not full, \<open>hashmap_get\<close> of the key returns the
  stored pointer, and of any other key what it returned before.\<close>

lemma hashmap_put_get:
  assumes "hm_inv m" and "0 < hm_room m"
  shows "\<exists>m'. hashmap_put ok m key v = Inr (MAP_OK, m') \<and> hm_inv m' \<and>
    hashmap_get m' key = Inr (MAP_OK, v) \<and>
    (\<forall>k. k \<noteq> key \<longrightarrow> hashmap_get m' k = hashmap_get m k)"
proof -
  obtain m' where m': "hashmap_put ok m key v = Inr (MAP_OK, m')" "hm_inv m'"
      "hm_lookup m' = (hm_lookup m)(key \<mapsto> v)"
    using hm.put_room [OF assms, of ok key v] by blast
  then show ?thesis
    using assms(1) by (auto simp: hashmap_get_lookup)
qed

lemma hashmap_put_get_witness:
  "\<exists>m'. hashmap_put (\<lambda>_. True) new_map 8 (Some 1) = Inr (MAP_OK, m') \<and> hm_inv m' \<and>
    hashmap_get m' 8 = Inr (MAP_OK, Some 1) \<and>
    (\<forall>k. k \<noteq> 8 \<longrightarrow> hashmap_get m' k = hashmap_get new_map k)"
  by (rule hashmap_put_get [OF hm_inv_new [OF new_map_new]])
    (simp add: hm_room_new [OF new_map_new] INITIAL_SIZE_def)

text \<open>C23: A new table that has seen up to 1024 calls of \<open>hashmap_put\<close>, and then any calls of
  \<open>hashmap_remove\<close>, is a finite map. The calls of \<open>hashmap_put\<close> all return \<open>MAP_OK\<close>, and \<open>hashmap_get\<close>
  returns for every key what the last call for it has stored, or \<open>MAP_MISSING\<close>. \<open>hashmap_remove\<close> tells
  whether the key was there; and after any sequence of removals \<open>hashmap_get\<close> misses the removed keys and
  returns for every other key what it returned before. The bound is that of the code: after 1024 calls,
  even for few keys, the next \<open>hashmap_put\<close> blocks on the mutex it holds or returns \<open>MAP_OMEM\<close>.\<close>

theorem hashmap_filled_is_map:
  assumes new: "hashmap_new True True = Some m0" and len: "length kvs \<le> INITIAL_SIZE"
  shows "\<exists>m. put_all (hashmap_put ok) m0 kvs = Some m \<and>
    (\<forall>k. hashmap_get m k = (case map_of (rev kvs) k of
        Some v \<Rightarrow> Inr (MAP_OK, v) | None \<Rightarrow> Inr (MAP_MISSING, None))) \<and>
    (\<forall>k. \<exists>m'. hashmap_remove m k = Inr (if k \<in> fst ` set kvs then MAP_OK else MAP_MISSING, m')) \<and>
    (\<forall>ks. \<exists>m'. remove_all hashmap_remove m ks = Inr m' \<and> (\<forall>k. hashmap_get m' k =
        (if k \<in> set ks then Inr (MAP_MISSING, None) else hashmap_get m k))) \<and>
    (length kvs = INITIAL_SIZE \<longrightarrow> (\<forall>k v. hashmap_put ok m k v =
        (if ok (2 * INITIAL_SIZE) then Inl Self_Deadlock else Inr (MAP_OMEM, m))))"
proof -
  note inv0 = hm_inv_new [OF new]
  obtain m where m: "put_all (hashmap_put ok) m0 kvs = Some m" "hm_inv m"
      "hm_lookup m = map_of (rev kvs)" "hm_room m = INITIAL_SIZE - length kvs"
    using hm.put_all_lookup [OF inv0, of kvs ok] len hm_room_new [OF new] hm_lookup_new [OF new]
    by auto
  have copies: "hm_copies m k \<le> 1" for k
    using hm_chained_put_all [OF inv0 hm_chained_new [OF new] m(1)] hm_chained_copies by blast
  define K where "K = fst ` set kvs"
  have "hm_lookup m k = None \<longleftrightarrow> k \<notin> K" for k by (simp add: m(3) K_def map_of_eq_None_iff)
  then have status: "\<exists>m'. hashmap_remove m k = Inr (if k \<in> K then MAP_OK else MAP_MISSING, m')" for k
    using hm.remove_law [OF m(2), of k] by auto
  have removed: "\<exists>m'. remove_all hashmap_remove m ks = Inr m' \<and> (\<forall>k. hashmap_get m' k =
      (if k \<in> set ks then Inr (MAP_MISSING, None) else hashmap_get m k))" for ks
    using hm.remove_all_lookup [OF m(2) copies, of ks] m(2)
    by (fastforce simp: hashmap_get_lookup restrict_map_def)
  have "hm_table_size m = INITIAL_SIZE" using put_all_table_size [OF inv0 m(1)] new by (auto simp: hashmap_new_def)
  then have "length kvs = INITIAL_SIZE \<longrightarrow> (\<forall>k v. hashmap_put ok m k v =
      (if ok (2 * INITIAL_SIZE) then Inl Self_Deadlock else Inr (MAP_OMEM, m)))"
    using hashmap_put_full [OF m(2)] hm_room_simps(2) [OF m(2)] m(4) by simp
  moreover have "hashmap_get m k = (case map_of (rev kvs) k of
      Some v \<Rightarrow> Inr (MAP_OK, v) | None \<Rightarrow> Inr (MAP_MISSING, None))" for k
    using m(2,3) by (simp add: hashmap_get_lookup)
  ultimately show ?thesis using m(1) status removed unfolding K_def by blast
qed

text \<open>Three calls for the keys 8 and 57, which have the same home slot; then 8 is removed, and 57 stays.\<close>

theorem hashmap_filled_is_map_witness:
  "\<exists>m m'. put_all (hashmap_put (\<lambda>_. True)) new_map [(8, Some 1), (57, Some 2), (8, Some 3)] = Some m \<and>
    hashmap_get m 8 = Inr (MAP_OK, Some 3) \<and> remove_all hashmap_remove m [8] = Inr m' \<and>
    hashmap_get m' 8 = Inr (MAP_MISSING, None) \<and> hashmap_get m' 57 = Inr (MAP_OK, Some 2)"
proof -
  let ?kvs = "[(8, Some 1), (57, Some 2), (8, Some 3)]"
  have "length ?kvs \<le> INITIAL_SIZE" by (simp add: INITIAL_SIZE_def)
  from hashmap_filled_is_map [OF new_map_new this, of "\<lambda>_. True"] obtain m where
    m: "put_all (hashmap_put (\<lambda>_. True)) new_map ?kvs = Some m"
      "\<forall>k. hashmap_get m k = (case map_of (rev ?kvs) k of
        Some v \<Rightarrow> Inr (MAP_OK, v) | None \<Rightarrow> Inr (MAP_MISSING, None))"
      "\<forall>ks. \<exists>m'. remove_all hashmap_remove m ks = Inr m' \<and> (\<forall>k. hashmap_get m' k =
        (if k \<in> set ks then Inr (MAP_MISSING, None) else hashmap_get m k))" by blast
  from m(3) obtain m' where "remove_all hashmap_remove m [8] = Inr m'" "\<forall>k. hashmap_get m' k =
      (if k \<in> set [8] then Inr (MAP_MISSING, None) else hashmap_get m k)" by blast
  with m(1,2) show ?thesis by (intro exI [of _ m] exI [of _ m']) simp
qed

text \<open>\<open>hashmap_remove\<close> does not delete a key in general. Keys 8 and 57 share a home slot; once 8
  has been removed, a second \<open>hashmap_put\<close> of 57 takes the gap and leaves the older copy behind
  it, and removing 57 makes \<open>hashmap_get\<close> return the older pointer again.\<close>

lemma hashmap_remove_stale: "stale_run a b c = Inr (MAP_OK, b)"
  by code_simp

text \<open>\<open>size\<close> counts calls, not keys. Storing one key as often as the table has slots fills the
  table although it holds that key only, and the next \<open>hashmap_put\<close> locks a mutex that it
  already holds (or reports \<open>MAP_OMEM\<close> if the allocation fails).\<close>

lemma hashmap_same_key_fills:
  assumes new: "hashmap_new True True = Some m0"
  shows "\<exists>m. put_all (hashmap_put ok) m0 (replicate INITIAL_SIZE (key, v)) = Some m \<and>
    hm_lookup m = [key \<mapsto> v] \<and>
    hashmap_put ok m key v =
      (if ok (2 * INITIAL_SIZE) then Inl Self_Deadlock else Inr (MAP_OMEM, m))"
proof -
  let ?kvs = "replicate INITIAL_SIZE (key, v)"
  obtain m where m: "put_all (hashmap_put ok) m0 ?kvs = Some m" "hm_inv m" "hm_room m = 0"
      "hm_lookup m = map_of (rev ?kvs)"
    using hm.put_all_lookup [OF hm_inv_new [OF new], of ?kvs ok] hm_room_new [OF new]
      hm_lookup_new [OF new] by auto
  have "map_of (replicate n (key, v)) = (if n = 0 then Map.empty else [key \<mapsto> v])" for n
    by (induction n) auto
  then have "map_of (rev ?kvs) = [key \<mapsto> v]"
    using INITIAL_SIZE_bounds(1) by simp
  moreover have "hm_table_size m = INITIAL_SIZE"
    using put_all_table_size [OF hm_inv_new [OF new] m(1)] new by (auto simp: hashmap_new_def)
  ultimately show ?thesis
    using m hashmap_put_full [OF m(2)] hm_room_simps(2) [OF m(2)] by auto
qed

lemma hashmap_same_key_fills_witness:
  "\<exists>m. put_all (hashmap_put (\<lambda>_. True)) new_map (replicate INITIAL_SIZE (3, Some 5)) = Some m \<and>
    hm_lookup m = [3 \<mapsto> Some 5] \<and>
    hashmap_put (\<lambda>_. True) m 3 (Some 5) =
      (if (\<lambda>_. True) (2 * INITIAL_SIZE) then Inl Self_Deadlock else Inr (MAP_OMEM, m))"
  by (rule hashmap_same_key_fills [OF new_map_new])

text \<open>C34: whatever sequence of operations a table has been through, its data array has the size
  the table records, that size never changes, the mutex is free, \<open>size\<close> lies between the number of
  slots in use and the table size, and a probe for any key ends inside the array or reports a full
  table.\<close>

theorem hashmap_run_safe:
  assumes "hashmap_new True True = Some m0" and "hm_run ok ops m0 = Inr m"
  shows "length (hm_data m) = INITIAL_SIZE \<and> hm_table_size m = INITIAL_SIZE \<and> \<not> hm_locked m \<and>
    int (hm_used m) \<le> hm_size m \<and> hm_size m \<le> int INITIAL_SIZE \<and>
    (hashmap_hash m key = MAP_FULL \<and> hm_size m = int INITIAL_SIZE \<or>
     (\<exists>i < length (hm_data m). hashmap_hash m key = int i \<and> slot_usable m key i))"
proof -
  have inv: "hm_inv m" and ts: "hm_table_size m = INITIAL_SIZE"
    using hm_run_inv [OF hm_inv_new [OF assms(1)] assms(2)] assms(1)
    by (auto simp: hashmap_new_def)
  note I = hm_invD [OF inv]
  show ?thesis
  proof (cases "hm_size m = int (hm_table_size m)")
    case True
    then show ?thesis using I ts by (simp add: hashmap_hash_def)
  next
    case False
    then have r: "hm_size m < int (hm_table_size m)" using I(6) by simp
    obtain i where "find (slot_usable m key) (walk_of m key) = Some i" "i < hm_table_size m"
        "slot_usable m key i"
      by (rule usable_slot_ex [OF inv r])
    then show ?thesis using I ts hashmap_hash_room [OF r] by auto
  qed
qed

theorem hashmap_run_safe_witness:
  "\<exists>m. hm_run (\<lambda>_. True) [Put 8 (Some 1), Remove 8] new_map = Inr m \<and>
    length (hm_data m) = INITIAL_SIZE \<and> hm_table_size m = INITIAL_SIZE \<and> \<not> hm_locked m"
proof -
  have "case hm_run (\<lambda>_. True) [Put 8 (Some 1), Remove 8] new_map of Inr _ \<Rightarrow> True | Inl _ \<Rightarrow> False"
    by code_simp
  then obtain m where m: "hm_run (\<lambda>_. True) [Put 8 (Some 1), Remove 8] new_map = Inr m"
    by (auto split: sum.splits)
  with hashmap_run_safe [OF new_map_new m] show ?thesis by blast
qed

end
