(* ===== verification/Thread_Queue.thy ===== *)
theory Thread_Queue
  imports Prelude "HOL-Library.Signed_Division"
begin

text \<open>
  The message queue between threads of \<open>src/queue.c\<close>, with its linked lists on an explicit heap:
  the queue holds pointers to the first and last pending node and to a pool of nodes kept for
  reuse, and every operation may allocate, link and free nodes. An operation runs under the
  queue's mutex from its lock to its unlock, so it is one step here; the wait inside
  \<open>thread_queue_get\<close>, which releases the mutex, is a list of wake-ups, each with the return code of
  the wait and the queue as the other threads left it.
\<close>

section \<open>Nodes and the heap\<close>

type_synonym ptr = "nat option"

abbreviation EINVAL :: int where "EINVAL \<equiv> 22"
abbreviation ENOMEM :: int where "ENOMEM \<equiv> 12"
abbreviation ETIMEDOUT :: int where "ETIMEDOUT \<equiv> 110"

definition MSGPOOL_SIZE :: int where
  "MSGPOOL_SIZE = 256"

record 'a threadmsg =
  tm_data :: "'a option"
  tm_msgtype :: int
  tm_qlength :: int

record 'a msglist =
  ml_msg :: "'a threadmsg"
  ml_next :: ptr

text \<open>
  \<open>h_left\<close> is the number of nodes \<open>malloc\<close> can still provide (0: it returns \<open>NULL\<close>), \<open>h_brk\<close> an
  address from which on nothing is allocated, and \<open>h_junk\<close> the contents of fresh memory.
\<close>

record 'a heap =
  h_cells :: "nat \<rightharpoonup> 'a msglist"
  h_brk :: nat
  h_left :: nat
  h_junk :: "nat \<Rightarrow> 'a msglist"

definition malloc :: "'a heap \<Rightarrow> ptr \<times> 'a heap" where
  "malloc h =
     (if h_left h = 0 then (None, h)
      else (Some (h_brk h),
            h\<lparr>h_cells := (h_cells h)(h_brk h \<mapsto> h_junk h (h_brk h)),
              h_brk := h_brk h + 1, h_left := h_left h - 1\<rparr>))"

definition load :: "'a heap \<Rightarrow> ptr \<Rightarrow> 'a msglist outcome" where
  "load h p = (case p of None \<Rightarrow> Inl Null_Pointer
    | Some a \<Rightarrow> (case h_cells h a of None \<Rightarrow> Inl Use_After_Free | Some n \<Rightarrow> Inr n))"

definition store :: "'a heap \<Rightarrow> ptr \<Rightarrow> 'a msglist \<Rightarrow> 'a heap outcome" where
  "store h p n = and_then (load h p) (\<lambda>_. Inr (h\<lparr>h_cells := (h_cells h)(the p \<mapsto> n)\<rparr>))"

definition free :: "'a heap \<Rightarrow> ptr \<Rightarrow> 'a heap outcome" where
  "free h p = (case p of None \<Rightarrow> Inr h
    | Some a \<Rightarrow> (case h_cells h a of None \<Rightarrow> Inl Use_After_Free
        | Some _ \<Rightarrow> Inr (h\<lparr>h_cells := (h_cells h)(a := None), h_left := h_left h + 1\<rparr>)))"

section \<open>The queue and its operations\<close>

record threadqueue =
  tq_length :: int
  tq_first :: ptr
  tq_last :: ptr
  tq_msgpool :: ptr
  tq_msgpool_length :: int

definition get_msglist ::
    "'a heap \<Rightarrow> threadqueue \<Rightarrow> (ptr \<times> 'a heap \<times> threadqueue) outcome" where
  "get_msglist h q =
     (if tq_msgpool q \<noteq> None then
        and_then (load h (tq_msgpool q)) (\<lambda>tmp.
          Inr (tq_msgpool q, h,
               q\<lparr>tq_msgpool := ml_next tmp, tq_msgpool_length := tq_msgpool_length q - 1\<rparr>))
      else (case malloc h of (tmp, h') \<Rightarrow> Inr (tmp, h', q)))"

definition release_msglist ::
    "'a heap \<Rightarrow> threadqueue \<Rightarrow> ptr \<Rightarrow> ('a heap \<times> threadqueue) outcome" where
  "release_msglist h q node =
     and_then
       (if tq_msgpool_length q > tq_length q sdiv 8 + MSGPOOL_SIZE
        then and_then (free h node) (\<lambda>h. Inr (h, q))
        else and_then (load h node) (\<lambda>n.
             and_then (store h node
               (n\<lparr>ml_msg := (ml_msg n)\<lparr>tm_data := None, tm_msgtype := 0\<rparr>,
                  ml_next := tq_msgpool q\<rparr>)) (\<lambda>h.
             Inr (h, q\<lparr>tq_msgpool := node,
                       tq_msgpool_length := tq_msgpool_length q + 1\<rparr>))))
       (\<lambda>(h, q).
         if tq_msgpool_length q > tq_length q sdiv 4 + MSGPOOL_SIZE * 10
         then and_then (load h (tq_msgpool q)) (\<lambda>tmp.
              and_then (free h (tq_msgpool q)) (\<lambda>h.
              Inr (h, q\<lparr>tq_msgpool := ml_next tmp,
                        tq_msgpool_length := tq_msgpool_length q - 1\<rparr>)))
         else Inr (h, q))"

definition zero_queue :: threadqueue where
  "zero_queue = \<lparr>tq_length = 0, tq_first = None, tq_last = None, tq_msgpool = None,
     tq_msgpool_length = 0\<rparr>"

text \<open>
  \<open>cond_rc\<close> and \<open>mutex_rc\<close> are what \<open>pthread_cond_init\<close> and \<open>pthread_mutex_init\<close> return. A queue
  pointer is an option, \<open>None\<close> for \<open>NULL\<close>.
\<close>

definition thread_queue_init ::
    "int \<Rightarrow> int \<Rightarrow> threadqueue option \<Rightarrow> int \<times> threadqueue option" where
  "thread_queue_init cond_rc mutex_rc queue =
     (case queue of
        None \<Rightarrow> (EINVAL, None)
      | Some _ \<Rightarrow>
          if cond_rc \<noteq> 0 then (cond_rc, Some zero_queue)
          else if mutex_rc \<noteq> 0 then (mutex_rc, Some zero_queue)
          else (0, Some zero_queue))"

text \<open>
  The result of \<open>thread_queue_add\<close>: the return code, whether the condition variable was
  broadcast, and the new heap and queue.
\<close>

definition thread_queue_add ::
    "'a heap \<Rightarrow> threadqueue option \<Rightarrow> 'a option \<Rightarrow> int
      \<Rightarrow> (int \<times> bool \<times> 'a heap \<times> threadqueue) outcome" where
  "thread_queue_add h queue data msgtype =
     and_then (deref queue) (\<lambda>q.
     and_then (get_msglist h q) (\<lambda>(newmsg, h, q).
       if newmsg = None then Inr (ENOMEM, False, h, q)
       else
         and_then (load h newmsg) (\<lambda>n.
         and_then (store h newmsg
           (n\<lparr>ml_msg := (ml_msg n)\<lparr>tm_data := data, tm_msgtype := msgtype\<rparr>,
              ml_next := None\<rparr>)) (\<lambda>h.
         and_then
           (if tq_last q = None then Inr (h, q\<lparr>tq_last := newmsg, tq_first := newmsg\<rparr>)
            else and_then (load h (tq_last q)) (\<lambda>l.
                 and_then (store h (tq_last q) (l\<lparr>ml_next := newmsg\<rparr>)) (\<lambda>h.
                 Inr (h, q\<lparr>tq_last := newmsg\<rparr>))))
           (\<lambda>(h, q).
             Inr (0, tq_length q = 0, h, q\<lparr>tq_length := tq_length q + 1\<rparr>))))))"

text \<open>The absolute deadline of a timed wait, from seconds and microseconds of the current time.\<close>

definition abs_timeout :: "int \<times> int \<Rightarrow> int \<times> int \<Rightarrow> int \<times> int" where
  "abs_timeout now timeout =
     (let sec = fst now + fst timeout;
          nsec = snd now * 1000 + snd timeout
      in if nsec \<ge> 1000000000 then (sec + 1, nsec - 1000000000) else (sec, nsec))"

type_synonym 'a wakeup = "int \<times> 'a heap \<times> threadqueue"

text \<open>\<open>None\<close>: the thread is still waiting when the wake-ups run out.\<close>

fun wait_loop ::
    "bool \<Rightarrow> int \<Rightarrow> 'a heap \<Rightarrow> threadqueue \<Rightarrow> 'a wakeup list \<Rightarrow> 'a wakeup option" where
  "wait_loop timed ret h q wakes =
     (if tq_first q = None \<and> ret \<noteq> ETIMEDOUT then
        (case wakes of
           [] \<Rightarrow> None
         | (rc, h', q') # wakes' \<Rightarrow> wait_loop timed (if timed then rc else ret) h' q' wakes')
      else Some (ret, h, q))"

declare wait_loop.simps [simp del]

datatype 'a get_result =
    Blocked
  | Returned int "'a threadmsg option" "'a heap" "threadqueue option"

definition take_first ::
    "'a heap \<Rightarrow> threadqueue \<Rightarrow> 'a get_result outcome" where
  "take_first h q =
     and_then (load h (tq_first q)) (\<lambda>firstrec.
     let node = tq_first q;
         q = q\<lparr>tq_first := ml_next firstrec, tq_length := tq_length q - 1\<rparr>;
         q = (if tq_first q = None then q\<lparr>tq_last := None, tq_length := 0\<rparr> else q);
         msg = \<lparr>tm_data = tm_data (ml_msg firstrec), tm_msgtype = tm_msgtype (ml_msg firstrec),
                tm_qlength = tq_length q\<rparr>
     in and_then (release_msglist h q node) (\<lambda>(h, q). Inr (Returned 0 (Some msg) h (Some q))))"

text \<open>\<open>timed\<close>: a timeout was given; \<open>msg_ok\<close>: the caller's message pointer is not \<open>NULL\<close>.\<close>

definition thread_queue_get ::
    "'a heap \<Rightarrow> threadqueue option \<Rightarrow> bool \<Rightarrow> bool \<Rightarrow> 'a wakeup list \<Rightarrow> 'a get_result outcome" where
  "thread_queue_get h queue timed msg_ok wakes =
     (if queue = None \<or> \<not> msg_ok then Inr (Returned EINVAL None h queue)
      else
        (case wait_loop timed 0 h (the queue) wakes of
           None \<Rightarrow> Inr Blocked
         | Some (ret, h, q) \<Rightarrow>
             if ret = ETIMEDOUT then Inr (Returned ret None h (Some q))
             else take_first h q))"

text \<open>
  \<open>free_nodes\<close> is the inner loop of \<open>thread_queue_cleanup\<close>, with the data pointers it frees as a
  list; the fuel bounds the number of nodes.
\<close>

fun free_nodes ::
    "nat \<Rightarrow> 'a heap \<Rightarrow> ptr \<Rightarrow> bool \<Rightarrow> 'a list \<Rightarrow> ('a heap \<times> 'a list) outcome" where
  "free_nodes fuel h None freedata freed = Inr (h, freed)"
| "free_nodes 0 h (Some a) freedata freed = Inl Out_Of_Fuel"
| "free_nodes (Suc fuel) h (Some a) freedata freed =
     and_then (load h (Some a)) (\<lambda>rec.
     let freed = (if freedata
                  then freed @ (case tm_data (ml_msg rec) of None \<Rightarrow> [] | Some d \<Rightarrow> [d])
                  else freed)
     in and_then (free h (Some a)) (\<lambda>h. free_nodes fuel h (ml_next rec) freedata freed))"

definition thread_queue_cleanup ::
    "'a heap \<Rightarrow> threadqueue option \<Rightarrow> bool \<Rightarrow> int \<Rightarrow> (int \<times> 'a heap \<times> 'a list) outcome" where
  "thread_queue_cleanup h queue freedata destroy_rc =
     (case queue of
        None \<Rightarrow> Inr (EINVAL, h, [])
      | Some q \<Rightarrow>
          and_then (free_nodes (h_brk h) h (tq_first q) freedata []) (\<lambda>(h', freed).
          and_then (free_nodes (h_brk h) h' (tq_msgpool q) freedata freed) (\<lambda>(h'', freed).
          Inr (destroy_rc, h'', freed))))"

definition thread_queue_length :: "threadqueue option \<Rightarrow> int outcome" where
  "thread_queue_length queue = and_then (deref queue) (\<lambda>q. Inr (tq_length q))"

section \<open>Linked lists on the heap\<close>

primrec lpath :: "(nat \<rightharpoonup> 'a msglist) \<Rightarrow> ptr \<Rightarrow> nat list \<Rightarrow> ptr \<Rightarrow> bool" where
  "lpath c p [] r \<longleftrightarrow> p = r"
| "lpath c p (a # as) r \<longleftrightarrow> p = Some a \<and> (\<exists>n. c a = Some n \<and> lpath c (ml_next n) as r)"

lemma lpath_append [simp]:
  "lpath c p (as @ bs) r \<longleftrightarrow> (\<exists>m. lpath c p as m \<and> lpath c m bs r)"
  by (induction as arbitrary: p) auto

lemma lpath_upd [simp]:
  "a \<notin> set as \<Longrightarrow> lpath (c(a := v)) p as r = lpath c p as r"
  by (induction as arbitrary: p) auto

lemma lpath_cong:
  "(\<And>a. a \<in> set as \<Longrightarrow> c' a = c a) \<Longrightarrow> lpath c' p as r = lpath c p as r"
  by (induction as arbitrary: p) auto

lemma lpath_alloc: "lpath c p as r \<Longrightarrow> a \<in> set as \<Longrightarrow> c a \<noteq> None"
  by (induction as arbitrary: p) auto

definition entry :: "(nat \<rightharpoonup> 'a msglist) \<Rightarrow> nat \<Rightarrow> 'a option \<times> int" where
  "entry c a = (case c a of None \<Rightarrow> (None, 0)
     | Some n \<Rightarrow> (tm_data (ml_msg n), tm_msgtype (ml_msg n)))"

lemma pool_entries_upd [simp]:
  "a \<notin> set ps \<Longrightarrow> (\<forall>x \<in> set ps. fst (entry (c(a := v)) x) = None) \<longleftrightarrow>
    (\<forall>x \<in> set ps. fst (entry c x) = None)"
  by (rule ball_cong) (auto simp: entry_def)

fun walk :: "nat \<Rightarrow> (nat \<rightharpoonup> 'a msglist) \<Rightarrow> ptr \<Rightarrow> ('a option \<times> int) list" where
  "walk 0 c p = []"
| "walk (Suc n) c None = []"
| "walk (Suc n) c (Some a) = entry c a # (case c a of None \<Rightarrow> [] | Some m \<Rightarrow> walk n c (ml_next m))"

lemma walk_lpath: "lpath c p as None \<Longrightarrow> walk (length as) c p = map (entry c) as"
  by (induction as arbitrary: p) auto

section \<open>The representation invariant and the abstraction to lists\<close>

definition tq_rep :: "'a heap \<Rightarrow> threadqueue \<Rightarrow> nat list \<Rightarrow> nat list \<Rightarrow> bool" where
  "tq_rep h q as ps \<longleftrightarrow>
     lpath (h_cells h) (tq_first q) as None \<and> lpath (h_cells h) (tq_msgpool q) ps None \<and>
     distinct (as @ ps) \<and>
     tq_last q = (if as = [] then None else Some (last as)) \<and>
     tq_length q = int (length as) \<and> tq_msgpool_length q = int (length ps) \<and>
     (\<forall>a \<ge> h_brk h. h_cells h a = None) \<and>
     (\<forall>a \<in> set ps. fst (entry (h_cells h) a) = None)"

definition tq_inv :: "'a heap \<times> threadqueue \<Rightarrow> bool" where
  "tq_inv s \<longleftrightarrow> (\<exists>as ps. tq_rep (fst s) (snd s) as ps)"

definition tq_contents :: "'a heap \<times> threadqueue \<Rightarrow> ('a option \<times> int) list" where
  "tq_contents s = walk (nat (tq_length (snd s))) (h_cells (fst s)) (tq_first (snd s))"

lemma tq_contents_rep: "tq_rep h q as ps \<Longrightarrow> tq_contents (h, q) = map (entry (h_cells h)) as"
  by (simp add: tq_contents_def tq_rep_def walk_lpath)

lemma tq_rep_below: "tq_rep h q as ps \<Longrightarrow> a \<in> set as \<union> set ps \<Longrightarrow> a < h_brk h"
  by (auto simp: tq_rep_def not_less [symmetric] dest: lpath_alloc)

definition empty_heap :: "nat \<Rightarrow> 'a heap" where
  "empty_heap n = \<lparr>h_cells = Map.empty, h_brk = 1, h_left = n,
     h_junk = (\<lambda>_. \<lparr>ml_msg = \<lparr>tm_data = None, tm_msgtype = 0, tm_qlength = 0\<rparr>, ml_next = None\<rparr>)\<rparr>"

lemma tq_inv_init: "tq_inv (empty_heap n, zero_queue)"
  unfolding tq_inv_def
  by (intro exI [where x = "[]"]) (simp add: tq_rep_def empty_heap_def zero_queue_def)

lemma tq_contents_init [simp]: "tq_contents (h, zero_queue) = []"
  by (simp add: tq_contents_def zero_queue_def)

lemma map_entry_cong:
  "(\<And>a. a \<in> set as \<Longrightarrow> c' a = c a) \<Longrightarrow> map (entry c') as = map (entry c) as"
  by (simp add: entry_def)

text \<open>The cells outside \<open>A\<close> are untouched.\<close>

definition frame :: "nat set \<Rightarrow> 'a heap \<Rightarrow> 'a heap \<Rightarrow> bool" where
  "frame A h h' \<longleftrightarrow> h_brk h \<le> h_brk h' \<and> (\<forall>x. x \<notin> A \<longrightarrow> h_cells h' x = h_cells h x)"

lemma frame_refl [simp]: "frame A h h"
  by (simp add: frame_def)

lemma frame_trans: "frame A h h' \<Longrightarrow> frame B h' h'' \<Longrightarrow> frame (A \<union> B) h h''"
  by (auto simp: frame_def)

lemma frame_mono: "frame A h h' \<Longrightarrow> A \<subseteq> B \<Longrightarrow> frame B h h'"
  by (auto simp: frame_def)

lemma frame_cells [simp]: "a \<in> A \<Longrightarrow> frame A h (h\<lparr>h_cells := (h_cells h)(a := v)\<rparr>)"
  "a \<in> A \<Longrightarrow> frame A h (h\<lparr>h_cells := (h_cells h)(a := v), h_left := k\<rparr>)"
  by (auto simp: frame_def)

text \<open>A queue that shares no cell with \<open>A\<close> is still there.\<close>

lemma tq_rep_frame:
  assumes "tq_rep h q as ps" and "frame A h h'" and "A \<inter> (set as \<union> set ps) = {}"
    and "\<forall>a \<ge> h_brk h'. h_cells h' a = None"
  shows "tq_rep h' q as ps" "map (entry (h_cells h')) as = map (entry (h_cells h)) as"
proof -
  have same: "h_cells h' x = h_cells h x" if "x \<in> set as \<union> set ps" for x
    using assms(2,3) that by (auto simp: frame_def)
  then have "lpath (h_cells h') p xs r = lpath (h_cells h) p xs r" if "set xs \<subseteq> set as \<union> set ps" for p xs r
    using that by (intro lpath_cong) auto
  then show "tq_rep h' q as ps" using assms(1,4) same by (simp add: tq_rep_def entry_def)
  show "map (entry (h_cells h')) as = map (entry (h_cells h)) as"
    using same by (simp add: entry_def)
qed

section \<open>The node pool\<close>

lemma get_msglist_correct:
  assumes rep: "tq_rep h q as ps"
  obtains (none) "get_msglist h q = Inr (None, h, q)" "h_left h = 0" "ps = []"
  | (some) a h' q' ps' where "get_msglist h q = Inr (Some a, h', q')" "tq_rep h' q' as ps'"
      "a \<notin> set as \<union> set ps'" "h_cells h' a \<noteq> None" "h_left h \<noteq> 0 \<or> ps \<noteq> []"
      "\<And>x. x \<in> set as \<Longrightarrow> h_cells h' x = h_cells h x"
      "tq_first q' = tq_first q" "tq_last q' = tq_last q" "tq_length q' = tq_length q"
      "tq_msgpool_length q' \<le> tq_msgpool_length q"
      "insert a (set ps') \<subseteq> insert (h_brk h) (set ps)" "frame {h_brk h} h h'"
proof (cases ps)
  case (Cons p ps')
  from rep obtain n where n: "tq_msgpool q = Some p" "h_cells h p = Some n"
      "lpath (h_cells h) (ml_next n) ps' None"
    unfolding tq_rep_def Cons by auto
  let ?q = "q\<lparr>tq_msgpool := ml_next n, tq_msgpool_length := tq_msgpool_length q - 1\<rparr>"
  have "tq_rep h ?q as ps'" "p \<notin> set as \<union> set ps'"
    using rep n unfolding tq_rep_def Cons by auto
  moreover have "get_msglist h q = Inr (Some p, h, ?q)"
    using n by (simp add: get_msglist_def load_def)
  ultimately show ?thesis
    using n Cons by (intro some [of p h ?q ps']) auto
next
  case Nil
  have pool: "tq_msgpool q = None" using rep by (simp add: tq_rep_def Nil)
  show ?thesis
  proof (cases "h_left h = 0")
    case True
    then show ?thesis using Nil pool by (intro none) (simp_all add: get_msglist_def malloc_def)
  next
    case False
    let ?h = "snd (malloc h)"
    have fresh: "h_brk h \<notin> set as" using tq_rep_below [OF rep] by blast
    have "tq_rep ?h q as []"
      using rep fresh False unfolding tq_rep_def Nil malloc_def by auto
    moreover have "get_msglist h q = Inr (Some (h_brk h), ?h, q)"
      using pool False by (simp add: get_msglist_def malloc_def)
    ultimately show ?thesis
      using fresh False by (intro some [of "h_brk h" ?h q "[]"]) (auto simp: malloc_def frame_def)
  qed
qed

lemma tq_rep_free:
  assumes "tq_rep h q as ps" and "a \<notin> set as \<union> set ps"
  shows "tq_rep (h\<lparr>h_cells := (h_cells h)(a := None), h_left := k\<rparr>) q as ps"
  using assms by (auto simp: tq_rep_def)

lemma tq_rep_push_pool:
  assumes "tq_rep h q as ps" and "a \<notin> set as \<union> set ps" and "h_cells h a \<noteq> None"
    and "ml_next m = tq_msgpool q" and "tm_data (ml_msg m) = None"
  shows "tq_rep (h\<lparr>h_cells := (h_cells h)(a \<mapsto> m)\<rparr>)
    (q\<lparr>tq_msgpool := Some a, tq_msgpool_length := tq_msgpool_length q + 1\<rparr>) as (a # ps)"
  using assms by (auto simp: tq_rep_def entry_def)

text \<open>Releasing a node that belongs to neither list keeps the pending list as it was.\<close>

lemma release_msglist_correct:
  assumes rep: "tq_rep h q as ps" and a: "a \<notin> set as \<union> set ps" and n: "h_cells h a = Some n"
  shows "\<exists>h' q' ps'. release_msglist h q (Some a) = Inr (h', q') \<and> tq_rep h' q' as ps' \<and>
    (\<forall>x \<in> set as. h_cells h' x = h_cells h x) \<and>
    tq_msgpool_length q' \<le> max (tq_msgpool_length q) (tq_length q sdiv 8 + MSGPOOL_SIZE + 1) \<and>
    set ps' \<subseteq> insert a (set ps) \<and> frame (insert a (set ps)) h h'"
proof -
  obtain h1 q1 ps1 where first: "(if tq_msgpool_length q > tq_length q sdiv 8 + MSGPOOL_SIZE
        then and_then (free h (Some a)) (\<lambda>h. Inr (h, q))
        else and_then (load h (Some a)) (\<lambda>n.
             and_then (store h (Some a)
               (n\<lparr>ml_msg := (ml_msg n)\<lparr>tm_data := None, tm_msgtype := 0\<rparr>,
                  ml_next := tq_msgpool q\<rparr>)) (\<lambda>h.
             Inr (h, q\<lparr>tq_msgpool := Some a,
                       tq_msgpool_length := tq_msgpool_length q + 1\<rparr>)))) = Inr (h1, q1)"
    and rep1: "tq_rep h1 q1 as ps1" and same1: "\<forall>x \<in> set as. h_cells h1 x = h_cells h x"
    and len1: "tq_length q1 = tq_length q"
    and pool1: "tq_msgpool_length q1 \<le>
      max (tq_msgpool_length q) (tq_length q sdiv 8 + MSGPOOL_SIZE + 1)"
    and nodes1: "set ps1 \<subseteq> insert a (set ps)" and frame1: "frame (insert a (set ps)) h h1"
  proof (cases "tq_msgpool_length q > tq_length q sdiv 8 + MSGPOOL_SIZE")
    case True
    then show ?thesis
      using a n by (intro that [OF _ tq_rep_free [OF rep a, of "h_left h + 1"]])
        (auto simp: free_def)
  next
    case False
    let ?m = "n\<lparr>ml_msg := (ml_msg n)\<lparr>tm_data := None, tm_msgtype := 0\<rparr>,
      ml_next := tq_msgpool q\<rparr>"
    show ?thesis
      using a n False by (intro that [OF _ tq_rep_push_pool [OF rep a, of ?m]])
        (auto simp: load_def store_def)
  qed
  show ?thesis
  proof (cases "tq_msgpool_length q1 > tq_length q1 sdiv 4 + MSGPOOL_SIZE * 10")
    case False
    then show ?thesis
      using rep1 same1 pool1 nodes1 frame1 by (auto simp: release_msglist_def first)
  next
    case True
    have "0 \<le> tq_length q1 sdiv 4" using rep1 by (simp add: tq_rep_def signed_divide_int_def)
    then obtain p ps' where ps1: "ps1 = p # ps'"
      using True rep1 by (cases ps1) (auto simp: tq_rep_def MSGPOOL_SIZE_def)
    then obtain m where m: "tq_msgpool q1 = Some p" "h_cells h1 p = Some m"
        "lpath (h_cells h1) (ml_next m) ps' None"
      using rep1 by (auto simp: tq_rep_def)
    let ?q = "q1\<lparr>tq_msgpool := ml_next m, tq_msgpool_length := tq_msgpool_length q1 - 1\<rparr>"
    have "tq_rep h1 ?q as ps'" and p: "p \<notin> set as \<union> set ps'"
      using rep1 m by (auto simp: tq_rep_def ps1)
    moreover have "frame (insert a (set ps)) h (h1\<lparr>h_cells := (h_cells h1)(p := None), h_left := k\<rparr>)" for k
      using frame1 nodes1 by (auto simp: frame_def ps1)
    moreover have "set ps' \<subseteq> insert a (set ps)" using nodes1 by (auto simp: ps1)
    ultimately show ?thesis
      using tq_rep_free [of h1 ?q as ps' p] m True same1 pool1
      by (auto simp: release_msglist_def first load_def free_def)
  qed
qed

section \<open>Adding and taking\<close>

lemma tq_rep_link:
  assumes rep: "tq_rep h q as ps" and a: "a \<notin> set as \<union> set ps" "h_cells h a \<noteq> None"
    and l: "as \<noteq> []" "h_cells h (last as) = Some l" and m: "ml_next m = None"
  shows "tq_rep
    (h\<lparr>h_cells := (h_cells h)(a \<mapsto> m, last as \<mapsto> l\<lparr>ml_next := Some a\<rparr>)\<rparr>)
    (q\<lparr>tq_last := Some a, tq_length := tq_length q + 1\<rparr>) (as @ [a]) ps"
proof -
  obtain bs b where as: "as = bs @ [b]" using l(1) by (cases as rule: rev_cases) auto
  have "b \<noteq> a" "b \<notin> set bs" "b \<notin> set ps" "a \<notin> set bs" "a \<notin> set ps"
    using rep a by (auto simp: tq_rep_def as)
  then show ?thesis
    using rep a l m by (auto simp: tq_rep_def as)
qed

lemma thread_queue_add_correct:
  assumes rep: "tq_rep h q as ps"
  shows "thread_queue_add h (Some q) d t = Inr (ENOMEM, False, h, q) \<and> h_left h = 0 \<and> ps = [] \<or>
    (\<exists>h' q' a ps'. thread_queue_add h (Some q) d t = Inr (0, as = [], h', q') \<and>
      tq_rep h' q' (as @ [a]) ps' \<and>
      map (entry (h_cells h')) (as @ [a]) = map (entry (h_cells h)) as @ [(d, t)] \<and>
      tq_msgpool_length q' \<le> tq_msgpool_length q \<and> (h_left h \<noteq> 0 \<or> ps \<noteq> []) \<and>
      set (as @ [a]) \<union> set ps' \<subseteq> insert (h_brk h) (set as \<union> set ps) \<and>
      frame (insert (h_brk h) (set as \<union> set ps)) h h')"
proof (cases rule: get_msglist_correct [OF rep])
  case 1
  then show ?thesis by (simp add: thread_queue_add_def)
next
  case (2 a h1 q1 ps1)
  obtain n where n: "h_cells h1 a = Some n" using 2(4) by auto
  let ?m = "n\<lparr>ml_msg := (ml_msg n)\<lparr>tm_data := d, tm_msgtype := t\<rparr>, ml_next := None\<rparr>"
  have em: "entry (c(a \<mapsto> ?m)) a = (d, t)" for c by (simp add: entry_def)
  have nodes: "set (as @ [a]) \<union> set ps1 \<subseteq> insert (h_brk h) (set as \<union> set ps)"
    using 2(11) by auto
  have fr: "frame (insert (h_brk h) (set as \<union> set ps)) h (h1\<lparr>h_cells := (h_cells h1)(a \<mapsto> n1)\<rparr>)"
    "as \<noteq> [] \<Longrightarrow> frame (insert (h_brk h) (set as \<union> set ps)) h
      (h1\<lparr>h_cells := (h_cells h1)(a \<mapsto> n1, last as \<mapsto> n2)\<rparr>)" for n1 n2
    using 2(11,12) by (auto simp: frame_def)
  have len: "tq_length q = 0 \<longleftrightarrow> as = []" using rep by (simp add: tq_rep_def)
  show ?thesis
  proof (cases "as = []")
    case True
    let ?h = "h1\<lparr>h_cells := (h_cells h1)(a \<mapsto> ?m)\<rparr>"
    let ?q = "q1\<lparr>tq_last := Some a, tq_first := Some a, tq_length := tq_length q1 + 1\<rparr>"
    have "tq_rep ?h ?q [a] ps1" using 2(2,3) n True by (auto simp: tq_rep_def)
    moreover have "thread_queue_add h (Some q) d t = Inr (0, True, ?h, ?q)"
      using 2 n True rep len by (simp add: thread_queue_add_def load_def store_def tq_rep_def)
    ultimately show ?thesis using True 2(5,10) em [of "h_cells h1"] nodes fr(1) by auto
  next
    case False
    then have last: "tq_last q1 = Some (last as)" "last as \<in> set as" "last as \<noteq> a"
      using 2(2,3) by (auto simp: tq_rep_def)
    have "lpath (h_cells h1) (tq_first q1) as None" using 2(2) by (simp add: tq_rep_def)
    from lpath_alloc [OF this last(2)] obtain l where l: "h_cells h1 (last as) = Some l"
      by auto
    let ?h = "h1\<lparr>h_cells := (h_cells h1)(a \<mapsto> ?m, last as \<mapsto> l\<lparr>ml_next := Some a\<rparr>)\<rparr>"
    let ?q = "q1\<lparr>tq_last := Some a, tq_length := tq_length q1 + 1\<rparr>"
    have "tq_rep ?h ?q (as @ [a]) ps1"
      by (rule tq_rep_link [OF 2(2) _ _ False l]) (use 2(3,4) in auto)
    moreover have "thread_queue_add h (Some q) d t = Inr (0, False, ?h, ?q)"
      using 2(1,9) n False last(1,3) l len
      by (simp add: thread_queue_add_def load_def store_def)
    moreover have "map (entry (h_cells ?h)) (as @ [a]) = map (entry (h_cells h)) as @ [(d, t)]"
      using 2(3,6) last l em by (auto simp: entry_def)
    ultimately show ?thesis using False 2(5,10) nodes fr(2) by auto
  qed
qed

lemma tq_rep_unlink:
  assumes rep: "tq_rep h q (a # as) ps" and n: "h_cells h a = Some n"
  shows "tq_rep h (if ml_next n = None
      then q\<lparr>tq_first := ml_next n, tq_last := None, tq_length := 0\<rparr>
      else q\<lparr>tq_first := ml_next n, tq_length := tq_length q - 1\<rparr>) as ps"
    and "ml_next n = None \<longleftrightarrow> as = []"
proof -
  from rep n have "lpath (h_cells h) (ml_next n) as None" by (simp add: tq_rep_def)
  then show nx: "ml_next n = None \<longleftrightarrow> as = []" by (cases as) auto
  show "tq_rep h (if ml_next n = None
      then q\<lparr>tq_first := ml_next n, tq_last := None, tq_length := 0\<rparr>
      else q\<lparr>tq_first := ml_next n, tq_length := tq_length q - 1\<rparr>) as ps"
    using rep n nx by (auto simp: tq_rep_def)
qed

lemma take_first_correct:
  assumes rep: "tq_rep h q (a # as) ps"
  shows "\<exists>msg h' q' ps'. take_first h q = Inr (Returned 0 (Some msg) h' (Some q')) \<and>
    (tm_data msg, tm_msgtype msg) = entry (h_cells h) a \<and> tm_qlength msg = int (length as) \<and>
    tq_rep h' q' as ps' \<and> map (entry (h_cells h')) as = map (entry (h_cells h)) as \<and>
    tq_msgpool_length q' \<le>
      max (tq_msgpool_length q) (int (length as) sdiv 8 + MSGPOOL_SIZE + 1) \<and>
    set ps' \<subseteq> insert a (set ps) \<and> frame (insert a (set ps)) h h'"
proof -
  obtain n where n: "tq_first q = Some a" "h_cells h a = Some n"
    using rep by (auto simp: tq_rep_def)
  define q1 where "q1 = (if ml_next n = None
      then q\<lparr>tq_first := ml_next n, tq_last := None, tq_length := 0\<rparr>
      else q\<lparr>tq_first := ml_next n, tq_length := tq_length q - 1\<rparr>)"
  have rep1: "tq_rep h q1 as ps" and nx: "ml_next n = None \<longleftrightarrow> as = []"
    unfolding q1_def using tq_rep_unlink [OF rep n(2)] by auto
  have len1: "tq_length q1 = int (length as)" using rep1 by (simp add: tq_rep_def)
  have pool1: "tq_msgpool_length q1 = tq_msgpool_length q" by (simp add: q1_def)
  have a: "a \<notin> set as \<union> set ps" using rep by (simp add: tq_rep_def)
  obtain h' q' ps' where rel: "release_msglist h q1 (Some a) = Inr (h', q')"
      "tq_rep h' q' as ps'" "\<forall>x \<in> set as. h_cells h' x = h_cells h x"
      "tq_msgpool_length q' \<le> max (tq_msgpool_length q) (int (length as) sdiv 8 + MSGPOOL_SIZE + 1)"
      "set ps' \<subseteq> insert a (set ps)" "frame (insert a (set ps)) h h'"
    using release_msglist_correct [OF rep1 a n(2)] len1 pool1 by auto
  have "take_first h q = Inr (Returned 0 (Some \<lparr>tm_data = tm_data (ml_msg n),
      tm_msgtype = tm_msgtype (ml_msg n), tm_qlength = tq_length q1\<rparr>) h' (Some q'))"
    using n rel(1) by (auto simp: take_first_def load_def q1_def Let_def split: if_splits)
  with rel n len1 show ?thesis
    by (auto simp: entry_def intro: map_entry_cong)
qed


section \<open>FIFO queues as an interface\<close>

text \<open>
  What the threads rely on. \<open>enq\<close> may refuse (\<open>None\<close>: out of memory) and must then leave the state
  as it was; \<open>deq\<close> returns \<open>None\<close> where the caller would have to wait.
\<close>

datatype 'b qop = Enq 'b | Deq

fun fifo_run ::
    "('b \<Rightarrow> 's \<Rightarrow> 's option outcome) \<Rightarrow> ('s \<Rightarrow> ('b \<times> 's) option outcome)
      \<Rightarrow> 'b qop list \<Rightarrow> 's \<Rightarrow> ('b list \<times> 'b list \<times> 's) outcome" where
  "fifo_run enq deq [] s = Inr ([], [], s)"
| "fifo_run enq deq (Enq x # ops) s =
     and_then (enq x s) (\<lambda>r. case r of
        None \<Rightarrow> fifo_run enq deq ops s
      | Some s' \<Rightarrow> and_then (fifo_run enq deq ops s') (\<lambda>(ins, outs, t). Inr (x # ins, outs, t)))"
| "fifo_run enq deq (Deq # ops) s =
     and_then (deq s) (\<lambda>r. case r of
        None \<Rightarrow> fifo_run enq deq ops s
      | Some (y, s') \<Rightarrow>
          and_then (fifo_run enq deq ops s') (\<lambda>(ins, outs, t). Inr (ins, y # outs, t)))"

locale fifo_queue =
  fixes inv :: "'s \<Rightarrow> bool"
    and contents :: "'s \<Rightarrow> 'b list"
    and enq :: "'b \<Rightarrow> 's \<Rightarrow> 's option outcome"
    and deq :: "'s \<Rightarrow> ('b \<times> 's) option outcome"
  assumes enq_law: "inv s \<Longrightarrow> enq x s = Inr None \<or>
      (\<exists>s'. enq x s = Inr (Some s') \<and> inv s' \<and> contents s' = contents s @ [x])"
    and deq_empty: "inv s \<Longrightarrow> contents s = [] \<Longrightarrow> deq s = Inr None"
    and deq_law: "inv s \<Longrightarrow> contents s = x # xs \<Longrightarrow>
      \<exists>s'. deq s = Inr (Some (x, s')) \<and> inv s' \<and> contents s' = xs"
begin

lemma run_fifo:
  "inv s \<Longrightarrow> \<exists>ins outs t. fifo_run enq deq ops s = Inr (ins, outs, t) \<and> inv t \<and>
    outs @ contents t = contents s @ ins"
proof (induction ops arbitrary: s)
  case Nil
  then show ?case by simp
next
  case (Cons op ops)
  show ?case
  proof (cases op)
    case (Enq x)
    consider "enq x s = Inr None" | s' where "enq x s = Inr (Some s')" "inv s'"
        "contents s' = contents s @ [x]"
      using enq_law [OF Cons.prems] by blast
    then show ?thesis
    proof cases
      case 1
      then show ?thesis using Cons Enq by simp
    next
      case (2 s')
      then show ?thesis using Cons.IH [OF 2(2)] Enq by auto
    qed
  next
    case Deq
    show ?thesis
    proof (cases "contents s")
      case Nil
      then have d: "deq s = Inr None" using deq_empty [OF Cons.prems] by simp
      from Cons.IH [OF Cons.prems] obtain ins outs t where
        "fifo_run enq deq ops s = Inr (ins, outs, t)" "inv t"
        "outs @ contents t = contents s @ ins" by blast
      then show ?thesis using d Deq by simp
    next
      case C: (Cons y ys)
      then obtain s' where "deq s = Inr (Some (y, s'))" "inv s'" "contents s' = ys"
        using deq_law [OF Cons.prems] by blast
      then show ?thesis using Cons.IH [of s'] Deq C by fastforce
    qed
  qed
qed

end

text \<open>The two operations of the interface on the code's model.\<close>

definition tq_enq ::
    "'a option \<times> int \<Rightarrow> 'a heap \<times> threadqueue \<Rightarrow> ('a heap \<times> threadqueue) option outcome" where
  "tq_enq x s =
     and_then (thread_queue_add (fst s) (Some (snd s)) (fst x) (snd x)) (\<lambda>(rc, _, h, q).
       Inr (if rc = 0 then Some (h, q) else None))"

definition tq_deq ::
    "'a heap \<times> threadqueue \<Rightarrow> (('a option \<times> int) \<times> 'a heap \<times> threadqueue) option outcome" where
  "tq_deq s =
     and_then (thread_queue_get (fst s) (Some (snd s)) False True []) (\<lambda>r. case r of
        Returned rc (Some msg) h (Some q) \<Rightarrow> Inr (Some ((tm_data msg, tm_msgtype msg), h, q))
      | _ \<Rightarrow> Inr None)"

lemma get_nonempty:
  assumes "tq_first q = Some a"
  shows "thread_queue_get h (Some q) timed True wakes = take_first h q"
  using assms by (simp add: thread_queue_get_def wait_loop.simps [of _ _ _ q])

lemma tq_contents_cases:
  assumes "tq_inv (h, q)"
  obtains (empty) ps where "tq_rep h q [] ps" "tq_contents (h, q) = []" "tq_first q = None"
  | (cons) a as ps where "tq_rep h q (a # as) ps" "tq_first q = Some a"
      "tq_contents (h, q) = entry (h_cells h) a # map (entry (h_cells h)) as"
proof -
  from assms obtain as ps where rep: "tq_rep h q as ps" by (auto simp: tq_inv_def)
  show ?thesis
  proof (cases as)
    case Nil
    with rep empty show ?thesis using tq_contents_rep [OF rep] by (auto simp: tq_rep_def)
  next
    case (Cons a as')
    with rep cons show ?thesis using tq_contents_rep [OF rep] by (auto simp: tq_rep_def)
  qed
qed

interpretation tq: fifo_queue tq_inv tq_contents tq_enq tq_deq
proof unfold_locales
  fix s :: "'a heap \<times> threadqueue" and x :: "'a option \<times> int"
  assume inv: "tq_inv s"
  obtain h q d t where s: "s = (h, q)" and x: "x = (d, t)" by (cases s, cases x)
  from inv s obtain as ps where rep: "tq_rep h q as ps" by (auto simp: tq_inv_def)
  show "tq_enq x s = Inr None \<or>
    (\<exists>s'. tq_enq x s = Inr (Some s') \<and> tq_inv s' \<and> tq_contents s' = tq_contents s @ [x])"
  proof (rule disjE [OF thread_queue_add_correct [OF rep, of d t]])
    assume "thread_queue_add h (Some q) d t = Inr (ENOMEM, False, h, q) \<and> h_left h = 0 \<and> ps = []"
    then show ?thesis by (simp add: tq_enq_def s x)
  next
    assume "\<exists>h' q' a ps'. thread_queue_add h (Some q) d t = Inr (0, as = [], h', q') \<and>
      tq_rep h' q' (as @ [a]) ps' \<and>
      map (entry (h_cells h')) (as @ [a]) = map (entry (h_cells h)) as @ [(d, t)] \<and>
      tq_msgpool_length q' \<le> tq_msgpool_length q \<and> (h_left h \<noteq> 0 \<or> ps \<noteq> []) \<and>
      set (as @ [a]) \<union> set ps' \<subseteq> insert (h_brk h) (set as \<union> set ps) \<and>
      frame (insert (h_brk h) (set as \<union> set ps)) h h'"
    then obtain h' q' a ps' where add: "thread_queue_add h (Some q) d t = Inr (0, as = [], h', q')"
        "tq_rep h' q' (as @ [a]) ps'"
        "map (entry (h_cells h')) (as @ [a]) = map (entry (h_cells h)) as @ [(d, t)]"
      by blast
    then have "tq_inv (h', q')" "tq_contents (h', q') = tq_contents (h, q) @ [(d, t)]"
      using tq_contents_rep [OF rep] tq_contents_rep [OF add(2)] by (auto simp: tq_inv_def)
    with add(1) show ?thesis by (simp add: tq_enq_def s x)
  qed
next
  fix s :: "'a heap \<times> threadqueue"
  assume inv: "tq_inv s" and nil: "tq_contents s = []"
  obtain h q where s: "s = (h, q)" by (cases s)
  show "tq_deq s = Inr None"
    using nil by (cases rule: tq_contents_cases [OF inv [unfolded s]])
      (simp_all add: s tq_deq_def thread_queue_get_def wait_loop.simps)
next
  fix s :: "'a heap \<times> threadqueue" and x xs
  assume inv: "tq_inv s" and c: "tq_contents s = x # xs"
  obtain h q where s: "s = (h, q)" by (cases s)
  show "\<exists>s'. tq_deq s = Inr (Some (x, s')) \<and> tq_inv s' \<and> tq_contents s' = xs"
  proof (cases rule: tq_contents_cases [OF inv [unfolded s]])
    case 1
    then show ?thesis using c s by simp
  next
    case (2 a as ps)
    from take_first_correct [OF 2(1)] obtain msg h' q' ps' where t:
        "take_first h q = Inr (Returned 0 (Some msg) h' (Some q'))"
        "(tm_data msg, tm_msgtype msg) = entry (h_cells h) a" "tq_rep h' q' as ps'"
        "map (entry (h_cells h')) as = map (entry (h_cells h)) as"
      by blast
    have "tq_inv (h', q')" "tq_contents (h', q') = xs"
      using t(3,4) tq_contents_rep [OF t(3)] 2(3) c s by (auto simp: tq_inv_def)
    then show ?thesis
      using t(1,2) 2(2,3) c s get_nonempty [of q a h False "[]"] by (simp add: tq_deq_def)
  qed
qed

section \<open>Cleaning up\<close>

lemma free_nodes_lpath:
  "lpath (h_cells h) p as None \<Longrightarrow> distinct as \<Longrightarrow> length as \<le> fuel \<Longrightarrow>
    \<exists>h'. free_nodes fuel h p freedata freed =
        Inr (h', freed @ (if freedata
          then List.map_filter (\<lambda>a. fst (entry (h_cells h) a)) as else [])) \<and>
      h_cells h' = h_cells h |` (- set as) \<and> h_left h' = h_left h + length as"
proof (induction as arbitrary: fuel h p freed)
  case Nil
  then show ?case by (simp add: map_filter_simps)
next
  case (Cons a as)
  from Cons.prems obtain n where n: "p = Some a" "h_cells h a = Some n"
      "lpath (h_cells h) (ml_next n) as None" by auto
  obtain k where k: "fuel = Suc k" using Cons.prems(3) by (cases fuel) auto
  let ?h = "h\<lparr>h_cells := (h_cells h)(a := None), h_left := h_left h + 1\<rparr>"
  let ?freed = "if freedata
    then freed @ (case tm_data (ml_msg n) of None \<Rightarrow> [] | Some d \<Rightarrow> [d]) else freed"
  have "\<exists>h'. free_nodes k ?h (ml_next n) freedata ?freed =
      Inr (h', ?freed @ (if freedata
        then List.map_filter (\<lambda>a. fst (entry (h_cells ?h) a)) as else [])) \<and>
    h_cells h' = h_cells ?h |` (- set as) \<and> h_left h' = h_left ?h + length as"
    by (rule Cons.IH) (use n Cons.prems k in \<open>simp_all del: fun_upd_apply\<close>)
  moreover have "List.map_filter (\<lambda>a. fst (entry (h_cells ?h) a)) as =
      List.map_filter (\<lambda>a. fst (entry (h_cells h) a)) as"
    using Cons.prems(2) by (auto simp: List.map_filter_def entry_def intro!: map_cong filter_cong)
  moreover have "h_cells ?h |` (- set as) = h_cells h |` (- set (a # as))"
    by (auto simp: restrict_map_def)
  ultimately show ?case
    using n k by (auto simp: load_def free_def Let_def entry_def map_filter_simps
        split: option.splits)
qed

text \<open>A queue that holds one message, for the concrete instances below.\<close>

definition one_heap :: "bool heap" where
  "one_heap = (empty_heap 4)\<lparr>h_brk := 2, h_cells := [1 \<mapsto>
     \<lparr>ml_msg = \<lparr>tm_data = Some True, tm_msgtype = 3, tm_qlength = 0\<rparr>, ml_next = None\<rparr>]\<rparr>"

definition one_queue :: threadqueue where
  "one_queue = zero_queue\<lparr>tq_length := 1, tq_first := Some 1, tq_last := Some 1\<rparr>"

lemma add_appends_contents:
  assumes "tq_inv (h, q)"
  shows "thread_queue_add h (Some q) d t = Inr (ENOMEM, False, h, q) \<and> h_left h = 0 \<or>
    (\<exists>h' q'. thread_queue_add h (Some q) d t = Inr (0, tq_contents (h, q) = [], h', q') \<and>
      tq_inv (h', q') \<and> tq_contents (h', q') = tq_contents (h, q) @ [(d, t)])"
proof -
  obtain as ps where rep: "tq_rep h q as ps" using assms by (auto simp: tq_inv_def)
  have appended: ?thesis if "thread_queue_add h (Some q) d t = Inr (0, as = [], h', q')"
      "tq_rep h' q' (as @ [a]) ps'"
      "map (entry (h_cells h')) (as @ [a]) = map (entry (h_cells h)) as @ [(d, t)]" for h' q' a ps'
    using that tq_contents_rep [OF rep] tq_contents_rep [OF that(2)] by (auto simp: tq_inv_def)
  show ?thesis
    using thread_queue_add_correct [OF rep, of d t] appended by blast
qed

lemma get_takes_first:
  assumes "tq_inv (h, q)" and "tq_contents (h, q) = (d, t) # rest"
  shows "\<exists>h' q'. thread_queue_get h (Some q) timed True wakes =
      Inr (Returned 0 (Some \<lparr>tm_data = d, tm_msgtype = t, tm_qlength = int (length rest)\<rparr>)
        h' (Some q')) \<and>
    tq_inv (h', q') \<and> tq_contents (h', q') = rest \<and>
    tq_msgpool_length q' \<le>
      max (tq_msgpool_length q) (int (length rest) sdiv 8 + MSGPOOL_SIZE + 1)"
proof (cases rule: tq_contents_cases [OF assms(1)])
  case 1
  then show ?thesis using assms(2) by simp
next
  case (2 a as ps)
  from take_first_correct [OF 2(1)] obtain msg h' q' ps' where t:
      "take_first h q = Inr (Returned 0 (Some msg) h' (Some q'))"
      "(tm_data msg, tm_msgtype msg) = entry (h_cells h) a" "tm_qlength msg = int (length as)"
      "tq_rep h' q' as ps'" "map (entry (h_cells h')) as = map (entry (h_cells h)) as"
      "tq_msgpool_length q' \<le>
        max (tq_msgpool_length q) (int (length as) sdiv 8 + MSGPOOL_SIZE + 1)"
    by blast
  have rest: "rest = map (entry (h_cells h)) as" "(d, t) = entry (h_cells h) a"
    using assms(2) 2(3) by auto
  have "msg = \<lparr>tm_data = d, tm_msgtype = t, tm_qlength = int (length rest)\<rparr>"
    using t(2,3) rest(1) by (cases msg) (simp add: rest(2) [symmetric])
  moreover have "tq_inv (h', q')" "tq_contents (h', q') = rest"
    using t(4,5) rest tq_contents_rep [OF t(4)] by (auto simp: tq_inv_def)
  moreover have "length rest = length as" using rest by simp
  ultimately show ?thesis
    using t(1,6) get_nonempty [OF 2(2), of h timed wakes] by metis
qed

section \<open>The memory that is left\<close>

lemma store_left: "store h p n = Inr h' \<Longrightarrow> h_left h' = h_left h"
  by (auto simp: store_def elim!: and_then_InrE)

lemma free_left: "free h p = Inr h' \<Longrightarrow> h_left h \<le> h_left h'"
  by (auto simp: free_def split: option.splits)

lemma get_msglist_left: "get_msglist h q = Inr (p, h', q') \<Longrightarrow> h_left h \<le> h_left h' + 1"
  by (auto simp: get_msglist_def malloc_def elim!: and_then_InrE split: if_splits)

lemma release_msglist_left: "release_msglist h q p = Inr (h', q') \<Longrightarrow> h_left h \<le> h_left h'"
  by (auto simp: release_msglist_def elim!: and_then_InrE split: if_splits
      dest!: store_left free_left)

text \<open>Adding takes at most one node from the allocator, and taking gives it back or keeps it in the pool.\<close>

lemma thread_queue_add_left:
  "thread_queue_add h (Some q) d t = Inr (rc, b, h', q') \<Longrightarrow> h_left h \<le> h_left h' + 1"
  by (auto simp: thread_queue_add_def elim!: and_then_InrE split: if_splits
      dest!: store_left get_msglist_left)

lemma thread_queue_get_left:
  "thread_queue_get h (Some q) timed True [] = Inr (Returned rc msg h' q') \<Longrightarrow> h_left h \<le> h_left h'"
  by (auto simp: thread_queue_get_def wait_loop.simps take_first_def Let_def elim!: and_then_InrE
      split: if_splits dest!: release_msglist_left)

section \<open>Properties\<close>

text \<open>On a well-formed queue \<open>thread_queue_add\<close> never touches memory it should not; it either
  reports \<open>ENOMEM\<close>, when no node can be had, and changes nothing, or appends the message to the
  pending ones, and it broadcasts exactly when the queue was empty.\<close>

lemma thread_queue_add_appends:
  assumes "tq_inv (h, q)"
  shows "thread_queue_add h (Some q) d t = Inr (ENOMEM, False, h, q) \<and> h_left h = 0 \<or>
    (\<exists>h' q'. thread_queue_add h (Some q) d t = Inr (0, tq_contents (h, q) = [], h', q') \<and>
      tq_inv (h', q') \<and> tq_contents (h', q') = tq_contents (h, q) @ [(d, t)])"
  by (rule add_appends_contents [OF assms])

lemma thread_queue_add_appends_witness:
  "thread_queue_add (empty_heap 4) (Some zero_queue) (Some True) 3 =
      Inr (ENOMEM, False, empty_heap 4, zero_queue) \<and> h_left (empty_heap 4 :: bool heap) = 0 \<or>
    (\<exists>h' q'. thread_queue_add (empty_heap 4) (Some zero_queue) (Some True) 3 =
        Inr (0, tq_contents (empty_heap 4 :: bool heap, zero_queue) = [], h', q') \<and>
      tq_inv (h', q') \<and>
      tq_contents (h', q') = tq_contents (empty_heap 4, zero_queue) @ [(Some True, 3)])"
  by (rule thread_queue_add_appends [OF tq_inv_init])

text \<open>A reader of a queue with a pending message gets the oldest one at once, whatever timeout it
  gave, with the number of messages still pending; the node goes back to a pool that stays within
  an eighth of the queue's length plus \<open>MSGPOOL_SIZE + 1\<close>.\<close>

lemma thread_queue_get_oldest:
  assumes "tq_inv (h, q)" and "tq_contents (h, q) = (d, t) # rest"
  shows "\<exists>h' q'. thread_queue_get h (Some q) timed True wakes =
      Inr (Returned 0 (Some \<lparr>tm_data = d, tm_msgtype = t, tm_qlength = int (length rest)\<rparr>)
        h' (Some q')) \<and>
    tq_inv (h', q') \<and> tq_contents (h', q') = rest \<and>
    tq_msgpool_length q' \<le>
      max (tq_msgpool_length q) (int (length rest) sdiv 8 + MSGPOOL_SIZE + 1)"
  by (rule get_takes_first [OF assms])

lemma thread_queue_get_oldest_witness:
  "\<exists>h' q'. thread_queue_get one_heap (Some one_queue) False True [] =
      Inr (Returned 0 (Some \<lparr>tm_data = Some True, tm_msgtype = 3,
          tm_qlength = int (length ([] :: (bool option \<times> int) list))\<rparr>) h' (Some q')) \<and>
    tq_inv (h', q') \<and> tq_contents (h', q') = [] \<and>
    tq_msgpool_length q' \<le>
      max (tq_msgpool_length one_queue)
        (int (length ([] :: (bool option \<times> int) list)) sdiv 8 + MSGPOOL_SIZE + 1)"
proof (rule thread_queue_get_oldest)
  have "tq_rep one_heap one_queue [1] []"
    by (simp add: tq_rep_def one_heap_def one_queue_def zero_queue_def empty_heap_def)
  then show "tq_inv (one_heap, one_queue)" by (auto simp: tq_inv_def)
  show "tq_contents (one_heap, one_queue) = [(Some True, 3)]"
    by (simp add: tq_contents_def one_heap_def one_queue_def zero_queue_def entry_def)
qed

text \<open>C16: first in, first out. Over any run of \<open>thread_queue_add\<close> and \<open>thread_queue_get\<close> calls from a
  new queue, no call faults, and the messages delivered, followed by those still pending, are the
  messages accepted, in their order: none is lost, duplicated or reordered.\<close>

theorem thread_queue_fifo:
  "\<exists>ins outs t. fifo_run tq_enq tq_deq ops (empty_heap n, zero_queue) = Inr (ins, outs, t) \<and>
    outs @ tq_contents t = ins"
  using tq.run_fifo [OF tq_inv_init, of ops n] by force

text \<open>C37: a wait that meets only spurious wake-ups goes on; when the deadline passes,
  \<open>thread_queue_get\<close> returns \<open>ETIMEDOUT\<close> and takes nothing, even where a message arrived in the
  meantime.\<close>

theorem thread_queue_get_waits:
  assumes "tq_first q = None"
    and "\<forall>w \<in> set ws. fst w \<noteq> ETIMEDOUT \<and> tq_first (snd (snd w)) = None"
  shows "thread_queue_get h (Some q) timed True ws = Inr Blocked \<and>
    thread_queue_get h (Some q) True True (ws @ [(ETIMEDOUT, h', q')]) =
      Inr (Returned ETIMEDOUT None h' (Some q'))"
proof -
  have "wait_loop timed ret h q ws = None \<and>
      wait_loop True ret h q (ws @ [(ETIMEDOUT, h', q')]) = Some (ETIMEDOUT, h', q')"
    if "ret \<noteq> ETIMEDOUT" for ret
    using assms that
  proof (induction ws arbitrary: ret h q)
    case Nil
    then show ?case by (simp add: wait_loop.simps)
  next
    case (Cons w ws)
    obtain rc h1 q1 where w: "w = (rc, h1, q1)" by (cases w)
    then show ?case
      using Cons.prems Cons.IH [of q1 rc h1] Cons.IH [of q1 ret h1]
      by (cases timed) (simp_all add: wait_loop.simps [of _ _ _ q])
  qed
  then show ?thesis by (simp add: thread_queue_get_def)
qed

theorem thread_queue_get_waits_witness:
  "thread_queue_get (empty_heap 1 :: bool heap) (Some zero_queue) False True
      [(0, empty_heap 1, zero_queue)] = Inr Blocked \<and>
    thread_queue_get (empty_heap 1 :: bool heap) (Some zero_queue) True True
      ([(0, empty_heap 1, zero_queue)] @ [(ETIMEDOUT, empty_heap 1, zero_queue)]) =
      Inr (Returned ETIMEDOUT None (empty_heap 1) (Some zero_queue))"
  by (rule thread_queue_get_waits) (simp_all add: zero_queue_def)

text \<open>\<open>thread_queue_cleanup\<close> frees every node of the queue once, pending or pooled, and no other
  cell, without a double free; with \<open>freedata\<close> it frees the pending data pointers, in order, once
  each.\<close>

lemma thread_queue_cleanup_frees:
  assumes "tq_inv (h, q)"
  shows "\<exists>h' as ps. tq_rep h q as ps \<and>
    thread_queue_cleanup h (Some q) freedata rc =
      Inr (rc, h', if freedata then List.map_filter fst (tq_contents (h, q)) else []) \<and>
    h_cells h' = h_cells h |` (- (set as \<union> set ps)) \<and>
    h_left h' = h_left h + length as + length ps"
proof -
  obtain as ps where rep: "tq_rep h q as ps" using assms by (auto simp: tq_inv_def)
  then have P: "lpath (h_cells h) (tq_first q) as None"
      "lpath (h_cells h) (tq_msgpool q) ps None" "distinct as" "distinct ps"
      "set as \<inter> set ps = {}"
    by (auto simp: tq_rep_def)
  have len: "length as \<le> h_brk h" "length ps \<le> h_brk h"
    using P(3,4) tq_rep_below [OF rep] distinct_card [of as] distinct_card [of ps]
      card_mono [of "{..<h_brk h}" "set as"] card_mono [of "{..<h_brk h}" "set ps"]
    by auto
  from free_nodes_lpath [OF P(1,3) len(1), of freedata "[]"] obtain h1 where
    f1: "free_nodes (h_brk h) h (tq_first q) freedata [] = Inr (h1, if freedata
          then List.map_filter (\<lambda>a. fst (entry (h_cells h) a)) as else [])"
      "h_cells h1 = h_cells h |` (- set as)" "h_left h1 = h_left h + length as"
    by auto
  have same: "h_cells h1 a = h_cells h a" if "a \<in> set ps" for a
    using that f1(2) P(5) by (auto simp: restrict_map_def)
  have P2: "lpath (h_cells h1) (tq_msgpool q) ps None"
    using P(2) lpath_cong [of ps "h_cells h1" "h_cells h"] same by blast
  have pool: "List.map_filter (\<lambda>a. fst (entry (h_cells h1) a)) ps = []"
    using rep same by (auto simp: List.map_filter_def tq_rep_def entry_def filter_empty_conv)
  from free_nodes_lpath [OF P2 P(4) len(2), of freedata
      "if freedata then List.map_filter (\<lambda>a. fst (entry (h_cells h) a)) as else []"]
  obtain h2 where f2: "free_nodes (h_brk h) h1 (tq_msgpool q) freedata
        (if freedata then List.map_filter (\<lambda>a. fst (entry (h_cells h) a)) as else []) =
        Inr (h2, if freedata
          then List.map_filter (\<lambda>a. fst (entry (h_cells h) a)) as else [])"
      "h_cells h2 = h_cells h1 |` (- set ps)" "h_left h2 = h_left h1 + length ps"
    using pool by auto
  have "List.map_filter fst (tq_contents (h, q)) =
      List.map_filter (\<lambda>a. fst (entry (h_cells h) a)) as"
    by (simp add: tq_contents_rep [OF rep] List.map_filter_def filter_map comp_def)
  moreover have "h_cells h2 = h_cells h |` (- (set as \<union> set ps))"
    using f1(2) f2(2) by (auto simp: restrict_map_def)
  ultimately show ?thesis
    using rep f1 f2 by (auto simp: thread_queue_cleanup_def)
qed

lemma thread_queue_cleanup_frees_witness:
  "\<exists>h' as ps. tq_rep (empty_heap 4 :: bool heap) zero_queue as ps \<and>
    thread_queue_cleanup (empty_heap 4 :: bool heap) (Some zero_queue) True 0 =
      Inr (0, h', if True
        then List.map_filter fst (tq_contents (empty_heap 4 :: bool heap, zero_queue)) else []) \<and>
    h_cells h' = h_cells (empty_heap 4) |` (- (set as \<union> set ps)) \<and>
    h_left h' = h_left (empty_heap 4 :: bool heap) + length as + length ps"
  by (rule thread_queue_cleanup_frees [OF tq_inv_init])

end
