(* ===== verification/Queue_Family.thy ===== *)
theory Queue_Family
  imports Thread_Queue
begin

text \<open>
  Several queues of \<open>src/queue.c\<close> on one heap, as the client has them: well-formed, with disjoint
  nodes. An operation on one of them leaves the others as they are.
\<close>

section \<open>Channels as an interface\<close>

text \<open>
  What the threads of the client rely on: \<open>contents s k\<close> is what is pending in the channel \<open>k\<close>,
  \<open>None\<close> where there is no such channel. \<open>post\<close> may refuse for lack of memory.
\<close>

locale channels =
  fixes inv :: "'s \<Rightarrow> bool"
    and contents :: "'s \<Rightarrow> 'k \<Rightarrow> 'b list option"
    and post :: "'k \<Rightarrow> 'b \<Rightarrow> 's \<Rightarrow> 's option outcome"
    and fetch :: "'k \<Rightarrow> 's \<Rightarrow> ('b \<times> 's) option outcome"
  assumes post_law: "inv s \<Longrightarrow> contents s k = Some xs \<Longrightarrow> post k x s = Inr None \<or>
      (\<exists>s'. post k x s = Inr (Some s') \<and> inv s' \<and> contents s' = (contents s)(k \<mapsto> xs @ [x]))"
    and fetch_empty: "inv s \<Longrightarrow> contents s k = Some [] \<Longrightarrow> fetch k s = Inr None"
    and fetch_law: "inv s \<Longrightarrow> contents s k = Some (x # xs) \<Longrightarrow>
      \<exists>s'. fetch k s = Inr (Some (x, s')) \<and> inv s' \<and> contents s' = (contents s)(k \<mapsto> xs)"
begin

text \<open>A property of all pending messages is kept when the posted ones have it.\<close>

definition all_pending :: "('k \<Rightarrow> 'b \<Rightarrow> bool) \<Rightarrow> 's \<Rightarrow> bool" where
  "all_pending P s \<longleftrightarrow> inv s \<and> (\<forall>k xs. contents s k = Some xs \<longrightarrow> (\<forall>x \<in> set xs. P k x))"

lemma post_all_pending:
  assumes "all_pending P s" and "contents s k = Some xs" and "P k x"
  shows "post k x s = Inr None \<or>
    (\<exists>s'. post k x s = Inr (Some s') \<and> all_pending P s' \<and> contents s' = (contents s)(k \<mapsto> xs @ [x]))"
proof -
  have "inv s" using assms(1) by (simp add: all_pending_def)
  from post_law [OF this assms(2), of x] show ?thesis
  proof
    assume "\<exists>s'. post k x s = Inr (Some s') \<and> inv s' \<and> contents s' = (contents s)(k \<mapsto> xs @ [x])"
    then obtain s' where s': "post k x s = Inr (Some s')" "inv s'"
        "contents s' = (contents s)(k \<mapsto> xs @ [x])" by blast
    have "all_pending P s'"
      using assms s'(2) by (auto simp: all_pending_def s'(3) split: if_splits)
    with s' show ?thesis by blast
  qed simp
qed

lemma fetch_all_pending:
  assumes "all_pending P s" and "contents s k = Some xs"
  shows "fetch k s = Inr None \<and> xs = [] \<or>
    (\<exists>x ys s'. xs = x # ys \<and> fetch k s = Inr (Some (x, s')) \<and> P k x \<and> all_pending P s' \<and>
      contents s' = (contents s)(k \<mapsto> ys))"
proof (cases xs)
  case Nil
  then show ?thesis using assms fetch_empty [of s k] by (simp add: all_pending_def)
next
  case (Cons x ys)
  have "inv s" using assms(1) by (simp add: all_pending_def)
  from fetch_law [OF this, of k x ys] assms(2) Cons obtain s' where
    s': "fetch k s = Inr (Some (x, s'))" "inv s'" "contents s' = (contents s)(k \<mapsto> ys)" by auto
  have "P k x" using assms Cons by (auto simp: all_pending_def)
  moreover have "all_pending P s'"
    using assms s'(2) Cons by (auto simp: all_pending_def s'(3) split: if_splits)
  ultimately show ?thesis using s' Cons by blast
qed

text \<open>Any one of the channels is a queue, whatever the others hold.\<close>

sublocale one: fifo_queue "\<lambda>s. inv s \<and> contents s k \<noteq> None" "\<lambda>s. the (contents s k)" "post k" "fetch k"
  for k
  using post_law fetch_empty fetch_law by unfold_locales force+

end

section \<open>Queues with disjoint nodes\<close>

definition nodes :: "nat list \<times> nat list \<Rightarrow> nat set" where
  "nodes f = set (fst f) \<union> set (snd f)"

definition family_rep :: "'a heap \<Rightarrow> ('k \<rightharpoonup> threadqueue) \<Rightarrow> ('k \<Rightarrow> nat list \<times> nat list) \<Rightarrow> bool" where
  "family_rep h Q f \<longleftrightarrow> (\<forall>a \<ge> h_brk h. h_cells h a = None) \<and>
     (\<forall>k q. Q k = Some q \<longrightarrow> tq_rep h q (fst (f k)) (snd (f k))) \<and>
     (\<forall>k l. k \<noteq> l \<longrightarrow> Q k \<noteq> None \<longrightarrow> Q l \<noteq> None \<longrightarrow> nodes (f k) \<inter> nodes (f l) = {})"

definition family_inv :: "'a heap \<times> ('k \<rightharpoonup> threadqueue) \<Rightarrow> bool" where
  "family_inv s \<longleftrightarrow> (\<exists>f. family_rep (fst s) (snd s) f)"

definition family_contents :: "'a heap \<times> ('k \<rightharpoonup> threadqueue) \<Rightarrow> 'k \<Rightarrow> ('a option \<times> int) list option" where
  "family_contents s k = map_option (\<lambda>q. tq_contents (fst s, q)) (snd s k)"

lemma family_inv_tq: "family_inv (h, Q) \<Longrightarrow> Q k = Some q \<Longrightarrow> tq_inv (h, q)"
  unfolding family_inv_def family_rep_def tq_inv_def fst_conv snd_conv by blast

text \<open>
  An operation on the queue \<open>k\<close> that stays within its nodes and fresh memory keeps the family.
\<close>

lemma family_step:
  assumes fam: "family_rep h Q f" and k: "Q k = Some q" and rep: "tq_rep h' q' as ps"
    and new: "set as \<union> set ps \<subseteq> insert (h_brk h) (nodes (f k))"
    and fr: "frame (insert (h_brk h) (nodes (f k))) h h'"
  shows "family_inv (h', Q(k \<mapsto> q'))"
    "family_contents (h', Q(k \<mapsto> q')) = (family_contents (h, Q))(k \<mapsto> tq_contents (h', q'))"
proof -
  have brk: "\<forall>a \<ge> h_brk h'. h_cells h' a = None" using rep by (simp add: tq_rep_def)
  have below: "x < h_brk h" if "Q l \<noteq> None" "x \<in> nodes (f l)" for l x
    using that fam by (auto simp: family_rep_def nodes_def dest: tq_rep_below)
  have other: "tq_rep h' r (fst (f l)) (snd (f l)) \<and> tq_contents (h', r) = tq_contents (h, r)"
    if l: "Q l = Some r" "l \<noteq> k" for l r
  proof -
    have r: "tq_rep h r (fst (f l)) (snd (f l))" using fam l by (simp add: family_rep_def)
    have "nodes (f k) \<inter> nodes (f l) = {}" using fam l k unfolding family_rep_def by blast
    then have "insert (h_brk h) (nodes (f k)) \<inter> (set (fst (f l)) \<union> set (snd (f l))) = {}"
      using below [of l] l(1) by (fastforce simp: nodes_def)
    from tq_rep_frame [OF r fr this brk] show ?thesis
      using tq_contents_rep [OF r] tq_contents_rep by fastforce
  qed
  have disjoint: "(set as \<union> set ps) \<inter> nodes (f l) = {}" if l: "Q l \<noteq> None" "l \<noteq> k" for l
  proof -
    have "nodes (f k) \<inter> nodes (f l) = {}" using fam l k unfolding family_rep_def by blast
    then show ?thesis using new below [of l] l(1) by fastforce
  qed
  have "family_rep h' (Q(k \<mapsto> q')) (f(k := (as, ps)))"
    unfolding family_rep_def
  proof (intro conjI allI impI)
    show "h_cells h' a = None" if "h_brk h' \<le> a" for a using brk that by simp
    show "tq_rep h' r (fst ((f(k := (as, ps))) l)) (snd ((f(k := (as, ps))) l))"
      if "(Q(k \<mapsto> q')) l = Some r" for l r
      using that rep other by (auto split: if_splits)
    show "nodes ((f(k := (as, ps))) i) \<inter> nodes ((f(k := (as, ps))) j) = {}"
      if "i \<noteq> j" "(Q(k \<mapsto> q')) i \<noteq> None" "(Q(k \<mapsto> q')) j \<noteq> None" for i j
    proof -
      have kk: "nodes (as, ps) = set as \<union> set ps" by (simp add: nodes_def)
      consider "i = k" "j \<noteq> k" | "j = k" "i \<noteq> k" | "i \<noteq> k" "j \<noteq> k"
        using \<open>i \<noteq> j\<close> by blast
      then show ?thesis
      proof cases
        case 1
        then show ?thesis using disjoint [of j] that kk by simp
      next
        case 2
        then show ?thesis using disjoint [of i] that kk by (simp add: Int_commute)
      next
        case 3
        then show ?thesis using fam that unfolding family_rep_def by auto
      qed
    qed
  qed
  then show "family_inv (h', Q(k \<mapsto> q'))" by (auto simp: family_inv_def)
  show "family_contents (h', Q(k \<mapsto> q')) = (family_contents (h, Q))(k \<mapsto> tq_contents (h', q'))"
  proof
    show "family_contents (h', Q(k \<mapsto> q')) l = ((family_contents (h, Q))(k \<mapsto> tq_contents (h', q'))) l" for l
      using other [of l] by (cases "l = k"; cases "Q l") (simp_all add: family_contents_def)
  qed
qed

lemma family_add:
  assumes "family_inv (h, Q)" and "Q k = Some q"
  shows "thread_queue_add h (Some q) d t = Inr (ENOMEM, False, h, q) \<and> h_left h = 0 \<or>
    (\<exists>h' q'. thread_queue_add h (Some q) d t = Inr (0, tq_contents (h, q) = [], h', q') \<and>
      family_inv (h', Q(k \<mapsto> q')) \<and>
      family_contents (h', Q(k \<mapsto> q')) =
        (family_contents (h, Q))(k \<mapsto> tq_contents (h, q) @ [(d, t)]))"
proof -
  obtain f where f: "family_rep h Q f" using assms(1) by (auto simp: family_inv_def)
  let ?as = "fst (f k)" and ?ps = "snd (f k)"
  have rep: "tq_rep h q ?as ?ps" using f assms(2) by (simp add: family_rep_def)
  have added: ?thesis if "thread_queue_add h (Some q) d t = Inr (0, ?as = [], h', q')"
      "tq_rep h' q' (?as @ [a]) ps'"
      "map (entry (h_cells h')) (?as @ [a]) = map (entry (h_cells h)) ?as @ [(d, t)]"
      "set (?as @ [a]) \<union> set ps' \<subseteq> insert (h_brk h) (set ?as \<union> set ?ps)"
      "frame (insert (h_brk h) (set ?as \<union> set ?ps)) h h'" for h' q' a ps'
    using family_step [OF f assms(2) that(2)] that(1,3-5) tq_contents_rep [OF rep]
      tq_contents_rep [OF that(2)] by (auto simp: nodes_def)
  show ?thesis
    using thread_queue_add_correct [OF rep, of d t] added by blast
qed

lemma family_get:
  assumes "family_inv (h, Q)" and "Q k = Some q" and "tq_contents (h, q) = (d, t) # rest"
  shows "\<exists>h' q'. thread_queue_get h (Some q) timed True wakes =
      Inr (Returned 0 (Some \<lparr>tm_data = d, tm_msgtype = t, tm_qlength = int (length rest)\<rparr>)
        h' (Some q')) \<and>
    family_inv (h', Q(k \<mapsto> q')) \<and>
    family_contents (h', Q(k \<mapsto> q')) = (family_contents (h, Q))(k \<mapsto> rest)"
proof -
  obtain f where f: "family_rep h Q f" using assms(1) by (auto simp: family_inv_def)
  have rep: "tq_rep h q (fst (f k)) (snd (f k))" using f assms(2) by (simp add: family_rep_def)
  obtain a as where as: "fst (f k) = a # as" "entry (h_cells h) a = (d, t)"
      "map (entry (h_cells h)) as = rest"
    using tq_contents_rep [OF rep] assms(3) by (auto simp: map_eq_Cons_conv)
  obtain ps where ps: "snd (f k) = ps" by simp
  have rep': "tq_rep h q (a # as) ps" using rep as(1) ps by simp
  from take_first_correct [OF this] obtain msg h' q' ps' where t:
      "take_first h q = Inr (Returned 0 (Some msg) h' (Some q'))"
      "(tm_data msg, tm_msgtype msg) = entry (h_cells h) a" "tm_qlength msg = int (length as)"
      "tq_rep h' q' as ps'" "map (entry (h_cells h')) as = map (entry (h_cells h)) as"
      "set ps' \<subseteq> insert a (set ps)" "frame (insert a (set ps)) h h'"
    by blast
  have msg: "msg = \<lparr>tm_data = d, tm_msgtype = t, tm_qlength = int (length rest)\<rparr>"
    using t(2,3) as(2,3) by (cases msg) auto
  have first: "tq_first q = Some a" using rep' by (simp add: tq_rep_def)
  have n: "nodes (f k) = insert a (set as \<union> set ps)" by (auto simp: nodes_def as(1) ps)
  have "frame (insert (h_brk h) (nodes (f k))) h h'"
    using t(7) by (rule frame_mono) (auto simp: n)
  moreover have "set as \<union> set ps' \<subseteq> insert (h_brk h) (nodes (f k))" using t(6) n by auto
  ultimately have "family_inv (h', Q(k \<mapsto> q'))"
    "family_contents (h', Q(k \<mapsto> q')) = (family_contents (h, Q))(k \<mapsto> tq_contents (h', q'))"
    using family_step [OF f assms(2) t(4)] by blast+
  then show ?thesis
    using get_nonempty [OF first, of h timed wakes] t(1,5) msg as(3) tq_contents_rep [OF t(4)] by simp
qed

text \<open>A new queue, with no nodes.\<close>

lemma family_new:
  assumes "family_inv (h, Q)" and "Q k = None"
  shows "family_inv (h, Q(k \<mapsto> zero_queue))"
    "family_contents (h, Q(k \<mapsto> zero_queue)) = (family_contents (h, Q))(k \<mapsto> [])"
proof -
  obtain f where f: "family_rep h Q f" using assms(1) by (auto simp: family_inv_def)
  then have "tq_rep h zero_queue [] []" by (simp add: family_rep_def tq_rep_def zero_queue_def)
  with f assms(2) have "family_rep h (Q(k \<mapsto> zero_queue)) (f(k := ([], [])))"
    by (auto simp: family_rep_def nodes_def)
  then show "family_inv (h, Q(k \<mapsto> zero_queue))" by (auto simp: family_inv_def)
qed (auto simp: family_contents_def fun_eq_iff)

section \<open>The interface on the code's model\<close>

definition family_post ::
    "'k \<Rightarrow> 'a option \<times> int \<Rightarrow> 'a heap \<times> ('k \<rightharpoonup> threadqueue)
      \<Rightarrow> ('a heap \<times> ('k \<rightharpoonup> threadqueue)) option outcome" where
  "family_post k x s =
     and_then (deref (snd s k)) (\<lambda>q.
     and_then (thread_queue_add (fst s) (Some q) (fst x) (snd x)) (\<lambda>(rc, _, h, q).
       Inr (if rc = 0 then Some (h, (snd s)(k \<mapsto> q)) else None)))"

definition family_fetch ::
    "'k \<Rightarrow> 'a heap \<times> ('k \<rightharpoonup> threadqueue)
      \<Rightarrow> (('a option \<times> int) \<times> 'a heap \<times> ('k \<rightharpoonup> threadqueue)) option outcome" where
  "family_fetch k s =
     and_then (deref (snd s k)) (\<lambda>q.
     and_then (thread_queue_get (fst s) (Some q) False True []) (\<lambda>r. case r of
        Returned rc (Some msg) h (Some q) \<Rightarrow>
          Inr (Some ((tm_data msg, tm_msgtype msg), h, (snd s)(k \<mapsto> q)))
      | _ \<Rightarrow> Inr None))"

interpretation family: channels family_inv family_contents family_post family_fetch
proof unfold_locales
  fix s :: "'a heap \<times> ('k \<rightharpoonup> threadqueue)" and k xs and x :: "'a option \<times> int"
  assume inv: "family_inv s" and c: "family_contents s k = Some xs"
  obtain h Q d t where s: "s = (h, Q)" "x = (d, t)" by (cases s, cases x)
  obtain q where q: "Q k = Some q" "tq_contents (h, q) = xs" using c by (auto simp: family_contents_def s)
  have "family_inv (h, Q)" using inv s by simp
  from family_add [OF this q(1), of d t] show "family_post k x s = Inr None \<or>
    (\<exists>s'. family_post k x s = Inr (Some s') \<and> family_inv s' \<and>
      family_contents s' = (family_contents s)(k \<mapsto> xs @ [x]))"
  proof
    assume "thread_queue_add h (Some q) d t = Inr (ENOMEM, False, h, q) \<and> h_left h = 0"
    then show ?thesis using q(1) by (simp add: family_post_def s)
  next
    assume "\<exists>h' q'. thread_queue_add h (Some q) d t = Inr (0, tq_contents (h, q) = [], h', q') \<and>
      family_inv (h', Q(k \<mapsto> q')) \<and>
      family_contents (h', Q(k \<mapsto> q')) =
        (family_contents (h, Q))(k \<mapsto> tq_contents (h, q) @ [(d, t)])"
    then obtain h' q' where "thread_queue_add h (Some q) d t = Inr (0, tq_contents (h, q) = [], h', q')"
        "family_inv (h', Q(k \<mapsto> q'))" "family_contents (h', Q(k \<mapsto> q')) =
          (family_contents (h, Q))(k \<mapsto> tq_contents (h, q) @ [(d, t)])" by blast
    then show ?thesis using q by (intro disjI2 exI [of _ "(h', Q(k \<mapsto> q'))"]) (simp add: family_post_def s)
  qed
next
  fix s :: "'a heap \<times> ('k \<rightharpoonup> threadqueue)" and k
  assume inv: "family_inv s" and c: "family_contents s k = Some []"
  obtain h Q where s: "s = (h, Q)" by (cases s)
  obtain q where q: "Q k = Some q" "tq_contents (h, q) = []" using c by (auto simp: family_contents_def s)
  have "family_inv (h, Q)" using inv s by simp
  from family_inv_tq [OF this q(1)] have "tq_inv (h, q)" .
  then have "tq_first q = None" using q(2) by (cases rule: tq_contents_cases) simp_all
  then show "family_fetch k s = Inr None"
    using q(1) by (simp add: family_fetch_def s thread_queue_get_def wait_loop.simps)
next
  fix s :: "'a heap \<times> ('k \<rightharpoonup> threadqueue)" and k and x :: "'a option \<times> int" and xs
  assume inv: "family_inv s" and c: "family_contents s k = Some (x # xs)"
  obtain h Q d t where s: "s = (h, Q)" "x = (d, t)" by (cases s, cases x)
  obtain q where q: "Q k = Some q" "tq_contents (h, q) = (d, t) # xs"
    using c by (auto simp: family_contents_def s)
  have "family_inv (h, Q)" using inv s by simp
  from family_get [OF this q, of False "[]"] inv q show "\<exists>s'. family_fetch k s = Inr (Some (x, s')) \<and>
    family_inv s' \<and> family_contents s' = (family_contents s)(k \<mapsto> xs)"
    by (auto simp: family_fetch_def s)
qed

end
