(* ===== verification/C_Strings.thy ===== *)
theory C_Strings
  imports Prelude "HOL-Library.Sublist"
begin

text \<open>
  C strings as buffers of characters, the functions of the C library that the program uses on
  them, and the text helpers of \<open>src/util.c\<close> (\<open>split\<close>, \<open>parse_username_pw\<close>). Memory from
  \<open>malloc\<close> is not initialised: what it holds is the parameter \<open>junk\<close> of the definitions that
  allocate. Reading a buffer as a string past its end is the fault \<open>Unterminated_String\<close>, and
  writing past its end is \<open>Out_Of_Bounds\<close>.
\<close>

section \<open>Strings in buffers\<close>

definition nul :: char where "nul = CHR 0x00"
definition newline :: char where "newline = CHR 0x0A"
abbreviation space :: char where "space \<equiv> CHR '' ''"

definition c_str :: "char list \<Rightarrow> string outcome" where
  "c_str buf = (if nul \<in> set buf then Inr (takeWhile (\<lambda>c. c \<noteq> nul) buf) else Inl Unterminated_String)"

definition uninit :: "(nat \<Rightarrow> char) \<Rightarrow> nat \<Rightarrow> char list" where
  "uninit junk n = map junk [0..<n]"

text \<open>
  \<open>strncpy\<close> into the buffer \<open>dst\<close>: at most \<open>n\<close> characters of \<open>src\<close> up to its terminator, padded
  with terminators to \<open>n\<close>; nothing else marks the end, so the copy of a longer string is not
  terminated.
\<close>

definition strncpy :: "char list \<Rightarrow> char list \<Rightarrow> nat \<Rightarrow> char list outcome" where
  "strncpy dst src n =
     (if nul \<notin> set src \<and> length src < n then Inl Unterminated_String
      else if length dst < n then Inl Out_Of_Bounds
      else (let s = takeWhile (\<lambda>c. c \<noteq> nul) (take n src)
            in Inr (s @ replicate (n - length s) nul @ drop n dst)))"

text \<open>A signed length converted to \<open>size_t\<close>.\<close>

definition size_t :: "int \<Rightarrow> nat" where
  "size_t n = nat (n mod 2 ^ 64)"

definition strchr :: "string \<Rightarrow> char \<Rightarrow> nat option" where
  "strchr s c = (if c \<in> set s then Some (length (takeWhile (\<lambda>x. x \<noteq> c) s)) else None)"

text \<open>
  \<open>0 == strncmp(a, b, n)\<close> on two buffers: equal up to their first \<open>n\<close> characters or up to the
  terminator. The comparison stops at the first difference, so it may end before it reaches the
  end of a buffer that is not terminated.
\<close>

fun strncmp_eq :: "char list \<Rightarrow> char list \<Rightarrow> nat \<Rightarrow> bool outcome" where
  "strncmp_eq a b 0 = Inr True"
| "strncmp_eq (x # a) (y # b) (Suc n) =
     (if x \<noteq> y then Inr False else if x = nul then Inr True else strncmp_eq a b n)"
| "strncmp_eq [] b (Suc n) = Inl Unterminated_String"
| "strncmp_eq a [] (Suc n) = Inl Unterminated_String"

text \<open>
  \<open>strtok\<close> with the delimiters \<open>" "\<close>: the next token and the rest of the line, or \<open>NULL\<close>.
\<close>

definition strtok :: "string \<Rightarrow> (string \<times> string) option" where
  "strtok s =
     (let s' = dropWhile (\<lambda>c. c = space) s
      in if s' = [] then None
         else Some (takeWhile (\<lambda>c. c \<noteq> space) s', drop 1 (dropWhile (\<lambda>c. c \<noteq> space) s')))"

section \<open>Decimal numbers\<close>

definition digit_char :: "nat \<Rightarrow> char" where
  "digit_char d = char_of (48 + d)"

definition is_digit :: "char \<Rightarrow> bool" where
  "is_digit c \<longleftrightarrow> 48 \<le> (of_char c :: nat) \<and> (of_char c :: nat) \<le> 57"

definition digit_val :: "char \<Rightarrow> nat" where
  "digit_val c = of_char c - 48"

text \<open>\<open>printf("%d")\<close> of a number that is not negative.\<close>

fun print_nat :: "nat \<Rightarrow> string" where
  "print_nat n = (if n < 10 then [digit_char n] else print_nat (n div 10) @ [digit_char (n mod 10)])"

declare print_nat.simps [simp del]

fun digits_val :: "nat \<Rightarrow> string \<Rightarrow> nat" where
  "digits_val acc [] = acc"
| "digits_val acc (c # cs) = digits_val (10 * acc + digit_val c) cs"

definition is_space :: "char \<Rightarrow> bool" where
  "is_space c \<longleftrightarrow> c \<in> {space, CHR 0x09, CHR 0x0A, CHR 0x0B, CHR 0x0C, CHR 0x0D}"

text \<open>
  \<open>sscanf("%d")\<close>: white space, an optional sign, at least one digit. \<open>None\<close>: no number, and the
  target variable keeps its value. Numbers beyond the range of \<open>int\<close> are not modelled.
\<close>

definition scan_int :: "string \<Rightarrow> int option" where
  "scan_int s =
     (let s = dropWhile is_space s;
          neg = (case s of c # _ \<Rightarrow> c = CHR ''-'' | [] \<Rightarrow> False);
          s = (case s of c # cs \<Rightarrow> if c = CHR ''-'' \<or> c = CHR ''+'' then cs else s | [] \<Rightarrow> s);
          ds = takeWhile is_digit s
      in if ds = [] then None
         else Some ((if neg then -1 else 1) * int (digits_val 0 ds)))"

definition atoi :: "string \<Rightarrow> int" where
  "atoi s = (case scan_int s of Some v \<Rightarrow> v | None \<Rightarrow> 0)"

section \<open>Splitting at a character\<close>

text \<open>
  The three loops of \<open>split\<close>: count the tokens, allocate a buffer for each, and copy. \<open>junk i\<close> is
  what the memory of token \<open>i\<close> holds before the copy.
\<close>

fun split_count :: "string \<Rightarrow> char \<Rightarrow> nat" where
  "split_count [] c = 1"
| "split_count (p # ps) c = (if p = c then 1 else 0) + split_count ps c"

fun split_alloc ::
    "(nat \<Rightarrow> nat \<Rightarrow> char) \<Rightarrow> char \<Rightarrow> string \<Rightarrow> nat \<Rightarrow> nat \<Rightarrow> char list list \<Rightarrow> char list list" where
  "split_alloc junk c [] i token_len arr = arr @ [uninit (junk i) token_len]"
| "split_alloc junk c (p # ps) i token_len arr =
     (if p = c then split_alloc junk c ps (i + 1) 1 (arr @ [uninit (junk i) token_len])
      else split_alloc junk c ps i (token_len + 1) arr)"

definition put_char :: "char list list \<Rightarrow> nat \<Rightarrow> nat \<Rightarrow> char \<Rightarrow> char list list outcome" where
  "put_char arr i t ch =
     (if i < length arr \<and> t < length (arr ! i) then Inr (arr[i := (arr ! i)[t := ch]])
      else Inl Out_Of_Bounds)"

fun split_copy ::
    "char \<Rightarrow> string \<Rightarrow> nat \<Rightarrow> nat \<Rightarrow> char list list \<Rightarrow> char list list outcome" where
  "split_copy c [] i t arr = Inr arr"
| "split_copy c (p # ps) i t arr =
     (if p \<noteq> c then and_then (put_char arr i t p) (split_copy c ps i (t + 1))
      else and_then (put_char arr i t nul) (split_copy c ps (i + 1) 0))"

definition split ::
    "(nat \<Rightarrow> nat \<Rightarrow> char) \<Rightarrow> char list \<Rightarrow> char \<Rightarrow> (nat \<times> char list list) outcome" where
  "split junk str c =
     and_then (c_str str) (\<lambda>s.
     and_then (split_copy c s 0 0 (split_alloc junk c s 0 1 [])) (\<lambda>arr.
     Inr (split_count s c, arr)))"

section \<open>Credentials in a payload\<close>

definition MAX_CHAR_USERID :: nat where "MAX_CHAR_USERID = 8"
definition MAX_CHAR_USERPASS :: nat where "MAX_CHAR_USERPASS = 128"

text \<open>
  \<open>parse_username_pw\<close> copies the text before the first colon and the \<open>len\<close>-bounded text after it.
  Without a colon, \<open>strchr\<close> returns \<open>NULL\<close> and the code computes with it.
\<close>

definition parse_username_pw ::
    "char list \<Rightarrow> char list \<Rightarrow> char list \<Rightarrow> int \<Rightarrow> (int \<times> char list \<times> char list) outcome" where
  "parse_username_pw dest_uname dest_pw payload len =
     and_then (c_str payload) (\<lambda>s.
     and_then (deref (strchr s (CHR '':''))) (\<lambda>delim.
     let uname_len = int delim;
         pw_len = len - uname_len - 1
     in if uname_len > int MAX_CHAR_USERID \<or> pw_len > int MAX_CHAR_USERPASS
        then Inr (-1, dest_uname, dest_pw)
        else
          and_then (strncpy dest_uname payload (size_t uname_len)) (\<lambda>dest_uname.
          and_then (strncpy dest_pw (drop (delim + 1) payload) (size_t pw_len)) (\<lambda>dest_pw.
          Inr (0, dest_uname, dest_pw)))))"

section \<open>Lemmas on the string functions\<close>

lemma takeWhile_neq_all [simp]: "c \<notin> set u \<Longrightarrow> takeWhile (\<lambda>x. x \<noteq> c) u = u"
  by (auto simp: takeWhile_eq_all_conv)

lemma takeWhile_neq_append [simp]: "c \<notin> set u \<Longrightarrow> takeWhile (\<lambda>x. x \<noteq> c) (u @ c # rest) = u"
  by (induction u) auto

lemma dropWhile_neq_append [simp]:
  "c \<notin> set u \<Longrightarrow> dropWhile (\<lambda>x. x \<noteq> c) (u @ c # rest) = c # rest"
  by (induction u) auto

lemma c_str_terminated [simp, buffer_simps]:
  "nul \<notin> set s \<Longrightarrow> c_str (s @ nul # rest) = Inr s"
  by (simp add: c_str_def)

lemma c_str_full [simp, buffer_simps]: "nul \<notin> set s \<Longrightarrow> c_str s = Inl Unterminated_String"
  by (simp add: c_str_def)

lemma c_str_replicate [buffer_simps]:
  "nul \<notin> set s \<Longrightarrow> c_str (s @ replicate n nul) = (if n = 0 then Inl Unterminated_String else Inr s)"
  by (cases n) simp_all

lemma c_strE:
  assumes "c_str buf = Inr s"
  obtains rest where "buf = s @ nul # rest" "nul \<notin> set s"
proof -
  have nul: "nul \<in> set buf" and s: "s = takeWhile (\<lambda>c. c \<noteq> nul) buf"
    using assms by (auto simp: c_str_def split: if_splits)
  have "dropWhile (\<lambda>c. c \<noteq> nul) buf \<noteq> []" using nul by (simp add: dropWhile_eq_Nil_conv)
  then obtain x rest where x: "dropWhile (\<lambda>c. c \<noteq> nul) buf = x # rest" by (cases "dropWhile (\<lambda>c. c \<noteq> nul) buf") auto
  then have "x = nul" using hd_dropWhile [of "\<lambda>c. c \<noteq> nul" buf] by simp
  with x s have "buf = s @ nul # rest" by (metis takeWhile_dropWhile_id)
  moreover have "nul \<notin> set s" using s by (auto dest: set_takeWhileD)
  ultimately show ?thesis by (rule that)
qed

text \<open>Copying exactly the first \<open>n\<close> characters of a longer source.\<close>

lemma strncpy_exact [buffer_simps]:
  assumes "nul \<notin> set s" and "length s \<le> length dst"
  shows "strncpy dst (s @ rest) (length s) = Inr (s @ drop (length s) dst)"
  using assms by (simp add: strncpy_def)

text \<open>
  Comparing up to a length no longer than the second string tests for a prefix. On a first buffer
  that is not terminated the result is the same unless the second string goes on past its end.
\<close>

lemma strncmp_eq_prefix [buffer_simps]:
  "nul \<notin> set a \<Longrightarrow> nul \<notin> set b \<Longrightarrow> n \<le> length b \<Longrightarrow>
    strncmp_eq (a @ nul # r) (b @ r') n = Inr (prefix (take n b) a)"
proof (induction a arbitrary: b n)
  case Nil
  then show ?case by (cases n; cases b) auto
next
  case (Cons x a)
  then show ?case by (cases n; cases b) auto
qed

lemma strncmp_eq_full:
  "nul \<notin> set a \<Longrightarrow> nul \<notin> set b \<Longrightarrow> n \<le> length b \<Longrightarrow>
    strncmp_eq a (b @ r') n =
      (if strict_prefix a (take n b) then Inl Unterminated_String else Inr (prefix (take n b) a))"
proof (induction a arbitrary: b n)
  case Nil
  then show ?case by (cases n; cases b) auto
next
  case (Cons x a)
  then show ?case by (cases n; cases b) (auto simp: strict_prefix_def)
qed

lemma strchr_append [buffer_simps]:
  "c \<notin> set u \<Longrightarrow> strchr (u @ c # rest) c = Some (length u)"
  by (simp add: strchr_def)

section \<open>Decimal numbers\<close>

lemma of_digit_char: "d < 10 \<Longrightarrow> (of_char (digit_char d) :: nat) = 48 + d"
  by (simp add: digit_char_def)

lemma is_digit_digit_char [simp]: "d < 10 \<Longrightarrow> is_digit (digit_char d)"
  by (simp add: is_digit_def of_digit_char)

lemma digit_val_digit_char [simp]: "d < 10 \<Longrightarrow> digit_val (digit_char d) = d"
  by (simp add: digit_val_def of_digit_char)

lemma digits_val_append: "digits_val acc (a @ b) = digits_val (digits_val acc a) b"
  by (induction acc a rule: digits_val.induct) auto

lemma print_nat_ne: "print_nat n \<noteq> []"
  by (subst print_nat.simps) simp

lemma print_nat_digits: "c \<in> set (print_nat n) \<Longrightarrow> is_digit c"
proof (induction n rule: print_nat.induct)
  case (1 n)
  show ?case
  proof (cases "n < 10")
    case True
    with "1.prems" show ?thesis by (subst (asm) print_nat.simps) simp
  next
    case False
    with "1.prems" have "c \<in> set (print_nat (n div 10)) \<or> c = digit_char (n mod 10)"
      by (subst (asm) print_nat.simps) auto
    with "1.IH" [OF False] show ?thesis by auto
  qed
qed

lemma digits_val_print_nat: "digits_val 0 (print_nat n) = n"
proof (induction n rule: print_nat.induct)
  case (1 n)
  show ?case
  proof (cases "n < 10")
    case True
    then show ?thesis by (subst print_nat.simps) simp
  next
    case False
    with "1.IH" show ?thesis by (subst print_nat.simps) (simp add: digits_val_append)
  qed
qed

lemma is_digit_plain:
  assumes "is_digit c"
  shows "\<not> is_space c" "c \<noteq> CHR ''-''" "c \<noteq> CHR ''+''" "c \<noteq> space" "c \<noteq> nul" "c \<noteq> newline"
    "c \<noteq> CHR '':''" "c \<noteq> CHR ''_''" "c \<noteq> CHR ''.''"
  using assms by (auto simp: is_digit_def is_space_def nul_def newline_def)

lemma scan_int_print_nat:
  assumes "rest = [] \<or> \<not> is_digit (hd rest)"
  shows "scan_int (print_nat n @ rest) = Some (int n)"
proof -
  obtain c cs where c: "print_nat n = c # cs" using print_nat_ne [of n] by (cases "print_nat n") auto
  have digits: "\<forall>x \<in> set (print_nat n). is_digit x" using print_nat_digits by blast
  have "takeWhile is_digit (print_nat n @ rest) = print_nat n"
    using digits assms by (cases rest) (auto simp: takeWhile_append takeWhile_eq_all_conv)
  moreover have "dropWhile is_space (print_nat n @ rest) = print_nat n @ rest"
    using digits c is_digit_plain(1) by simp
  moreover have "c \<noteq> CHR ''-''" "c \<noteq> CHR ''+''" using digits c is_digit_plain by auto
  ultimately show ?thesis
    using c digits_val_print_nat [of n] print_nat_ne [of n] by (simp add: scan_int_def)
qed

section \<open>What split computes\<close>

fun fields :: "char \<Rightarrow> string \<Rightarrow> string list" where
  "fields c [] = [[]]"
| "fields c (p # ps) = (if p = c then [] # fields c ps
     else (case fields c ps of [] \<Rightarrow> [[p]] | t # ts \<Rightarrow> (p # t) # ts))"

fun join :: "char \<Rightarrow> string list \<Rightarrow> string" where
  "join c [] = []"
| "join c [t] = t"
| "join c (t # u # ts) = t @ c # join c (u # ts)"

text \<open>Every token but the last is terminated; \<open>j\<close> is what follows the last one.\<close>

fun seal :: "char \<Rightarrow> string list \<Rightarrow> char list list" where
  "seal j [] = []"
| "seal j [g] = [g @ [j]]"
| "seal j (g # h # gs) = (g @ [nul]) # seal j (h # gs)"

lemma fields_ne [simp]: "fields c s \<noteq> []"
  by (induction s) (auto split: list.splits)

lemma join_fields: "join c (fields c s) = s"
proof (induction s)
  case Nil
  then show ?case by simp
next
  case (Cons p ps)
  obtain t ts where t: "fields c ps = t # ts" using fields_ne by (cases "fields c ps") auto
  with Cons show ?case by (cases ts) auto
qed

lemma fields_no_sep: "t \<in> set (fields c s) \<Longrightarrow> c \<notin> set t"
  by (induction s arbitrary: t) (fastforce split: list.splits if_splits)+

lemma split_count_fields: "split_count s c = length (fields c s)"
  by (induction s) (auto split: list.splits)

lemma length_uninit [simp]: "length (uninit junk n) = n"
  by (simp add: uninit_def)

lemma split_alloc_fields:
  "fields c s = f # fs \<Longrightarrow> split_alloc junk c s i n arr =
     arr @ uninit (junk i) (n + length f) #
       map (\<lambda>(k, g). uninit (junk k) (length g + 1)) (enumerate (i + 1) fs)"
proof (induction s arbitrary: f fs i n arr)
  case Nil
  then show ?case by simp
next
  case (Cons p ps)
  obtain t ts where t: "fields c ps = t # ts" using fields_ne by (cases "fields c ps") auto
  show ?case
  proof (cases "p = c")
    case True
    with Cons.prems t have "f = []" "fs = t # ts" by auto
    with Cons.IH [OF t] True show ?thesis by simp
  next
    case False
    with Cons.prems t have "f = p # t" "fs = ts" by auto
    with Cons.IH [OF t] False show ?thesis by simp
  qed
qed

lemma split_copy_fields:
  assumes "fields c s = f # fs" and "length z = length f + 1"
    and "list_all2 (\<lambda>b g. length b = length g + 1) rest fs"
  shows "split_copy c s (length dn) (length w) (dn @ (w @ z) # rest) =
    Inr (dn @ seal (last (last (z # rest))) ((w @ f) # fs))"
  using assms
proof (induction s arbitrary: f fs dn w z rest)
  case Nil
  then have "f = []" "fs = []" "rest = []" by auto
  with Nil obtain j where "z = [j]" by (auto simp: length_Suc_conv)
  with \<open>f = []\<close> \<open>fs = []\<close> \<open>rest = []\<close> show ?case by simp
next
  case (Cons p ps)
  obtain t ts where t: "fields c ps = t # ts" using fields_ne by (cases "fields c ps") auto
  show ?case
  proof (cases "p = c")
    case False
    with Cons.prems t have f: "f = p # t" "fs = ts" by auto
    with Cons.prems obtain z0 z' where z: "z = z0 # z'" "length z' = length t + 1"
      by (auto simp: length_Suc_conv)
    from Cons.IH [OF t z(2), of rest dn "w @ [p]"] Cons.prems f
    have "split_copy c ps (length dn) (Suc (length w)) (dn @ (w @ p # z') # rest) =
      Inr (dn @ seal (last (last (z' # rest))) ((w @ p # t) # ts))" by simp
    moreover have "last (last (z # rest)) = last (last (z' # rest))" using z by auto
    ultimately show ?thesis using False f z by (simp add: put_char_def list_update_append)
  next
    case True
    with Cons.prems t have f: "f = []" "fs = t # ts" by auto
    with Cons.prems obtain z0 r rest' where z: "z = [z0]" "rest = r # rest'"
        "length r = length t + 1" "list_all2 (\<lambda>b g. length b = length g + 1) rest' ts"
      by (auto simp: length_Suc_conv list_all2_Cons2)
    from Cons.IH [OF t z(3,4), of "dn @ [w @ [nul]]" "[]"]
    have "split_copy c ps (Suc (length dn)) 0 (dn @ (w @ [nul]) # r # rest') =
      Inr (dn @ (w @ [nul]) # seal (last (last (r # rest'))) (t # ts))" by simp
    then show ?thesis using True f z by (simp add: put_char_def list_update_append)
  qed
qed

lemma list_all2_uninit:
  "list_all2 (\<lambda>b g. length b = length g + 1)
     (map (\<lambda>(k, g). uninit (junk k) (length g + 1)) (enumerate i fs)) fs"
  by (induction fs arbitrary: i) auto

lemma last_uninit: "last (uninit junk (Suc n)) = junk n"
  by (simp add: uninit_def)

lemma last_alloc:
  "last (last (uninit (junk i) (1 + length f) #
      map (\<lambda>(k, g). uninit (junk k) (length g + 1)) (enumerate (Suc i) fs))) =
    junk (i + length fs) (length (last (f # fs)))"
  by (induction fs arbitrary: i f) (auto simp: last_uninit)

text \<open>
  The whole function: the tokens are the fields of the string, and what follows the last token in
  its buffer is whatever the allocator left there.
\<close>

lemma split_fields:
  assumes "c_str str = Inr s"
  shows "split junk str c = Inr (length (fields c s),
    seal (junk (length (fields c s) - 1) (length (last (fields c s)))) (fields c s))"
proof -
  obtain f fs where f: "fields c s = f # fs" using fields_ne by (cases "fields c s") auto
  let ?z = "uninit (junk 0) (1 + length f)"
  let ?rest = "map (\<lambda>(k, g). uninit (junk k) (length g + 1)) (enumerate (Suc 0) fs)"
  have "split_copy c s 0 0 (?z # ?rest) = Inr (seal (last (last (?z # ?rest))) (f # fs))"
    using split_copy_fields [OF f, of ?z ?rest "[]" "[]"] list_all2_uninit [of junk "Suc 0" fs]
    by simp
  then show ?thesis
    using last_alloc [of junk 0 f fs] assms
    by (simp add: split_def split_alloc_fields [OF f] split_count_fields f)
qed

lemma length_seal [simp]: "length (seal j gs) = length gs"
  by (induction j gs rule: seal.induct) auto

lemma seal_nth:
  "i < length gs \<Longrightarrow> seal j gs ! i = gs ! i @ [if i = length gs - 1 then j else nul]"
proof (induction j gs arbitrary: i rule: seal.induct)
  case (3 j g h gs)
  then show ?case by (cases i) auto
qed auto

text \<open>A string with one separator.\<close>

lemma fields_plain: "c \<notin> set s \<Longrightarrow> fields c s = [s]"
  by (induction s) auto

lemma fields_two: "c \<notin> set a \<Longrightarrow> c \<notin> set b \<Longrightarrow> fields c (a @ c # b) = [a, b]"
  by (induction a) (auto simp: fields_plain)

lemma split_two:
  assumes "c_str str = Inr (a @ c # b)" and "c \<notin> set a" and "c \<notin> set b"
  shows "\<exists>j. split junk str c = Inr (2, [a @ [nul], b @ [j]])"
  using split_fields [OF assms(1), of junk c] fields_two [OF assms(2,3)] by simp

lemma parse_username_pw_eq:
  assumes "nul \<notin> set user" and "CHR '':'' \<notin> set user" and "nul \<notin> set pw"
    and "length du = MAX_CHAR_USERID" and "length dp = MAX_CHAR_USERPASS"
  shows "parse_username_pw du dp (user @ CHR '':'' # pw @ nul # rest) (int (length user + 1 + length pw)) =
      (if MAX_CHAR_USERID < length user \<or> MAX_CHAR_USERPASS < length pw then Inr (-1, du, dp)
       else Inr (0, user @ drop (length user) du, pw @ drop (length pw) dp))"
proof -
  have sz: "size_t (int (length user)) = length user" "size_t (int (length pw)) = length pw"
    if "length user \<le> 8" "length pw \<le> 128"
    using that by (simp_all add: size_t_def)
  have str: "c_str (user @ CHR '':'' # pw @ nul # rest) = Inr (user @ CHR '':'' # pw)"
    using c_str_terminated [of "user @ CHR '':'' # pw" rest] assms(1,3) by (simp add: nul_def)
  have u: "strncpy du (user @ CHR '':'' # pw @ nul # rest) (length user) =
      Inr (user @ drop (length user) du)" if "length user \<le> 8"
    using that assms by (simp add: strncpy_exact MAX_CHAR_USERID_def)
  have p: "strncpy dp (pw @ nul # rest) (length pw) = Inr (pw @ drop (length pw) dp)"
    if "length pw \<le> 128"
    using that assms by (simp add: strncpy_exact MAX_CHAR_USERPASS_def)
  show ?thesis
    using str assms(2) sz u p
    by (simp add: parse_username_pw_def strchr_append Let_def MAX_CHAR_USERID_def
        MAX_CHAR_USERPASS_def)
qed

section \<open>Properties\<close>

definition sample_tokens :: string where
  "sample_tokens = ''a,bc,''"

text \<open>\<open>split\<close> cuts a string at every separator: the tokens are free of the separator, joining
  them gives the string back, the result is their number, and each token but the last can be read
  back as a C string. The last token is never terminated: reading it is an error unless the
  allocator happened to leave a terminator behind it.\<close>

lemma split_tokens:
  assumes "c_str str = Inr s"
  shows "\<exists>tokens arr. split junk str c = Inr (length tokens, arr) \<and>
    join c tokens = s \<and> (\<forall>t \<in> set tokens. c \<notin> set t) \<and> length arr = length tokens \<and>
    (\<forall>i. Suc i < length tokens \<longrightarrow> c_str (arr ! i) = Inr (tokens ! i)) \<and>
    c_str (arr ! (length tokens - 1)) =
      (if junk (length tokens - 1) (length (last tokens)) = nul then Inr (last tokens)
       else Inl Unterminated_String)"
proof -
  define ts where "ts = fields c s"
  define j where "j = junk (length ts - 1) (length (last ts))"
  have sp: "split junk str c = Inr (length ts, seal j ts)"
    unfolding ts_def j_def by (rule split_fields [OF assms])
  have nul: "nul \<notin> set t" if "t \<in> set ts" for t
  proof -
    have "nul \<notin> set s" using assms by (auto elim: c_strE)
    moreover have "set t \<subseteq> set s" if "t \<in> set (fields c s)" for t s
      using that by (induction s arbitrary: t) (fastforce split: list.splits if_splits)+
    ultimately show ?thesis using that unfolding ts_def by blast
  qed
  have ne: "ts \<noteq> []" by (simp add: ts_def)
  have mid: "c_str (seal j ts ! i) = Inr (ts ! i)" if "Suc i < length ts" for i
    using that nul [of "ts ! i"] by (simp add: seal_nth)
  have "seal j ts ! (length ts - 1) = last ts @ [j]"
    using ne by (simp add: seal_nth last_conv_nth)
  moreover have "nul \<notin> set (last ts)" using ne nul by simp
  ultimately have fin: "c_str (seal j ts ! (length ts - 1)) =
      (if j = nul then Inr (last ts) else Inl Unterminated_String)"
    by (cases "j = nul") simp_all
  have "join c ts = s" "\<forall>t \<in> set ts. c \<notin> set t"
    using join_fields fields_no_sep by (auto simp: ts_def)
  then show ?thesis
    using sp mid fin unfolding j_def
    by (intro exI [of _ ts] exI [of _ "seal (junk (length ts - 1) (length (last ts))) ts"]) simp
qed

lemma split_tokens_witness:
  "\<exists>tokens arr. split (\<lambda>_ _. newline) (sample_tokens @ [nul]) (CHR '','') =
      Inr (length tokens, arr) \<and>
    join (CHR '','') tokens = sample_tokens \<and> (\<forall>t \<in> set tokens. CHR '','' \<notin> set t) \<and>
    length arr = length tokens \<and>
    (\<forall>i. Suc i < length tokens \<longrightarrow> c_str (arr ! i) = Inr (tokens ! i)) \<and>
    c_str (arr ! (length tokens - 1)) =
      (if newline = nul then Inr (last tokens) else Inl Unterminated_String)"
  by (rule split_tokens [where junk = "\<lambda>_ _. newline"])
    (simp add: sample_tokens_def nul_def c_str_def)

end
