(* ===== verification/Wire.thy ===== *)
theory Wire
  imports C_Strings
begin

text \<open>
  The transport of \<open>src/util.c\<close>: the packet header of \<open>src/msg_header.h\<close>, the loops around
  \<open>read\<close> and \<open>write\<close>, sending and receiving headers, and file transfer. A socket is the sequence
  of what its reads will deliver (chunks of bytes or errors; the peer has closed the connection
  where the sequence ends), the sequence of how much its writes will accept, and the bytes sent so
  far. A read returns at most one chunk, so every way the network can cut the stream is a choice of
  chunks.
\<close>

section \<open>Packets\<close>

abbreviation USR_CREATE :: u8 where "USR_CREATE \<equiv> 1"
abbreviation USR_LOGIN :: u8 where "USR_LOGIN \<equiv> 2"
abbreviation SEND_CHAT :: u8 where "SEND_CHAT \<equiv> 3"
abbreviation SEND_FILE :: u8 where "SEND_FILE \<equiv> 4"
abbreviation DOWNLOAD_FILE :: u8 where "DOWNLOAD_FILE \<equiv> 5"
abbreviation INVITE :: u8 where "INVITE \<equiv> 6"
abbreviation INVITE_RESP :: u8 where "INVITE_RESP \<equiv> 7"
abbreviation ACTIVE_LIST :: u8 where "ACTIVE_LIST \<equiv> 8"
abbreviation CREATE_GROUP :: u8 where "CREATE_GROUP \<equiv> 9"

text \<open>\<open>hdr_payload\<close> is the whole memory allocated behind the header, which may exceed \<open>hdr_len\<close>.\<close>

record mainhdr =
  hdr_cmd :: u8
  hdr_gid :: u8
  hdr_uid :: u16
  hdr_len :: u32
  hdr_payload :: "char list"

definition create_and_fill_hdr ::
    "bool \<Rightarrow> u8 \<Rightarrow> u8 \<Rightarrow> u16 \<Rightarrow> u32 \<Rightarrow> (nat \<Rightarrow> char) \<Rightarrow> mainhdr option" where
  "create_and_fill_hdr malloc_ok cmd gid uid len junk =
     (if malloc_ok then
        Some \<lparr>hdr_cmd = cmd, hdr_gid = gid, hdr_uid = uid, hdr_len = len,
              hdr_payload = replicate (unat (len + 1)) nul @
                drop (unat (len + 1)) (uninit junk (unat len + 1))\<rparr>
      else None)"

text \<open>
  \<open>fill_username_password\<close> sets the length and the payload of a header whose other fields stay as
  \<open>malloc\<close> left them (\<open>junk\<close>).
\<close>

definition fill_username_password ::
    "mainhdr \<Rightarrow> string \<Rightarrow> string \<Rightarrow> mainhdr" where
  "fill_username_password junk username password =
     junk\<lparr>hdr_len := of_int (int (length username) + int (length password) + 1),
          hdr_payload := username @ CHR '':'' # password\<rparr>"

definition check_header_invite :: "mainhdr \<Rightarrow> int" where
  "check_header_invite packet =
     (let ret = 0;
          ret = (if uint (hdr_uid packet) \<le> 0 then -1 else ret);
          ret = (if uint (hdr_gid packet) < 0 then -1 else ret);
          ret = (if uint (hdr_len packet) > int MAX_CHAR_USERID - 1 then -1 else ret)
      in ret)"

definition check_header_chat :: "mainhdr \<Rightarrow> int" where
  "check_header_chat packet =
     (let ret = 0;
          ret = (if uint (hdr_uid packet) \<le> 0 then -1 else ret);
          ret = (if uint (hdr_gid packet) < 0 then -1 else ret)
      in ret)"

section \<open>Bytes on the wire\<close>

definition byte_of :: "nat \<Rightarrow> char" where
  "byte_of n = char_of n"

definition be16 :: "u16 \<Rightarrow> char list" where
  "be16 w = [byte_of (unat w div 2 ^ 8), byte_of (unat w)]"

definition be32 :: "u32 \<Rightarrow> char list" where
  "be32 w = [byte_of (unat w div 2 ^ 24), byte_of (unat w div 2 ^ 16),
             byte_of (unat w div 2 ^ 8), byte_of (unat w)]"

fun from_be :: "nat \<Rightarrow> char list \<Rightarrow> nat" where
  "from_be acc [] = acc"
| "from_be acc (b # bs) = from_be (256 * acc + of_char b) bs"

text \<open>The eight bytes of the header structure, its numbers in network order.\<close>

definition hdr_bytes :: "mainhdr \<Rightarrow> char list" where
  "hdr_bytes h = byte_of (unat (hdr_cmd h)) # byte_of (unat (hdr_gid h)) #
     be16 (hdr_uid h) @ be32 (hdr_len h)"

definition bytes_hdr :: "char list \<Rightarrow> mainhdr" where
  "bytes_hdr bs = \<lparr>hdr_cmd = of_nat (from_be 0 (take 1 bs)),
     hdr_gid = of_nat (from_be 0 (take 1 (drop 1 bs))),
     hdr_uid = of_nat (from_be 0 (take 2 (drop 2 bs))),
     hdr_len = of_nat (from_be 0 (take 4 (drop 4 bs))),
     hdr_payload = []\<rparr>"

abbreviation HDR_SIZE :: nat where "HDR_SIZE \<equiv> 8"

text \<open>
  \<open>struct sockaddr_in\<close>, cleared with a byte \<open>fill\<close>: the family \<open>AF_INET\<close>, the port and the address in
  network order, and eight bytes that stay as they were cleared.
\<close>

definition sockaddr_in :: "char \<Rightarrow> int \<Rightarrow> char list \<Rightarrow> char list" where
  "sockaddr_in fill port addr = [byte_of 2, byte_of 0] @ be16 (of_int port) @ addr @ replicate 8 fill"

section \<open>Sockets\<close>

datatype read_event = Data "char list" | Rd_Error
datatype write_event = Accept nat | Wr_Error

record socket =
  sk_in :: "read_event list"
  sk_accept :: "write_event list"
  sk_sent :: "char list"

text \<open>
  \<open>read(2)\<close>: -1 on an error, 0 at the end of the stream, else between one byte and \<open>count\<close>.
\<close>

fun sock_read_from :: "read_event list \<Rightarrow> nat \<Rightarrow> int \<times> char list \<times> read_event list" where
  "sock_read_from [] n = (0, [], [])"
| "sock_read_from (Rd_Error # es) n = (-1, [], es)"
| "sock_read_from (Data bs # es) n =
     (if bs = [] then sock_read_from es n
      else if n = 0 then (0, [], Data bs # es)
      else if length bs \<le> n then (int (length bs), bs, es)
      else (int n, take n bs, Data (drop n bs) # es))"

definition sock_read :: "socket \<Rightarrow> nat \<Rightarrow> int \<times> char list \<times> socket" where
  "sock_read s n = (case sock_read_from (sk_in s) n of (r, bs, es) \<Rightarrow> (r, bs, s\<lparr>sk_in := es\<rparr>))"

text \<open>\<open>write(2)\<close> of a buffer: it may accept fewer bytes than offered, or fail.\<close>

definition sock_write :: "socket \<Rightarrow> char list \<Rightarrow> int \<times> socket" where
  "sock_write s bs =
     (case sk_accept s of
        [] \<Rightarrow> (int (length bs), s\<lparr>sk_sent := sk_sent s @ bs\<rparr>)
      | Wr_Error # es \<Rightarrow> (-1, s\<lparr>sk_accept := es\<rparr>)
      | Accept k # es \<Rightarrow>
          (int (length (take k bs)), s\<lparr>sk_accept := es, sk_sent := sk_sent s @ take k bs\<rparr>))"

section \<open>The loops around read and write\<close>

text \<open>Writing received bytes into a buffer at an offset.\<close>

definition blit :: "char list \<Rightarrow> nat \<Rightarrow> char list \<Rightarrow> char list outcome" where
  "blit buff off bs =
     (if off + length bs \<le> length buff
      then Inr (take off buff @ bs @ drop (off + length bs) buff)
      else Inl Out_Of_Bounds)"

lemma sock_read_from_bounds:
  "sock_read_from es n = (r, bs, es') \<Longrightarrow>
    -1 \<le> r \<and> (r = -1 \<or> r = int (length bs)) \<and> length bs \<le> n"
  by (induction es n rule: sock_read_from.induct) (auto split: if_splits)

lemma sock_read_ge: "sock_read s n = (r, bs, s') \<Longrightarrow> -1 \<le> r"
  by (auto simp: sock_read_def split: prod.splits dest: sock_read_from_bounds)

function recv_loop ::
    "socket \<Rightarrow> char list \<Rightarrow> int \<Rightarrow> int \<Rightarrow> (int \<times> char list \<times> socket) outcome" where
  "recv_loop s buff bytes_received num_bytes =
     (if bytes_received < num_bytes then
        (case sock_read s (size_t (num_bytes - bytes_received)) of (tmp, bs, s') \<Rightarrow>
           if tmp = 0 \<or> tmp = -1 then Inr (tmp, buff, s')
           else and_then (blit buff (nat bytes_received) bs) (\<lambda>buff.
                recv_loop s' buff (bytes_received + tmp) num_bytes))
      else Inr (1, buff, s))"
  by pat_completeness auto
termination
  by (relation "measure (\<lambda>(s, buff, received, num). nat (num - received))")
    (auto dest!: sym [of _ "sock_read _ _"] dest: sock_read_ge)

declare recv_loop.simps [simp del]

definition recv_wrapper ::
    "socket \<Rightarrow> char list \<Rightarrow> int \<Rightarrow> (int \<times> char list \<times> socket) outcome" where
  "recv_wrapper s buff num_bytes =
     (case sock_read s (size_t num_bytes) of (tmp, bs, s') \<Rightarrow>
        if tmp = 0 \<or> tmp = -1 then Inr (tmp, buff, s')
        else and_then (blit buff 0 bs) (\<lambda>buff. recv_loop s' buff tmp num_bytes))"

text \<open>The loop of \<open>send_wrapper\<close> calls \<open>read\<close>, not \<open>write\<close>, and reads into the buffer it sends.\<close>

function send_loop ::
    "socket \<Rightarrow> char list \<Rightarrow> int \<Rightarrow> int \<Rightarrow> (int \<times> socket) outcome" where
  "send_loop s buff bytes_sent num_bytes =
     (if bytes_sent < num_bytes then
        (case sock_read s (size_t (num_bytes - bytes_sent)) of (tmp, bs, s') \<Rightarrow>
           if tmp = 0 \<or> tmp = -1 then Inr (tmp, s')
           else and_then (blit buff (nat bytes_sent) bs) (\<lambda>buff.
                send_loop s' buff (bytes_sent + tmp) num_bytes))
      else Inr (0, s))"
  by pat_completeness auto
termination
  by (relation "measure (\<lambda>(s, buff, sent, num). nat (num - sent))")
    (auto dest!: sym [of _ "sock_read _ _"] dest: sock_read_ge)

declare send_loop.simps [simp del]

definition send_wrapper :: "socket \<Rightarrow> char list \<Rightarrow> int \<Rightarrow> (int \<times> socket) outcome" where
  "send_wrapper s buff num_bytes =
     (if length buff < size_t num_bytes then Inl Out_Of_Bounds
      else (case sock_write s (take (size_t num_bytes) buff) of (tmp, s') \<Rightarrow>
        if tmp = 0 \<or> tmp = -1 then Inr (tmp, s') else send_loop s' buff tmp num_bytes))"

section \<open>Sending and receiving packets\<close>

text \<open>A size computed as \<open>size_t\<close> and stored in an \<open>int\<close>.\<close>

definition to_int :: "nat \<Rightarrow> int" where
  "to_int n = sint (of_nat n :: u32)"

definition send_main_header :: "mainhdr \<Rightarrow> socket \<Rightarrow> (int \<times> socket) outcome" where
  "send_main_header hdr s =
     and_then (send_wrapper s (hdr_bytes hdr @ hdr_payload hdr)
                (to_int (HDR_SIZE + unat (hdr_len hdr)))) (\<lambda>(r, s').
     Inr (if r \<noteq> 0 then 1 else 0, s'))"

text \<open>
  \<open>read_main_header\<close>: \<open>stack\<close> is what the uninitialised header on the stack holds, \<open>junk\<close> what
  allocated memory holds, and \<open>malloc_ok n\<close> says whether \<open>malloc\<close> of \<open>n\<close> bytes succeeds.
\<close>

definition read_main_header ::
    "(nat \<Rightarrow> bool) \<Rightarrow> char list \<Rightarrow> (nat \<Rightarrow> char) \<Rightarrow> socket \<Rightarrow> (mainhdr option \<times> socket) outcome" where
  "read_main_header malloc_ok stack junk s =
     and_then (recv_wrapper s stack (int HDR_SIZE)) (\<lambda>(r, basic, s).
     if r \<noteq> 0 then
       (let hdr = bytes_hdr basic;
            len = hdr_len hdr;
            size = (if hdr_cmd hdr \<noteq> SEND_FILE then HDR_SIZE + unat len + 1 else HDR_SIZE)
        in if \<not> malloc_ok size then Inl Null_Pointer
           else
             (let hdr = (if hdr_cmd hdr \<noteq> SEND_FILE
                         then hdr\<lparr>hdr_payload := replicate (unat (len + 1)) nul @
                                drop (unat (len + 1)) (uninit junk (unat len + 1))\<rparr>
                         else hdr)
              in if hdr_len hdr \<noteq> 0 \<and> hdr_cmd hdr \<noteq> SEND_FILE then
                   and_then (recv_wrapper s (hdr_payload hdr) (sint (hdr_len hdr)))
                     (\<lambda>(r, payload, s).
                       if r \<noteq> 0 then Inr (Some (hdr\<lparr>hdr_payload := payload\<rparr>), s)
                       else Inr (None, s))
                 else Inr (Some hdr, s)))
     else Inr (None, s))"

section \<open>Files\<close>

text \<open>
  \<open>send_file\<close> writes a header and the file in chunks of 1024 bytes, ignoring what \<open>write\<close> returns.
  The file is its contents, \<open>None\<close> if it cannot be opened. \<open>file_size\<close> is an \<open>int\<close>, so it is not the
  size of a file of 2 GB or more: then the loop sends less of it, or nothing. It is never more than
  the size (\<open>file_size_le\<close>), so the loop ends before \<open>fread\<close> has nothing left to read. The memory for
  the header is taken to be there.
\<close>

fun send_chunks :: "int \<Rightarrow> socket \<Rightarrow> char list \<Rightarrow> socket" where
  "send_chunks file_size s bs =
     (if file_size \<le> 0 \<or> bs = [] then s
      else send_chunks (file_size - int (length (take 1024 bs))) (snd (sock_write s (take 1024 bs))) (drop 1024 bs))"

declare send_chunks.simps [simp del]

definition send_file :: "socket \<Rightarrow> u8 \<Rightarrow> u16 \<Rightarrow> char list option \<Rightarrow> int \<times> socket" where
  "send_file s gid uid file =
     (case file of
        None \<Rightarrow> (-1, s)
      | Some content \<Rightarrow>
          (let file_size = sint (of_nat (length content) :: 32 word);
               hdr = \<lparr>hdr_cmd = SEND_FILE, hdr_gid = gid, hdr_uid = uid,
                      hdr_len = of_int file_size, hdr_payload = []\<rparr>;
               s = snd (sock_write s (hdr_bytes hdr))
           in (0, send_chunks file_size s content)))"

lemma file_size_le: "sint (of_nat n :: 32 word) \<le> int n"
proof -
  have "sint (of_nat n :: 32 word) = take_bit 32 (int n) - 2 ^ 32 * of_bool (bit (int n) 31)"
    by (simp add: signed_of_nat signed_take_bit_eq_take_bit_minus)
  moreover have "take_bit 32 (int n) \<le> int n" by (simp add: take_bit_int_less_eq_self_iff)
  ultimately show ?thesis by (simp split: split_of_bool)
qed

lemma chunk_left: "int (length bs) - int (length (take n bs)) = int (length (drop n bs))"
  by simp

text \<open>
  \<open>receive_to_file\<close> loops until it has read \<open>len\<close> bytes; \<open>None\<close> means that it never returns. A
  read that fails returns -1, which the code passes on to \<open>fwrite\<close> as a size;
  otherwise \<open>fwrite\<close> writes all it is given.
\<close>

partial_function (option) receive_loop ::
    "int \<Rightarrow> socket \<Rightarrow> char list \<Rightarrow> (char list \<times> socket) outcome option" where
  "receive_loop byte_to_read s written =
     (if byte_to_read > 0 then
        (case sock_read s (if byte_to_read < 1024 then nat byte_to_read else 1024) of
           (recv_bytes, bs, s') \<Rightarrow>
             if recv_bytes < 0 then Some (Inl Out_Of_Bounds)
             else receive_loop (byte_to_read - recv_bytes) s' (written @ bs))
      else Some (Inr (written, s)))"

definition receive_to_file ::
    "socket \<Rightarrow> int \<Rightarrow> bool \<Rightarrow> (int \<times> char list option \<times> socket) outcome option" where
  "receive_to_file s len fopen_ok =
     (if fopen_ok then
        map_option (\<lambda>r. and_then r (\<lambda>(written, s'). Inr (0, Some written, s')))
          (receive_loop len s [])
      else Some (Inr (-1, None, s)))"

section \<open>Streams\<close>

definition clean :: "socket \<Rightarrow> bool" where
  "clean s \<longleftrightarrow> Rd_Error \<notin> set (sk_in s)"

fun events_bytes :: "read_event list \<Rightarrow> char list" where
  "events_bytes [] = []"
| "events_bytes (Data bs # es) = bs @ events_bytes es"
| "events_bytes (Rd_Error # es) = events_bytes es"

definition stream :: "socket \<Rightarrow> char list" where
  "stream s = events_bytes (sk_in s)"

text \<open>The parts of a socket that reading does not touch.\<close>

definition same_out :: "socket \<Rightarrow> socket \<Rightarrow> bool" where
  "same_out s s' \<longleftrightarrow> sk_accept s' = sk_accept s \<and> sk_sent s' = sk_sent s"

lemma same_out_refl [simp]: "same_out s s"
  by (simp add: same_out_def)

lemma same_out_trans: "same_out s t \<Longrightarrow> same_out t u \<Longrightarrow> same_out s u"
  by (simp add: same_out_def)

lemma sock_read_from_clean:
  assumes "Rd_Error \<notin> set es" and "sock_read_from es n = (r, bs, es')" and "0 < n"
  shows "Rd_Error \<notin> set es' \<and> events_bytes es = bs @ events_bytes es' \<and> r = int (length bs) \<and>
    (bs = [] \<longleftrightarrow> events_bytes es = [])"
  using assms
proof (induction es n rule: sock_read_from.induct)
  case (1 n)
  then show ?case by simp
next
  case (2 es n)
  then show ?case by simp
next
  case (3 cs es n)
  consider "cs = []" | "cs \<noteq> []" "length cs \<le> n" | "cs \<noteq> []" "n < length cs" by linarith
  then show ?case
  proof cases
    case 1
    with "3.prems" have "sock_read_from es n = (r, bs, es')" "Rd_Error \<notin> set es" by simp_all
    note IH = "3.IH" [OF 1 this(2,1) "3.prems"(3)]
    have "events_bytes (Data cs # es) = events_bytes es" using 1 by simp
    then show ?thesis by (simp only:) (rule IH)
  next
    case 2
    with "3.prems" show ?thesis by auto
  next
    case c: 3
    with "3.prems"(2,3) have "r = int n" "bs = take n cs" "es' = Data (drop n cs) # es"
      by simp_all
    then show ?thesis using c "3.prems"(1,3) by simp
  qed
qed

lemma sock_read_clean:
  assumes "clean s" and "sock_read s n = (r, bs, s')" and "0 < n"
  shows "clean s'" "stream s = bs @ stream s'" "r = int (length bs)"
    "bs = [] \<longleftrightarrow> stream s = []" "length bs \<le> n" "same_out s s'"
proof -
  obtain es where es: "sock_read_from (sk_in s) n = (r, bs, es)" and s': "s' = s\<lparr>sk_in := es\<rparr>"
    using assms(2) by (auto simp: sock_read_def split: prod.splits)
  note F = sock_read_from_clean [OF assms(1) [unfolded clean_def] es assms(3)]
  show "clean s'" using F by (simp add: clean_def s')
  show "stream s = bs @ stream s'" using F [THEN conjunct2, THEN conjunct1]
    by (simp add: stream_def s')
  show "r = int (length bs)" using F by blast
  show "bs = [] \<longleftrightarrow> stream s = []" using F unfolding stream_def by blast
  show "length bs \<le> n" using sock_read_from_bounds [OF es] by simp
  show "same_out s s'" by (simp add: same_out_def s')
qed

lemma size_t_small: "0 \<le> n \<Longrightarrow> n < 2 ^ 64 \<Longrightarrow> size_t n = nat n"
  by (simp add: size_t_def)

lemma blit_fits:
  "off + length bs \<le> length buff \<Longrightarrow>
    blit buff off bs = Inr (take off buff @ bs @ drop (off + length bs) buff)"
  by (simp add: blit_def)

text \<open>
  The receive loop on a stream without errors: it fills the buffer with the next bytes of the
  stream, however they are cut, and leaves the rest; where the stream is too short it reports 0.
\<close>

lemma recv_loop_clean:
  assumes "clean s" and "0 \<le> k" and "k \<le> n" and "n < 2 ^ 63" and "n \<le> int (length buff)"
    and "n - k \<le> int (length (stream s))"
  shows "\<exists>s'. recv_loop s buff k n =
      Inr (1, take (nat k) buff @ take (nat (n - k)) (stream s) @ drop (nat n) buff, s') \<and>
    clean s' \<and> stream s' = drop (nat (n - k)) (stream s) \<and> same_out s s'"
  using assms
proof (induction s buff k n rule: recv_loop.induct)
  case (1 s buff k n)
  show ?case
  proof (cases "k < n")
    case False
    with "1.prems" have "k = n" by simp
    then show ?thesis
      using "1.prems" by (intro exI [of _ s]) (simp add: recv_loop.simps [of s buff n n])
  next
    case True
    define m where "m = nat (n - k)"
    have m: "size_t (n - k) = m" "0 < m" using True "1.prems" by (simp_all add: m_def size_t_small)
    obtain r bs s1 where rd: "sock_read s m = (r, bs, s1)" by (cases "sock_read s m")
    note R = sock_read_clean [OF "1.prems"(1) rd m(2)]
    have ne: "bs \<noteq> []" using R(4) "1.prems"(6) True by auto
    then have r: "r \<noteq> 0" "r \<noteq> -1" using R(3) by auto
    define b1 where "b1 = take (nat k) buff @ bs @ drop (nat k + length bs) buff"
    have fits: "nat k + length bs \<le> length buff"
      using R(5) "1.prems" True by (simp add: m_def)
    have bl: "blit buff (nat k) bs = Inr b1" using fits by (simp add: b1_def blit_fits)
    have lb: "length bs \<le> m" using R(5) .
    have "\<exists>s'. recv_loop s1 b1 (k + r) n =
        Inr (1, take (nat (k + r)) b1 @ take (nat (n - (k + r))) (stream s1) @ drop (nat n) b1, s') \<and>
      clean s' \<and> stream s' = drop (nat (n - (k + r))) (stream s1) \<and> same_out s1 s'"
    proof (rule "1.IH" [OF True])
      show "(r, (bs, s1)) = sock_read s (size_t (n - k))" using rd m(1) by simp
      show "\<not> (r = 0 \<or> r = - 1)" using r by simp
      show "blit buff (nat k) bs = Inr b1" by (rule bl)
    qed (use R fits lb "1.prems" True in \<open>auto simp: b1_def m_def\<close>)
    moreover have "take (nat (k + r)) b1 = take (nat k) buff @ bs"
      using fits "1.prems"(2) R(3) by (simp add: b1_def nat_add_distrib)
    moreover have "drop (nat n) b1 = drop (nat n) buff"
      using fits lb "1.prems"(2,3) True by (simp add: b1_def m_def)
    moreover have len: "nat (n - (k + r)) = nat (n - k) - length bs" using R(3) by arith
    moreover have "take (nat (n - k)) (stream s) = bs @ take (nat (n - (k + r))) (stream s1)"
      using R(2) lb by (simp add: m_def len)
    moreover have "drop (nat (n - k)) (stream s) = drop (nat (n - (k + r))) (stream s1)"
      using R(2) lb by (simp add: m_def len)
    ultimately show ?thesis
      using True m rd r bl R(6) by (auto simp: recv_loop.simps [of s buff k n] dest: same_out_trans)
  qed
qed

lemma recv_wrapper_clean:
  assumes "clean s" and "0 < n" and "n < 2 ^ 63" and "n \<le> int (length buff)"
    and "n \<le> int (length (stream s))"
  shows "\<exists>s'. recv_wrapper s buff n =
      Inr (1, take (nat n) (stream s) @ drop (nat n) buff, s') \<and>
    clean s' \<and> stream s' = drop (nat n) (stream s) \<and> same_out s s'"
proof -
  have "recv_wrapper s buff n = recv_loop s buff 0 n"
    using assms(2)
    by (simp add: recv_wrapper_def recv_loop.simps [of s buff 0 n] split: prod.split)
  then show ?thesis using recv_loop_clean [OF assms(1), of 0 n buff] assms by simp
qed

lemma recv_loop_eof:
  assumes "clean s" and "0 \<le> k" and "k < n" and "n < 2 ^ 63" and "n \<le> int (length buff)"
    and "int (length (stream s)) < n - k"
  shows "\<exists>buff' s'. recv_loop s buff k n = Inr (0, buff', s')"
  using assms
proof (induction s buff k n rule: recv_loop.induct)
  case (1 s buff k n)
  define m where "m = nat (n - k)"
  have m: "size_t (n - k) = m" "0 < m" using "1.prems" by (simp_all add: m_def size_t_small)
  obtain r bs s1 where rd: "sock_read s m = (r, bs, s1)" by (cases "sock_read s m")
  note R = sock_read_clean [OF "1.prems"(1) rd m(2)]
  show ?case
  proof (cases "bs = []")
    case True
    then show ?thesis using R(3) rd m "1.prems" by (simp add: recv_loop.simps [of s buff k n])
  next
    case False
    then have r: "r \<noteq> 0" "r \<noteq> -1" using R(3) by auto
    have fits: "nat k + length bs \<le> length buff" using R(5) "1.prems" by (simp add: m_def)
    define b1 where "b1 = take (nat k) buff @ bs @ drop (nat k + length bs) buff"
    have bl: "blit buff (nat k) bs = Inr b1" using fits by (simp add: b1_def blit_fits)
    have "\<exists>buff' s'. recv_loop s1 b1 (k + r) n = Inr (0, buff', s')"
    proof (rule "1.IH" [OF "1.prems"(3)])
      show "(r, (bs, s1)) = sock_read s (size_t (n - k))" using rd m(1) by simp
      show "\<not> (r = 0 \<or> r = - 1)" using r by simp
      show "blit buff (nat k) bs = Inr b1" by (rule bl)
    qed (use R fits "1.prems" in \<open>auto simp: b1_def\<close>)
    then show ?thesis
      using "1.prems"(3) m rd r bl by (simp add: recv_loop.simps [of s buff k n])
  qed
qed

section \<open>Header bytes\<close>

lemma of_byte_of [simp]: "(of_char (byte_of n) :: nat) = n mod 256"
  by (simp add: byte_of_def)

lemma length_hdr_bytes [simp]: "length (hdr_bytes h) = HDR_SIZE"
  by (simp add: hdr_bytes_def be16_def be32_def)

lemma from_be_be16: "from_be 0 (be16 w) = unat w"
proof -
  define n where "n = unat w"
  have n: "n < 65536" using unat_bound [of w] by (simp add: n_def)
  have "n div 256 < 256" using n by (simp add: less_mult_imp_div_less)
  then have "256 * (n div 256 mod 256) + n mod 256 = n"
    by (simp only: mod_less mult_div_mod_eq)
  then show ?thesis by (simp add: be16_def n_def [symmetric])
qed

lemma from_be_be32: "from_be 0 (be32 w) = unat w"
proof -
  define n where "n = unat w"
  have n: "n < 4294967296" using unat_bound [of w] by (simp add: n_def)
  have "n div 16777216 = n div 65536 div 256" "n div 65536 = n div 256 div 256"
    by (simp_all add: div_mult2_eq [symmetric])
  moreover have lt: "n div 16777216 < 256" using n by (simp add: less_mult_imp_div_less)
  ultimately have "256 * (256 * (256 * (n div 16777216 mod 256) + n div 65536 mod 256) +
      n div 256 mod 256) + n mod 256 = n"
    by (simp only: mod_less mult_div_mod_eq)
  then show ?thesis by (simp add: be32_def n_def [symmetric] mod_less [OF lt])
qed

lemma bytes_hdr_bytes [simp]:
  "bytes_hdr (hdr_bytes h @ rest) = h\<lparr>hdr_payload := []\<rparr>"
proof -
  have c: "from_be 0 [byte_of (unat (w :: u8))] = unat w" for w
    using unat_bound [of w] by simp
  have t: "take 1 (hdr_bytes h @ rest) = [byte_of (unat (hdr_cmd h))]"
    "take 1 (drop 1 (hdr_bytes h @ rest)) = [byte_of (unat (hdr_gid h))]"
    "take 2 (drop 2 (hdr_bytes h @ rest)) = be16 (hdr_uid h)"
    "take 4 (drop 4 (hdr_bytes h @ rest)) = be32 (hdr_len h)"
    by (simp_all add: hdr_bytes_def be16_def be32_def)
  show ?thesis
    unfolding bytes_hdr_def t c from_be_be16 from_be_be32 by simp
qed

lemma hdr_bytes_payload [simp]: "hdr_bytes (h\<lparr>hdr_payload := p\<rparr>) = hdr_bytes h"
  by (simp add: hdr_bytes_def)


lemma send_loop_clean:
  assumes "clean s" and "0 \<le> k" and "k \<le> n" and "n < 2 ^ 63" and "n \<le> int (length buff)"
    and "n - k \<le> int (length (stream s))"
  shows "\<exists>s'. send_loop s buff k n = Inr (0, s') \<and> clean s' \<and>
    stream s' = drop (nat (n - k)) (stream s) \<and> same_out s s'"
  using assms
proof (induction s buff k n rule: send_loop.induct)
  case (1 s buff k n)
  show ?case
  proof (cases "k < n")
    case False
    with "1.prems" have "k = n" by simp
    then show ?thesis
      using "1.prems" by (intro exI [of _ s]) (simp add: send_loop.simps [of s buff n n])
  next
    case True
    define m where "m = nat (n - k)"
    have m: "size_t (n - k) = m" "0 < m" using True "1.prems" by (simp_all add: m_def size_t_small)
    obtain r bs s1 where rd: "sock_read s m = (r, bs, s1)" by (cases "sock_read s m")
    note R = sock_read_clean [OF "1.prems"(1) rd m(2)]
    have "bs \<noteq> []" using R(4) "1.prems"(6) True by auto
    then have r: "r \<noteq> 0" "r \<noteq> -1" using R(3) by auto
    define b1 where "b1 = take (nat k) buff @ bs @ drop (nat k + length bs) buff"
    have fits: "nat k + length bs \<le> length buff"
      using R(5) "1.prems" True by (simp add: m_def)
    have bl: "blit buff (nat k) bs = Inr b1" using fits by (simp add: b1_def blit_fits)
    have "\<exists>s'. send_loop s1 b1 (k + r) n = Inr (0, s') \<and> clean s' \<and>
      stream s' = drop (nat (n - (k + r))) (stream s1) \<and> same_out s1 s'"
    proof (rule "1.IH" [OF True])
      show "(r, (bs, s1)) = sock_read s (size_t (n - k))" using rd m(1) by simp
      show "\<not> (r = 0 \<or> r = - 1)" using r by simp
      show "blit buff (nat k) bs = Inr b1" by (rule bl)
    qed (use R fits "1.prems" True in \<open>auto simp: b1_def m_def\<close>)
    moreover have len: "nat (n - (k + r)) = nat (n - k) - length bs" using R(3) by arith
    moreover have "drop (nat (n - k)) (stream s) = drop (nat (n - (k + r))) (stream s1)"
      using R(2,5) by (simp add: m_def len)
    ultimately show ?thesis
      using True m rd r bl R(6) by (auto simp: send_loop.simps [of s buff k n] dest: same_out_trans)
  qed
qed

section \<open>Whole packets\<close>

definition packet :: "mainhdr \<Rightarrow> char list" where
  "packet h = hdr_bytes h @ take (unat (hdr_len h)) (hdr_payload h)"

text \<open>The packets that the transport handles as intended: their size is a positive \<open>int\<close>.\<close>

definition sendable :: "mainhdr \<Rightarrow> bool" where
  "sendable h \<longleftrightarrow> unat (hdr_len h) < 2 ^ 31 - HDR_SIZE \<and> unat (hdr_len h) \<le> length (hdr_payload h)"

lemma sendable_size:
  assumes "sendable h"
  shows "to_int (HDR_SIZE + unat (hdr_len h)) = int (HDR_SIZE + unat (hdr_len h))"
    "sint (hdr_len h) = int (unat (hdr_len h))" "unat (hdr_len h + 1) = unat (hdr_len h) + 1"
proof -
  let ?n = "unat (hdr_len h)"
  have n: "?n + 8 < 2 ^ 31" using assms by (simp add: sendable_def)
  have sint: "sint (of_nat k :: u32) = int k" if "k < 2 ^ 31" for k
    using that by (simp add: signed_take_bit_int_eq_self signed_of_nat)
  show "to_int (HDR_SIZE + ?n) = int (HDR_SIZE + ?n)"
    unfolding to_int_def by (rule sint) (use n in simp)
  have "sint (of_nat ?n :: u32) = int ?n" by (rule sint) (use n in simp)
  then show "sint (hdr_len h) = int ?n" by simp
  show "unat (hdr_len h + 1) = ?n + 1"
    using n by (simp add: unat_word_ariths)
qed

lemma take_packet:
  "take (HDR_SIZE + unat (hdr_len h)) (hdr_bytes h @ hdr_payload h) = packet h"
  by (simp add: packet_def)

lemma length_packet: "sendable h \<Longrightarrow> length (packet h) = HDR_SIZE + unat (hdr_len h)"
  by (simp add: packet_def sendable_def)

lemma send_main_header_unfold:
  assumes "sendable h"
  shows "send_main_header h s =
    (case sock_write s (packet h) of (tmp, s') \<Rightarrow>
       if tmp = 0 then Inr (0, s') else if tmp = -1 then Inr (1, s')
       else and_then (send_loop s' (hdr_bytes h @ hdr_payload h) tmp
              (int (HDR_SIZE + unat (hdr_len h)))) (\<lambda>(r, s'). Inr (if r \<noteq> 0 then 1 else 0, s')))"
proof -
  have k: "size_t (int k) = k" if "k < 2 ^ 31" for k
    using that by (simp add: size_t_def)
  have sz: "size_t (int (HDR_SIZE + unat (hdr_len h))) = HDR_SIZE + unat (hdr_len h)"
    by (rule k) (use assms in \<open>simp add: sendable_def\<close>)
  have "\<not> length (hdr_bytes h @ hdr_payload h) < HDR_SIZE + unat (hdr_len h)"
    using assms by (simp add: sendable_def)
  then show ?thesis
    unfolding send_main_header_def send_wrapper_def sendable_size(1) [OF assms] sz take_packet
    by (simp split: prod.split)
qed

text \<open>A connection that accepts what is written gets the packet, and the result is 0.\<close>

lemma send_main_header_ok:
  assumes "sendable h" and "sk_accept s = []"
  shows "send_main_header h s = Inr (0, s\<lparr>sk_sent := sk_sent s @ packet h\<rparr>)"
proof -
  have "sock_write s (packet h) =
      (int (HDR_SIZE + unat (hdr_len h)), s\<lparr>sk_sent := sk_sent s @ packet h\<rparr>)"
    using assms by (simp add: sock_write_def length_packet)
  moreover have "int (HDR_SIZE + k) \<noteq> 0" "int (HDR_SIZE + k) \<noteq> -1" for k
    by linarith+
  moreover have "send_loop t b k k = Inr (0, t)" for t b k
    by (simp add: send_loop.simps)
  ultimately show ?thesis
    by (simp only: send_main_header_unfold [OF assms(1)] prod.case if_False and_then_Inr if_cancel
        simp_thms)
qed

lemma payload_twice: "h\<lparr>hdr_payload := a, hdr_payload := b\<rparr> = (h\<lparr>hdr_payload := b\<rparr> :: mainhdr)"
  by (cases h) simp

lemma read_main_header_ok:
  assumes "clean s" and "stream s = packet h @ rest" and "sendable h"
    and "hdr_cmd h \<noteq> SEND_FILE" and "length stack = HDR_SIZE"
    and "malloc_ok (HDR_SIZE + unat (hdr_len h) + 1)"
  shows "\<exists>s'. read_main_header malloc_ok stack junk s =
      Inr (Some (h\<lparr>hdr_payload := take (unat (hdr_len h)) (hdr_payload h) @ [nul]\<rparr>), s') \<and>
    clean s' \<and> stream s' = rest \<and> same_out s s'"
proof -
  let ?n = "unat (hdr_len h)"
  let ?p = "take ?n (hdr_payload h)"
  have "int HDR_SIZE \<le> int (length (stream s))" by (simp add: assms(2) packet_def)
  then obtain s1 where s1: "recv_wrapper s stack (int HDR_SIZE) =
        Inr (1, take HDR_SIZE (stream s) @ drop HDR_SIZE stack, s1)" "clean s1"
      "stream s1 = drop HDR_SIZE (stream s)" "same_out s s1"
    using recv_wrapper_clean [OF assms(1), of "int HDR_SIZE" stack] assms(5) by auto
  have basic: "take HDR_SIZE (stream s) @ drop HDR_SIZE stack = hdr_bytes h"
    and st1: "stream s1 = ?p @ rest"
    using s1(3) assms(2,5) by (simp_all add: packet_def)
  have len1: "unat (hdr_len h + 1) = ?n + 1" by (rule sendable_size(3) [OF assms(3)])
  define zeros where "zeros = replicate (?n + 1) nul"
  have zero: "replicate (unat (hdr_len h + 1)) nul @
      drop (unat (hdr_len h + 1)) (uninit junk (?n + 1)) = zeros"
    by (simp add: len1 zeros_def)
  have eq: "read_main_header malloc_ok stack junk s =
      (if hdr_len h \<noteq> 0 then
         and_then (recv_wrapper s1 zeros (int ?n)) (\<lambda>(r, payload, s).
           if r \<noteq> 0 then Inr (Some (h\<lparr>hdr_payload := payload\<rparr>), s) else Inr (None, s))
       else Inr (Some (h\<lparr>hdr_payload := zeros\<rparr>), s1))"
    using s1(1) assms(4,6) zero
    by (simp add: read_main_header_def basic bytes_hdr_bytes [of h "[]", simplified] Let_def
        sendable_size(2) [OF assms(3)] payload_twice cong: if_cong)
  show ?thesis
  proof (cases "hdr_len h = 0")
    case True
    then show ?thesis using eq s1 st1 by (intro exI [of _ s1]) (simp add: zeros_def)
  next
    case False
    then have "0 < ?n" by (simp add: unat_gt_0)
    moreover have small: "int k < 2 ^ 63" if "k < 2 ^ 31 - HDR_SIZE" for k
      using that by simp
    have "int ?n < 2 ^ 63"
      by (rule small) (use assms(3) in \<open>simp add: sendable_def\<close>)
    moreover have "int ?n \<le> int (length (stream s1))"
      using assms(3) by (simp add: sendable_def st1 nat_le_iff [symmetric] del: of_nat_le_iff)
    moreover have "0 < int ?n" using \<open>0 < ?n\<close> by (simp only: of_nat_0_less_iff)
    moreover have "int ?n \<le> int (length zeros)" by (simp add: zeros_def)
    ultimately obtain s2 where "recv_wrapper s1 zeros (int ?n) =
          Inr (1, take (nat (int ?n)) (stream s1) @ drop (nat (int ?n)) zeros, s2)" "clean s2"
        "stream s2 = drop (nat (int ?n)) (stream s1)" "same_out s1 s2"
      using recv_wrapper_clean [OF s1(2), of "int ?n" zeros] by blast
    moreover have "drop ?n zeros = [nul]" unfolding zeros_def drop_replicate by simp
    moreover have "take ?n (stream s1) = ?p" "drop ?n (stream s1) = rest"
    proof -
      have lp: "length ?p = ?n" using assms(3) by (simp add: sendable_def)
      show "take ?n (stream s1) = ?p" "drop ?n (stream s1) = rest"
        using append_eq_conv_conj [of ?p rest "stream s1"] st1 lp by metis+
    qed
    ultimately have "recv_wrapper s1 zeros (int ?n) = Inr (1, ?p @ [nul], s2)"
        "clean s2" "stream s2 = rest" "same_out s1 s2"
      by (simp_all only: nat_int)
    then show ?thesis using eq False s1(4) by (auto dest: same_out_trans)
  qed
qed

lemma read_main_header_closed:
  assumes "clean s" and "length (stream s) < HDR_SIZE" and "length stack = HDR_SIZE"
  shows "\<exists>s'. read_main_header malloc_ok stack junk s = Inr (None, s')"
proof -
  have "recv_wrapper s stack 8 = recv_loop s stack 0 8"
    by (simp add: recv_wrapper_def recv_loop.simps [of s stack 0] split: prod.split)
  then obtain b s' where "recv_wrapper s stack 8 = Inr (0, b, s')"
    using recv_loop_eof [OF assms(1), of 0 8 stack] assms by auto
  then show ?thesis by (simp add: read_main_header_def)
qed

section \<open>Files\<close>

lemma sock_write_all [simp]:
  "sk_accept s = [] \<Longrightarrow> sock_write s bs = (int (length bs), s\<lparr>sk_sent := sk_sent s @ bs\<rparr>)"
  by (simp add: sock_write_def)

lemma send_chunks_all:
  "sk_accept s = [] \<Longrightarrow> send_chunks (int (length bs)) s bs = s\<lparr>sk_sent := sk_sent s @ bs\<rparr>"
proof (induction "int (length bs)" s bs rule: send_chunks.induct)
  case (1 s bs)
  show ?case
  proof (cases "bs = []")
    case True
    then show ?thesis by (simp add: send_chunks.simps)
  next
    case False
    with 1 show ?thesis by (simp add: send_chunks.simps [of "int (length bs)" s bs] chunk_left del: length_drop length_take)
  qed
qed

lemma receive_loop_enough:
  "clean s \<Longrightarrow> n \<le> int (length (stream s)) \<Longrightarrow>
    \<exists>s'. receive_loop n s w = Some (Inr (w @ take (nat n) (stream s), s')) \<and>
      clean s' \<and> stream s' = drop (nat n) (stream s) \<and> same_out s s'"
proof (induction "nat n" arbitrary: n s w rule: less_induct)
  case less
  show ?case
  proof (cases "0 < n")
    case False
    then show ?thesis using less.prems by (simp add: receive_loop.simps)
  next
    case True
    define m where "m = (if n < 1024 then nat n else 1024)"
    have m: "0 < m" using True by (simp add: m_def)
    obtain r bs s1 where rd: "sock_read s m = (r, bs, s1)" by (cases "sock_read s m")
    note R = sock_read_clean [OF less.prems(1) rd m]
    have ne: "bs \<noteq> []" using R(4) less.prems(2) True by auto
    have lb: "length bs \<le> nat n" using R(5) True by (simp add: m_def split: if_splits)
    from less.hyps [of "n - r" s1 "w @ bs"] R ne lb less.prems True obtain s' where
      "receive_loop (n - r) s1 (w @ bs) =
        Some (Inr ((w @ bs) @ take (nat (n - r)) (stream s1), s'))"
      "clean s'" "stream s' = drop (nat (n - r)) (stream s1)" "same_out s1 s'"
      by force
    moreover have len: "nat (n - r) = nat n - length bs" using R(3) by arith
    moreover have "\<not> r < 0" using R(3) by simp
    ultimately show ?thesis
      using True rd R(2,6) lb m_def
      by (auto simp: receive_loop.simps [of n s w] dest: same_out_trans)
  qed
qed

text \<open>When the peer closes the connection early, the loop reads 0 bytes for ever.\<close>

lemma receive_loop_short:
  assumes "receive_loop n s w = Some r" and "clean s" and "int (length (stream s)) < n"
  shows False
proof -
  have "clean s \<longrightarrow> \<not> int (length (stream s)) < n"
  proof (rule receive_loop.raw_induct
      [where P = "\<lambda>n s w r. clean s \<longrightarrow> \<not> int (length (stream s)) < n", OF _ assms(1)])
    fix f :: "int \<Rightarrow> socket \<Rightarrow> char list \<Rightarrow> (char list \<times> socket) outcome option" and n s w r
    assume IH: "\<And>n s w r. f n s w = Some r \<Longrightarrow> clean s \<longrightarrow> \<not> int (length (stream s)) < n"
      and eq: "(if 0 < n then
          (case sock_read s (if n < 1024 then nat n else 1024) of (recv_bytes, bs, s') \<Rightarrow>
             if recv_bytes < 0 then Some (Inl Out_Of_Bounds)
             else f (n - recv_bytes) s' (w @ bs))
        else Some (Inr (w, s))) = Some r"
    show "clean s \<longrightarrow> \<not> int (length (stream s)) < n"
    proof (intro impI notI)
      assume c: "clean s" and short: "int (length (stream s)) < n"
      define m where "m = (if n < 1024 then nat n else 1024)"
      have n: "0 < n" and m: "0 < m" using short by (simp_all add: m_def)
      obtain k bs s1 where rd: "sock_read s m = (k, bs, s1)" by (cases "sock_read s m")
      note R = sock_read_clean [OF c rd m]
      have "f (n - k) s1 (w @ bs) = Some r" using eq n rd R(3) by (simp add: m_def)
      from IH [OF this] R(1,2,3) short show False by simp
    qed
  qed
  with assms(2,3) show False by blast
qed

text \<open>The bytes of a file on the wire.\<close>

definition file_bytes :: "u8 \<Rightarrow> u16 \<Rightarrow> char list \<Rightarrow> char list" where
  "file_bytes gid uid content = hdr_bytes \<lparr>hdr_cmd = SEND_FILE, hdr_gid = gid, hdr_uid = uid,
     hdr_len = of_nat (length content), hdr_payload = []\<rparr> @ content"

lemma send_file_all:
  assumes "sk_accept s = []" and "length content < 2 ^ 31"
  shows "send_file s gid uid (Some content) = (0, s\<lparr>sk_sent := sk_sent s @
    hdr_bytes \<lparr>hdr_cmd = SEND_FILE, hdr_gid = gid, hdr_uid = uid,
      hdr_len = of_nat (length content), hdr_payload = []\<rparr> @ content\<rparr>)"
  using assms send_chunks_all [of _ content]
  by (simp add: send_file_def Let_def signed_take_bit_int_eq_self signed_of_nat)

text \<open>The size of a file of 2 to 4 GB is a negative \<open>int\<close>: nothing of it is sent.\<close>

lemma send_file_too_long:
  assumes "2 ^ 31 \<le> length content" and "length content < 2 ^ 32"
  shows "send_file s gid uid (Some content) = (0, snd (sock_write s (hdr_bytes
    \<lparr>hdr_cmd = SEND_FILE, hdr_gid = gid, hdr_uid = uid, hdr_len = of_nat (length content), hdr_payload = []\<rparr>)))"
proof -
  let ?n = "int (length content)"
  have n: "2 ^ 31 \<le> ?n" "?n < 2 ^ 32" using assms by simp_all
  then have "?n div 2 ^ 31 = 1" by simp
  then have "bit ?n 31" by (simp add: bit_iff_odd)
  moreover have "take_bit 32 ?n = ?n" using n(2) by (simp add: take_bit_int_eq_self)
  ultimately have "sint (of_nat (length content) :: u32) < 0"
    using n(2) by (simp add: signed_of_nat signed_take_bit_eq_take_bit_minus)
  then show ?thesis by (simp add: send_file_def Let_def send_chunks.simps)
qed

lemma read_main_header_file:
  assumes "clean s" and "stream s = hdr_bytes h @ rest" and "hdr_cmd h = SEND_FILE"
    and "length stack = HDR_SIZE" and "malloc_ok HDR_SIZE"
  shows "\<exists>s'. read_main_header malloc_ok stack junk s = Inr (Some (h\<lparr>hdr_payload := []\<rparr>), s') \<and>
    clean s' \<and> stream s' = rest \<and> same_out s s'"
proof -
  have "int HDR_SIZE \<le> int (length (stream s))" by (simp add: assms(2))
  then obtain s1 where s1: "recv_wrapper s stack (int HDR_SIZE) =
        Inr (1, take HDR_SIZE (stream s) @ drop HDR_SIZE stack, s1)" "clean s1"
      "stream s1 = drop HDR_SIZE (stream s)" "same_out s s1"
    using recv_wrapper_clean [OF assms(1), of "int HDR_SIZE" stack] assms(4) by auto
  have "take HDR_SIZE (stream s) @ drop HDR_SIZE stack = hdr_bytes h" "stream s1 = rest"
    using s1(3) assms(2,4) by simp_all
  with s1 assms(3,5) show ?thesis
    by (simp add: read_main_header_def bytes_hdr_bytes [of h "[]", simplified] Let_def)
qed

lemma small_int_word:
  assumes "n < 2 ^ 31"
  shows "sint (of_nat n :: u32) = int n" "unat (of_nat n :: u32) = n"
  using assms by (simp_all add: signed_take_bit_int_eq_self signed_of_nat unat_of_nat)

section \<open>Properties\<close>

definition sample_header :: mainhdr where
  "sample_header = \<lparr>hdr_cmd = SEND_CHAT, hdr_gid = 3, hdr_uid = 258, hdr_len = 2,
     hdr_payload = ''hi''\<rparr>"

text \<open>A connection that accepts everything, with the given incoming events.\<close>

definition connection :: "read_event list \<Rightarrow> socket" where
  "connection es = \<lparr>sk_in = es, sk_accept = [], sk_sent = []\<rparr>"

definition sample_packet :: "char list" where
  "sample_packet = packet sample_header"

text \<open>C24: What \<open>send_main_header\<close> writes, \<open>read_main_header\<close> reads back, however the network cuts
  the stream: the same command, group, user, length and payload, followed by a terminator, and
  nothing of the stream after the packet is consumed. The result of a successful send is 0.\<close>

theorem packet_roundtrip:
  assumes "sendable h" and "hdr_cmd h \<noteq> SEND_FILE" and "sk_accept s = []"
    and "send_main_header h s = Inr (r, s')" and "sk_sent s' = sk_sent s @ bytes"
    and "clean t" and "stream t = bytes @ rest"
    and "length stack = HDR_SIZE" and "malloc_ok (HDR_SIZE + unat (hdr_len h) + 1)"
  shows "r = 0 \<and> (\<exists>t'. read_main_header malloc_ok stack junk t =
      Inr (Some (h\<lparr>hdr_payload := take (unat (hdr_len h)) (hdr_payload h) @ [nul]\<rparr>), t') \<and>
    clean t' \<and> stream t' = rest \<and> sk_sent t' = sk_sent t)"
proof -
  have "r = 0" "bytes = packet h"
    using assms(3-5) send_main_header_ok [OF assms(1,3)] by auto
  then show ?thesis
    using read_main_header_ok [of t h rest stack malloc_ok junk] assms by (auto simp: same_out_def)
qed

theorem packet_roundtrip_witness:
  "(0::int) = 0 \<and> (\<exists>t'. read_main_header (\<lambda>_. True) (replicate HDR_SIZE space) (\<lambda>_. space)
      (connection [Data (take 3 sample_packet), Data (drop 3 sample_packet @ [space])]) =
      Inr (Some (sample_header\<lparr>hdr_payload := take (unat (hdr_len sample_header))
        (hdr_payload sample_header) @ [nul]\<rparr>), t') \<and>
    clean t' \<and> stream t' = [space] \<and>
    sk_sent t' = sk_sent (connection [Data (take 3 sample_packet), Data (drop 3 sample_packet @ [space])]))"
proof (rule packet_roundtrip [where s = "connection []" and bytes = sample_packet])
  show s: "sendable sample_header"
    by (simp add: sendable_def sample_header_def)
  show "send_main_header sample_header (connection []) =
      Inr (0, (connection [])\<lparr>sk_sent := sample_packet\<rparr>)"
    using s by (simp add: send_main_header_ok connection_def sample_packet_def)
qed (simp_all add: sample_header_def connection_def clean_def stream_def)

text \<open>\<open>recv_wrapper\<close> does not depend on how the stream arrives: with enough bytes it returns 1,
  fills the front of the buffer with the next \<open>n\<close> bytes and leaves the rest of the stream; with
  fewer it returns 0. It always returns.\<close>

lemma recv_wrapper_exact:
  assumes "clean s" and "0 < n" and "n < 2 ^ 31" and "n \<le> int (length buff)"
  shows "if n \<le> int (length (stream s))
    then \<exists>s'. recv_wrapper s buff n = Inr (1, take (nat n) (stream s) @ drop (nat n) buff, s') \<and>
      clean s' \<and> stream s' = drop (nat n) (stream s)
    else \<exists>buff' s'. recv_wrapper s buff n = Inr (0, buff', s')"
proof -
  have n: "n < 2 ^ 63" using assms(3) by simp
  have "recv_wrapper s buff n = recv_loop s buff 0 n"
    using assms(2)
    by (simp add: recv_wrapper_def recv_loop.simps [of s buff 0 n] split: prod.split)
  then show ?thesis
    using recv_wrapper_clean [OF assms(1,2) n assms(4)]
      recv_loop_eof [OF assms(1), of 0 n buff] assms(2,4) n by auto
qed

lemma recv_wrapper_exact_witness:
  "if 3 \<le> int (length (stream (connection [Data ''ab'', Data ''cde''])))
    then \<exists>s'. recv_wrapper (connection [Data ''ab'', Data ''cde'']) ''xxxx'' 3 =
      Inr (1, take (nat 3) (stream (connection [Data ''ab'', Data ''cde''])) @ drop (nat 3) ''xxxx'', s') \<and>
      clean s' \<and> stream s' = drop (nat 3) (stream (connection [Data ''ab'', Data ''cde'']))
    else \<exists>buff' s'. recv_wrapper (connection [Data ''ab'', Data ''cde'']) ''xxxx'' 3 = Inr (0, buff', s')"
  by (rule recv_wrapper_exact) (simp_all add: connection_def clean_def)

text \<open>C38: A write that accepts only part of a packet: \<open>send_main_header\<close> never sends the rest. Its
  loop calls \<open>read\<close>, so it consumes as many incoming bytes as are missing, and still returns 0.\<close>

theorem send_short_write:
  assumes "sendable h" and "sk_accept s = Accept k # es" and "0 < k" and "k < length (packet h)"
    and "clean s" and "length (packet h) - k \<le> length (stream s)"
  shows "\<exists>s'. send_main_header h s = Inr (0, s') \<and> sk_sent s' = sk_sent s @ take k (packet h) \<and>
    stream s' = drop (length (packet h) - k) (stream s)"
proof -
  define size where "size = HDR_SIZE + unat (hdr_len h)"
  have size: "size = length (packet h)" "size < 2 ^ 31"
    using assms(1) by (simp_all add: size_def length_packet sendable_def)
  define s1 where "s1 = s\<lparr>sk_accept := es, sk_sent := sk_sent s @ take k (packet h)\<rparr>"
  have wr: "sock_write s (packet h) = (int k, s1)"
    using assms(2,4) by (simp add: sock_write_def s1_def)
  have s1: "clean s1" "stream s1 = stream s" using assms(5) by (simp_all add: s1_def clean_def stream_def)
  have buf: "int size \<le> int (length (hdr_bytes h @ hdr_payload h))"
    using assms(1) by (simp add: sendable_def size_def nat_le_iff [symmetric] del: of_nat_le_iff)
  have need: "int size - int k \<le> int (length (stream s1))"
    unfolding s1(2) using assms(6) size(1) by linarith
  have "int size < 2 ^ 63" using size(2) by simp
  then obtain s2 where s2: "send_loop s1 (hdr_bytes h @ hdr_payload h) (int k) (int size) = Inr (0, s2)"
      "stream s2 = drop (nat (int size - int k)) (stream s1)" "same_out s1 s2"
    using send_loop_clean [OF s1(1), of "int k" "int size" "hdr_bytes h @ hdr_payload h"] buf need
      assms(4) size(1) s1(2) by auto
  have "send_main_header h s = Inr (0, s2)"
    using assms(3) s2(1) unfolding send_main_header_unfold [OF assms(1)] wr size_def by simp
  moreover have "nat (int size - int k) = length (packet h) - k" using size(1) by simp
  ultimately show ?thesis using s2(2,3) s1(2) by (simp add: same_out_def s1_def)
qed

theorem send_short_write_witness:
  "\<exists>s'. send_main_header sample_header
      ((connection [Data ''abcdefgh''])\<lparr>sk_accept := [Accept 4]\<rparr>) = Inr (0, s') \<and>
    sk_sent s' = sk_sent ((connection [Data ''abcdefgh''])\<lparr>sk_accept := [Accept 4]\<rparr>) @
      take 4 (packet sample_header) \<and>
    stream s' = drop (length (packet sample_header) - 4)
      (stream ((connection [Data ''abcdefgh''])\<lparr>sk_accept := [Accept 4]\<rparr>))"
  by (rule send_short_write)
    (simp_all add: sendable_def sample_header_def connection_def packet_def clean_def stream_def)

text \<open>A failed read counts as success: \<open>recv_wrapper\<close> returns -1, which \<open>read_main_header\<close>
  takes for true, and the packet it returns is what the uninitialised header on the stack held.\<close>

lemma read_error_accepted:
  assumes "sk_in s = Rd_Error # es" and "length stack = HDR_SIZE" and "\<And>n. malloc_ok n"
    and "hdr_len (bytes_hdr stack) = 0 \<or> hdr_cmd (bytes_hdr stack) = SEND_FILE"
  shows "\<exists>payload. read_main_header malloc_ok stack junk s =
    Inr (Some ((bytes_hdr stack)\<lparr>hdr_payload := payload\<rparr>), s\<lparr>sk_in := es\<rparr>)"
proof -
  have "recv_wrapper s stack (int HDR_SIZE) = Inr (-1, stack, s\<lparr>sk_in := es\<rparr>)"
    using assms(1) by (simp add: recv_wrapper_def sock_read_def)
  moreover have "bytes_hdr stack = (bytes_hdr stack)\<lparr>hdr_payload := []\<rparr>"
    by (simp add: bytes_hdr_def)
  ultimately show ?thesis using assms(3,4) by (auto simp: read_main_header_def Let_def)
qed

lemma read_error_accepted_witness:
  "\<exists>payload. read_main_header (\<lambda>_. True) (hdr_bytes (sample_header\<lparr>hdr_len := 0\<rparr>)) (\<lambda>_. space)
      (connection [Rd_Error]) =
    Inr (Some ((bytes_hdr (hdr_bytes (sample_header\<lparr>hdr_len := 0\<rparr>)))\<lparr>hdr_payload := payload\<rparr>),
      (connection [Rd_Error])\<lparr>sk_in := []\<rparr>)"
  by (rule read_error_accepted)
    (simp_all add: connection_def bytes_hdr_bytes [of _ "[]", simplified])

text \<open>C30: What \<open>send_file\<close> writes, the receiver's \<open>read_main_header\<close> and \<open>receive_to_file\<close> turn
  back into the same file, for every file of less than 2 GB and every way the stream is cut.\<close>

theorem file_roundtrip:
  assumes "length content < 2 ^ 31" and "sk_accept s = []"
    and "send_file s gid uid (Some content) = (r, s')" and "sk_sent s' = sk_sent s @ bytes"
    and "clean t" and "stream t = bytes @ rest"
    and "length stack = HDR_SIZE" and "malloc_ok HDR_SIZE"
  shows "r = 0 \<and> (\<exists>h t1 t2. read_main_header malloc_ok stack junk t = Inr (Some h, t1) \<and>
    hdr_cmd h = SEND_FILE \<and> hdr_gid h = gid \<and> hdr_uid h = uid \<and>
    receive_to_file t1 (sint (hdr_len h)) True = Some (Inr (0, Some content, t2)) \<and>
    clean t2 \<and> stream t2 = rest)"
proof -
  define h where "h = \<lparr>hdr_cmd = SEND_FILE, hdr_gid = gid, hdr_uid = uid,
      hdr_len = of_nat (length content), hdr_payload = []\<rparr>"
  have r: "r = 0" "bytes = hdr_bytes h @ content"
    using assms(1-4) by (auto simp: send_file_all h_def)
  obtain t1 where t1: "read_main_header malloc_ok stack junk t = Inr (Some (h\<lparr>hdr_payload := []\<rparr>), t1)"
      "clean t1" "stream t1 = content @ rest"
    using read_main_header_file [OF assms(5) _ _ assms(7), of h "content @ rest" malloc_ok junk]
      assms(6,8) r(2) by (auto simp: h_def)
  have len: "sint (hdr_len h) = int (length content)"
    using small_int_word [OF assms(1)] by (simp add: h_def)
  obtain t2 where "receive_loop (int (length content)) t1 [] = Some (Inr (content, t2))"
      "clean t2" "stream t2 = rest"
    using receive_loop_enough [OF t1(2), of "int (length content)" "[]"] t1(3) by auto
  then have "receive_to_file t1 (sint (hdr_len h)) True = Some (Inr (0, Some content, t2))"
    by (simp only: receive_to_file_def len) simp
  with t1(1) r(1) \<open>clean t2\<close> \<open>stream t2 = rest\<close> show ?thesis by (auto simp: h_def)
qed

theorem file_roundtrip_witness:
  "(0::int) = 0 \<and> (\<exists>h t1 t2. read_main_header (\<lambda>_. True) (replicate HDR_SIZE space) (\<lambda>_. space)
      (connection [Data (sk_sent (snd (send_file (connection []) 3 7 (Some ''abc''))) @ ''d'')]) =
      Inr (Some h, t1) \<and>
    hdr_cmd h = SEND_FILE \<and> hdr_gid h = 3 \<and> hdr_uid h = 7 \<and>
    receive_to_file t1 (sint (hdr_len h)) True = Some (Inr (0, Some ''abc'', t2)) \<and>
    clean t2 \<and> stream t2 = ''d'')"
  by (rule file_roundtrip [where s = "connection []" and s' = "snd (send_file (connection []) 3 7 (Some ''abc''))"
        and bytes = "sk_sent (snd (send_file (connection []) 3 7 (Some ''abc'')))"])
    (simp_all add: connection_def send_file_all clean_def stream_def)

text \<open>C39: \<open>receive_to_file\<close> returns exactly when the stream holds the announced number of bytes, and
  the file it writes is then that prefix of the stream. A peer that closes the connection earlier
  makes it loop for ever.\<close>

theorem receive_to_file_returns:
  assumes "clean s"
  shows "if len \<le> int (length (stream s))
    then \<exists>s'. receive_to_file s len True = Some (Inr (0, Some (take (nat len) (stream s)), s')) \<and>
      stream s' = drop (nat len) (stream s)
    else receive_to_file s len True = None"
proof (cases "len \<le> int (length (stream s))")
  case True
  with receive_loop_enough [OF assms True, of "[]"] show ?thesis
    by (auto simp: receive_to_file_def)
next
  case False
  then have "receive_loop len s [] = None"
    using receive_loop_short [OF _ assms, of len "[]"] by (cases "receive_loop len s []") auto
  with False show ?thesis by (simp add: receive_to_file_def)
qed

theorem receive_to_file_returns_witness:
  "if 3 \<le> int (length (stream (connection [Data ''ab''])))
    then \<exists>s'. receive_to_file (connection [Data ''ab'']) 3 True =
      Some (Inr (0, Some (take (nat 3) (stream (connection [Data ''ab'']))), s')) \<and>
      stream s' = drop (nat 3) (stream (connection [Data ''ab'']))
    else receive_to_file (connection [Data ''ab'']) 3 True = None"
  by (rule receive_to_file_returns) (simp add: clean_def connection_def)

text \<open>The credentials that \<open>fill_username_password\<close> packs are those that \<open>parse_username_pw\<close>
  unpacks at the receiver, where the payload is followed by a terminator: on zeroed buffers the
  user name can then be read back if it is shorter than 8 characters, while one of exactly 8
  leaves its buffer without a terminator.\<close>

lemma credentials_roundtrip:
  assumes "nul \<notin> set user" and "CHR '':'' \<notin> set user" and "nul \<notin> set pw"
    and "length user \<le> MAX_CHAR_USERID" and "length pw < MAX_CHAR_USERPASS"
    and "h = fill_username_password junk user pw"
  shows "\<exists>du dp. parse_username_pw (replicate MAX_CHAR_USERID nul) (replicate MAX_CHAR_USERPASS nul)
      (hdr_payload h @ [nul]) (sint (hdr_len h)) = Inr (0, du, dp) \<and>
    c_str dp = Inr pw \<and>
    c_str du = (if length user = MAX_CHAR_USERID then Inl Unterminated_String else Inr user)"
proof -
  have lens: "length user \<le> 8" "length pw \<le> 128"
    using assms(4,5) by (simp_all add: MAX_CHAR_USERID_def MAX_CHAR_USERPASS_def)
  have "hdr_len h = of_nat (length user + 1 + length pw)"
    by (simp add: assms(6) fill_username_password_def ac_simps)
  then have len: "sint (hdr_len h) = int (length user + 1 + length pw)"
    using lens by (simp add: small_int_word del: of_nat_add of_nat_Suc)
  have pay: "hdr_payload h @ [nul] = user @ CHR '':'' # pw @ nul # []"
    by (simp add: assms(6) fill_username_password_def)
  have sz: "size_t (int (length user)) = length user" "size_t (int (length pw)) = length pw"
    using lens by (simp_all add: size_t_def)
  have str: "c_str (user @ CHR '':'' # pw @ [nul]) = Inr (user @ CHR '':'' # pw)"
    using c_str_terminated [of "user @ CHR '':'' # pw" "[]"] assms(1,3) by (simp add: nul_def)
  have "strncpy (replicate MAX_CHAR_USERID nul) (user @ CHR '':'' # pw @ [nul]) (length user) =
      Inr (user @ replicate (MAX_CHAR_USERID - length user) nul)"
    "strncpy (replicate MAX_CHAR_USERPASS nul) (pw @ [nul]) (length pw) =
      Inr (pw @ replicate (MAX_CHAR_USERPASS - length pw) nul)"
    using assms(1,3-5) by (simp_all add: strncpy_exact)
  then have "parse_username_pw (replicate MAX_CHAR_USERID nul) (replicate MAX_CHAR_USERPASS nul)
      (hdr_payload h @ [nul]) (sint (hdr_len h)) =
    Inr (0, user @ replicate (MAX_CHAR_USERID - length user) nul,
         pw @ replicate (MAX_CHAR_USERPASS - length pw) nul)"
    unfolding pay len using str sz assms(2,4,5)
    by (simp add: parse_username_pw_def strchr_append Let_def)
  then show ?thesis using assms(1,3-5) by (auto simp: c_str_replicate)
qed

lemma credentials_roundtrip_witness:
  "\<exists>du dp. parse_username_pw (replicate MAX_CHAR_USERID nul) (replicate MAX_CHAR_USERPASS nul)
      (hdr_payload (fill_username_password sample_header ''bob'' ''pw'') @ [nul])
      (sint (hdr_len (fill_username_password sample_header ''bob'' ''pw''))) = Inr (0, du, dp) \<and>
    c_str dp = Inr ''pw'' \<and>
    c_str du = (if length ''bob'' = MAX_CHAR_USERID then Inl Unterminated_String else Inr ''bob'')"
  by (rule credentials_roundtrip) (simp_all add: nul_def MAX_CHAR_USERID_def MAX_CHAR_USERPASS_def)

end
