(* ===== verification/Credentials.thy ===== *)
theory Credentials
  imports C_Strings
begin

text \<open>
  The credential database of \<open>src/chat-server.c\<close>: \<open>find_uid\<close>, \<open>find_username\<close>,
  \<open>match_user_pw\<close> and \<open>create_user\<close> on the text file \<open>credential.txt\<close>, one line
  \<open>uid name password\<close> for each user. The file is its contents, \<open>None\<close> while it does not exist.
  User names and passwords are the callers' character buffers. \<open>fopen\<close> for reading fails only if there
  is no file, and \<open>fprintf\<close> writes the whole line.
\<close>

section \<open>Reading lines\<close>

abbreviation ERR_GENERIC :: int where "ERR_GENERIC \<equiv> -10"
abbreviation ERR_USERNAME_EXIST :: int where "ERR_USERNAME_EXIST \<equiv> -11"
abbreviation ERR_NEED_LOGIN :: int where "ERR_NEED_LOGIN \<equiv> -12"
abbreviation ERR_OUT_MEM :: int where "ERR_OUT_MEM \<equiv> -13"

text \<open>\<open>fgets(line, size, fd)\<close>: up to \<open>size - 1\<close> characters, stopping after a newline.\<close>

fun take_line :: "nat \<Rightarrow> char list \<Rightarrow> char list" where
  "take_line 0 f = []"
| "take_line (Suc n) [] = []"
| "take_line (Suc n) (c # f) = c # (if c = newline then [] else take_line n f)"

definition fgets :: "nat \<Rightarrow> char list \<Rightarrow> (char list \<times> char list) option" where
  "fgets n f =
     (if f = [] then None
      else Some (take_line (n - 1) f, drop (length (take_line (n - 1) f)) f))"

lemma take_line_Nil [simp]: "take_line n f = [] \<longleftrightarrow> n = 0 \<or> f = []"
  by (cases n; cases f) auto

text \<open>
  The lines that \<open>while (fgets(line, sizeof(line), cre_fd))\<close> goes through, each as the C string
  that its buffer holds.
\<close>

function file_lines :: "char list \<Rightarrow> string list" where
  "file_lines f =
     (case fgets 256 f of
        None \<Rightarrow> []
      | Some (line, rest) \<Rightarrow> takeWhile (\<lambda>c. c \<noteq> nul) line # file_lines rest)"
  by pat_completeness auto
termination
  by (relation "measure length") (auto simp: fgets_def split: if_splits intro!: diff_less)

declare file_lines.simps [simp del]

text \<open>\<open>sscanf(s, "%d", &uid)\<close> leaves the variable alone where there is no number.\<close>

definition sscanf_int :: "string \<Rightarrow> int \<Rightarrow> int" where
  "sscanf_int s uid = (case scan_int s of Some v \<Rightarrow> v | None \<Rightarrow> uid)"

text \<open>\<open>0 == strncmp(buffer, token, n)\<close>, a token being a terminated string.\<close>

abbreviation cmp_token :: "char list \<Rightarrow> string \<Rightarrow> nat \<Rightarrow> bool outcome" where
  "cmp_token buf token n \<equiv> strncmp_eq buf (token @ [nul]) n"

section \<open>Operations\<close>

text \<open>
  The loops carry the variable \<open>uid\<close>, which keeps its value from line to line. A match is printed
  with \<open>%s\<close>, which reads the caller's buffer up to its terminator.
\<close>

fun find_uid_loop :: "char list \<Rightarrow> string list \<Rightarrow> int \<Rightarrow> int outcome" where
  "find_uid_loop username [] uid = Inr ERR_GENERIC"
| "find_uid_loop username (line # ls) uid =
     and_then (deref (strtok line)) (\<lambda>(uid_s, rest).
     let uid = sscanf_int uid_s uid in
     and_then (deref (strtok rest)) (\<lambda>(uname, rest).
     and_then (cmp_token username uname (length uname)) (\<lambda>same.
       if same then and_then (c_str username) (\<lambda>_. Inr uid)
       else find_uid_loop username ls uid)))"

definition find_uid :: "char list option \<Rightarrow> char list \<Rightarrow> int outcome" where
  "find_uid cre_fd username =
     (case cre_fd of
        None \<Rightarrow> Inr ERR_GENERIC
      | Some f \<Rightarrow> find_uid_loop username (file_lines f) 0)"

fun find_username_loop ::
    "u16 \<Rightarrow> char list \<Rightarrow> string list \<Rightarrow> int \<Rightarrow> (int \<times> char list) outcome" where
  "find_username_loop in_id username [] uid = Inr (ERR_GENERIC, username)"
| "find_username_loop in_id username (line # ls) uid =
     and_then (deref (strtok line)) (\<lambda>(uid_s, rest).
     let uid = sscanf_int uid_s uid in
     if uint in_id = uid then
       and_then (deref (strtok rest)) (\<lambda>(uname, rest).
       and_then (strncpy username (uname @ [nul]) MAX_CHAR_USERID) (\<lambda>username.
       and_then (c_str username) (\<lambda>s. Inr (int (length s), username))))
     else find_username_loop in_id username ls uid)"

definition find_username ::
    "char list option \<Rightarrow> u16 \<Rightarrow> char list \<Rightarrow> (int \<times> char list) outcome" where
  "find_username cre_fd in_id username =
     (case cre_fd of
        None \<Rightarrow> Inr (ERR_GENERIC, username)
      | Some f \<Rightarrow> find_username_loop in_id username (file_lines f) 0)"

fun match_user_pw_loop :: "char list \<Rightarrow> char list \<Rightarrow> string list \<Rightarrow> int \<Rightarrow> int outcome" where
  "match_user_pw_loop username password [] uid = Inr ERR_GENERIC"
| "match_user_pw_loop username password (line # ls) uid =
     and_then (deref (strtok line)) (\<lambda>(uid_s, rest).
     let uid = sscanf_int uid_s uid in
     and_then (deref (strtok rest)) (\<lambda>(uname, rest).
     let pw_tok = strtok rest in
     and_then (cmp_token username uname (length uname)) (\<lambda>same.
       if same then
         and_then (deref pw_tok) (\<lambda>(pw, rest).
         and_then (cmp_token password pw (length pw - 1)) (\<lambda>same.
           if same then and_then (c_str username) (\<lambda>_. Inr uid)
           else match_user_pw_loop username password ls uid))
       else match_user_pw_loop username password ls uid)))"

definition match_user_pw :: "char list option \<Rightarrow> char list \<Rightarrow> char list \<Rightarrow> int outcome" where
  "match_user_pw cre_fd username password =
     (case cre_fd of
        None \<Rightarrow> Inr ERR_GENERIC
      | Some f \<Rightarrow> match_user_pw_loop username password (file_lines f) 0)"

text \<open>The loop of \<open>create_user\<close>: whether the name exists, and the line count at the end.\<close>

fun create_user_loop :: "char list \<Rightarrow> string list \<Rightarrow> int \<Rightarrow> (bool \<times> int) outcome" where
  "create_user_loop username [] count = Inr (False, count)"
| "create_user_loop username (line # ls) count =
     (let count = count + 1 in
      and_then (deref (strtok line)) (\<lambda>(_, rest).
      and_then (deref (strtok rest)) (\<lambda>(uname, _).
      and_then (cmp_token username uname (length uname)) (\<lambda>same.
        if same then and_then (c_str username) (\<lambda>_. Inr (True, count))
        else create_user_loop username ls count))))"

text \<open>\<open>printf("%d")\<close>.\<close>

definition print_int :: "int \<Rightarrow> string" where
  "print_int n = (if n < 0 then CHR ''-'' # print_nat (nat (- n)) else print_nat (nat n))"

definition create_user ::
    "bool \<Rightarrow> char list option \<Rightarrow> char list \<Rightarrow> char list \<Rightarrow> (int \<times> char list option) outcome" where
  "create_user fopen_ok cre_fd username password =
     (if \<not> fopen_ok then Inr (ERR_GENERIC, cre_fd)
      else (let f = (case cre_fd of None \<Rightarrow> [] | Some f \<Rightarrow> f) in
        and_then (create_user_loop username (file_lines f) 1) (\<lambda>(exists, count).
          if exists then Inr (ERR_USERNAME_EXIST, Some f)
          else
            and_then (c_str username) (\<lambda>u.
            and_then (c_str password) (\<lambda>p.
            Inr (count, Some (f @ print_int count @ space # u @ space # p @ [newline])))))))"

section \<open>Files the server writes\<close>

type_synonym user = "string \<times> string"

text \<open>A word that survives the file format: no separator, terminator or line end in it.\<close>

definition plain :: "string \<Rightarrow> bool" where
  "plain s \<longleftrightarrow> s \<noteq> [] \<and> space \<notin> set s \<and> newline \<notin> set s \<and> nul \<notin> set s"

definition user_ok :: "user \<Rightarrow> bool" where
  "user_ok u \<longleftrightarrow> plain (fst u) \<and> plain (snd u) \<and>
     length (fst u) < MAX_CHAR_USERID \<and> length (snd u) < MAX_CHAR_USERPASS"

definition cred_line :: "nat \<Rightarrow> user \<Rightarrow> string" where
  "cred_line i u = print_nat i @ space # fst u @ space # snd u @ [newline]"

fun cred_lines :: "nat \<Rightarrow> user list \<Rightarrow> string list" where
  "cred_lines i [] = []"
| "cred_lines i (u # us) = cred_line i u # cred_lines (Suc i) us"

definition cred_file :: "user list \<Rightarrow> char list" where
  "cred_file us = concat (cred_lines 1 us)"

lemma take_line_newline:
  "newline \<notin> set s \<Longrightarrow> length s < n \<Longrightarrow> take_line n (s @ newline # rest) = s @ [newline]"
proof (induction s arbitrary: n)
  case Nil
  then show ?case by (cases n) auto
next
  case (Cons c s)
  then show ?case by (cases n) auto
qed

lemma length_print_nat: "n < 10 ^ Suc k \<Longrightarrow> length (print_nat n) \<le> Suc k"
proof (induction k arbitrary: n)
  case 0
  then show ?case by (simp add: print_nat.simps)
next
  case (Suc k)
  show ?case
  proof (cases "n < 10")
    case True
    then show ?thesis by (simp add: print_nat.simps)
  next
    case False
    have "n div 10 < 10 ^ Suc k" using Suc.prems by (simp add: less_mult_imp_div_less)
    with Suc.IH False show ?thesis by (simp add: print_nat.simps [of n])
  qed
qed

lemma print_nat_plain [simp]: "plain (print_nat n)"
proof -
  have "\<not> is_digit space" "\<not> is_digit newline" "\<not> is_digit nul"
    using is_digit_plain(4-6) by blast+
  then show ?thesis using print_nat_digits [of _ n] print_nat_ne [of n] by (auto simp: plain_def)
qed

lemma plain_seps [simp]:
  assumes "plain s"
  shows "space \<notin> set s" "newline \<notin> set s" "nul \<notin> set s" "s \<noteq> []"
  using assms by (auto simp: plain_def)

lemma user_okD:
  assumes "user_ok u"
  shows "plain (fst u)" "plain (snd u)" "length (fst u) < 8" "length (snd u) < 128"
  using assms by (auto simp: user_ok_def MAX_CHAR_USERID_def MAX_CHAR_USERPASS_def)

lemma sep_chars [simp]:
  "newline \<noteq> space" "space \<noteq> newline" "nul \<noteq> space" "space \<noteq> nul" "nul \<noteq> newline" "newline \<noteq> nul"
  by (simp_all add: newline_def nul_def)

lemma cred_line_read:
  assumes "user_ok u" and "i < 2 ^ 31"
  shows "take_line 255 (cred_line i u @ rest) = cred_line i u" "nul \<notin> set (cred_line i u)"
proof -
  have "length (print_nat i) \<le> 10" using length_print_nat [of i 9] assms(2) by simp
  moreover note U = user_okD [OF assms(1)]
  ultimately have "length (print_nat i @ space # fst u @ space # snd u) < 255" by simp
  then have "take_line 255 ((print_nat i @ space # fst u @ space # snd u) @ newline # rest) =
      (print_nat i @ space # fst u @ space # snd u) @ [newline]"
    using U by (intro take_line_newline) auto
  then show "take_line 255 (cred_line i u @ rest) = cred_line i u"
    by (simp add: cred_line_def)
  show "nul \<notin> set (cred_line i u)" using U by (simp add: cred_line_def)
qed

lemma file_lines_cred:
  assumes "\<forall>u \<in> set us. user_ok u" and "i + length us \<le> 2 ^ 31"
  shows "file_lines (concat (cred_lines i us)) = cred_lines i us"
  using assms
proof (induction us arbitrary: i)
  case Nil
  then show ?case by (simp add: file_lines.simps fgets_def)
next
  case (Cons u us)
  have ne: "cred_line i u \<noteq> []" by (simp add: cred_line_def)
  have r: "take_line 255 (cred_line i u @ concat (cred_lines (Suc i) us)) = cred_line i u"
    "nul \<notin> set (cred_line i u)"
    using cred_line_read [of u i] Cons.prems by auto
  have "file_lines (concat (cred_lines (Suc i) us)) = cred_lines (Suc i) us"
    using Cons.IH Cons.prems by simp
  then show ?case
    using r ne by (subst file_lines.simps) (simp add: fgets_def takeWhile_neq_all)
qed

section \<open>Tokens of a line\<close>

lemma strtok_token:
  assumes "plain t"
  shows "strtok (t @ space # rest) = Some (t, rest)" "strtok (t @ [newline]) = Some (t @ [newline], [])"
proof -
  obtain c cs where t: "t = c # cs" "c \<noteq> space" "space \<notin> set cs"
    using assms unfolding plain_def by (cases t) auto
  show "strtok (t @ space # rest) = Some (t, rest)"
    using t by (simp add: strtok_def)
  have "space \<notin> set (cs @ [newline])" using t by simp
  then have "takeWhile (\<lambda>c. c \<noteq> space) (cs @ [newline]) = cs @ [newline]"
    by (rule takeWhile_neq_all)
  moreover have "dropWhile (\<lambda>c. c \<noteq> space) (cs @ [newline]) = []"
    using t(3) by (auto simp: dropWhile_eq_Nil_conv)
  ultimately show "strtok (t @ [newline]) = Some (t @ [newline], [])"
    using t(1,2) by (simp add: strtok_def)
qed

lemma cred_line_tokens:
  assumes "user_ok u"
  shows "strtok (cred_line i u) = Some (print_nat i, fst u @ space # snd u @ [newline])"
    "strtok (fst u @ space # snd u @ [newline]) = Some (fst u, snd u @ [newline])"
    "strtok (snd u @ [newline]) = Some (snd u @ [newline], [])"
  using user_okD [OF assms] by (simp_all add: cred_line_def strtok_token)

lemma sscanf_print_nat [simp]: "sscanf_int (print_nat i) uid = int i"
  using scan_int_print_nat [of "[]" i] by (simp add: sscanf_int_def)

lemma cmp_token_name:
  assumes "c_str buf = Inr s" and "nul \<notin> set t"
  shows "cmp_token buf t (length t) = Inr (prefix t s)"
    "strncmp_eq buf (t @ [x, nul]) (length t) = Inr (prefix t s)"
proof -
  from assms(1) obtain r where "buf = s @ nul # r" "nul \<notin> set s" by (rule c_strE)
  with assms(2) strncmp_eq_prefix [of s t "length t" r "[nul]"]
    strncmp_eq_prefix [of s t "length t" r "[x, nul]"]
  show "cmp_token buf t (length t) = Inr (prefix t s)"
    "strncmp_eq buf (t @ [x, nul]) (length t) = Inr (prefix t s)" by simp_all
qed

section \<open>The operations on files the server writes\<close>

text \<open>The number of the first user with a property, counting from \<open>i\<close>.\<close>

fun first_id :: "(user \<Rightarrow> bool) \<Rightarrow> nat \<Rightarrow> user list \<Rightarrow> int" where
  "first_id P i [] = ERR_GENERIC"
| "first_id P i (u # us) = (if P u then int i else first_id P (Suc i) us)"

definition cred_rep :: "char list option \<Rightarrow> user list \<Rightarrow> bool" where
  "cred_rep f us \<longleftrightarrow> (f = Some (cred_file us) \<or> f = None \<and> us = []) \<and>
     (\<forall>u \<in> set us. user_ok u) \<and> length us < 2 ^ 31 - 1"

lemma cred_rep_lines:
  "cred_rep (Some f) us \<Longrightarrow> file_lines f = cred_lines 1 us"
  using file_lines_cred [of us 1] by (auto simp: cred_rep_def cred_file_def)

lemma cred_rep_empty: "cred_rep None us \<longleftrightarrow> us = []"
  by (auto simp: cred_rep_def)

lemma cred_rep_none: "cred_rep None []"
  by (simp add: cred_rep_empty)

lemma find_uid_loop_cred:
  assumes "c_str username = Inr s" and "\<forall>u \<in> set us. user_ok u"
  shows "find_uid_loop username (cred_lines i us) uid = Inr (first_id (\<lambda>u. prefix (fst u) s) i us)"
  using assms(2)
proof (induction us arbitrary: i uid)
  case (Cons u us)
  then show ?case
    using user_okD [of u] by (simp add: cred_line_tokens cmp_token_name [OF assms(1)] assms(1))
qed simp

lemma match_user_pw_loop_cred:
  assumes "c_str username = Inr s" and "c_str password = Inr w" and "\<forall>u \<in> set us. user_ok u"
  shows "match_user_pw_loop username password (cred_lines i us) uid =
    Inr (first_id (\<lambda>u. prefix (fst u) s \<and> prefix (snd u) w) i us)"
  using assms(3)
proof (induction us arbitrary: i uid)
  case (Cons u us)
  then show ?case
    using user_okD [of u]
    by (simp add: cred_line_tokens cmp_token_name [OF assms(1)] cmp_token_name [OF assms(2)]
        Let_def assms(1))
qed simp

lemma create_user_loop_cred:
  assumes "c_str username = Inr s" and "\<forall>u \<in> set us. user_ok u"
  shows "\<exists>k. create_user_loop username (cred_lines i us) count =
    Inr (if \<exists>u \<in> set us. prefix (fst u) s then (True, k) else (False, count + int (length us)))"
  using assms(2)
proof (induction us arbitrary: i count)
  case (Cons u us)
  then obtain k where k: "create_user_loop username (cred_lines (Suc i) us) (count + 1) =
      Inr (if \<exists>u \<in> set us. prefix (fst u) s then (True, k) else (False, count + 1 + int (length us)))"
    by (meson list.set_intros(2))
  show ?case
    by (rule exI [of _ "if prefix (fst u) s then count + 1 else k"])
      (use Cons.prems k user_okD [of u] in
        \<open>simp add: cred_line_tokens cmp_token_name [OF assms(1)] Let_def assms(1)\<close>)
qed simp

lemma cred_lines_append:
  "cred_lines i (us @ vs) = cred_lines i us @ cred_lines (i + length us) vs"
  by (induction us arbitrary: i) auto

lemma find_uid_cred:
  assumes "cred_rep f us" and "c_str username = Inr s"
  shows "find_uid f username = Inr (first_id (\<lambda>u. prefix (fst u) s) 1 us)"
  using assms cred_rep_lines find_uid_loop_cred [OF assms(2), of us 1 0]
  by (auto simp: find_uid_def cred_rep_empty cred_rep_def split: option.split)

lemma match_user_pw_cred:
  assumes "cred_rep f us" and "c_str username = Inr s" and "c_str password = Inr w"
  shows "match_user_pw f username password =
    Inr (first_id (\<lambda>u. prefix (fst u) s \<and> prefix (snd u) w) 1 us)"
  using assms cred_rep_lines match_user_pw_loop_cred [OF assms(2,3), of us 1 0]
  by (auto simp: match_user_pw_def cred_rep_empty cred_rep_def split: option.split)

lemma create_user_cred:
  assumes "cred_rep f us" and "c_str username = Inr s" and "c_str password = Inr w"
  shows "create_user True f username password =
    Inr (if \<exists>u \<in> set us. prefix (fst u) s then (ERR_USERNAME_EXIST, f)
         else (int (length us) + 1, Some (cred_file (us @ [(s, w)]))))"
proof -
  define g where "g = (case f of None \<Rightarrow> [] | Some f \<Rightarrow> f)"
  have g: "g = cred_file us" "f = None \<Longrightarrow> us = []" "f = None \<or> f = Some g"
    using assms(1) by (auto simp: g_def cred_rep_def cred_file_def split: option.splits)
  have ok: "\<forall>u \<in> set us. user_ok u" using assms(1) by (simp add: cred_rep_def)
  have "file_lines g = cred_lines 1 us"
    using file_lines_cred [of us 1] assms(1) by (simp add: g(1) cred_rep_def cred_file_def)
  moreover obtain k where "create_user_loop username (cred_lines 1 us) 1 =
      Inr (if \<exists>u \<in> set us. prefix (fst u) s then (True, k) else (False, 1 + int (length us)))"
    using create_user_loop_cred [OF assms(2) ok] by blast
  moreover have "cred_file (us @ [(s, w)]) =
      g @ print_int (1 + int (length us)) @ space # s @ space # w @ [newline]"
    by (simp add: g(1) cred_file_def cred_lines_append cred_line_def print_int_def nat_add_distrib)
  ultimately show ?thesis
    using assms(2,3) g(2,3) by (auto simp: create_user_def g_def [symmetric] add.commute)
qed

lemma find_username_loop_cred:
  assumes "\<forall>u \<in> set us. user_ok u" and "length username = MAX_CHAR_USERID"
  shows "find_username_loop in_id username (cred_lines i us) uid =
    Inr (if i \<le> unat in_id \<and> unat in_id < i + length us
         then (let n = fst (us ! (unat in_id - i))
               in (int (length n), n @ replicate (MAX_CHAR_USERID - length n) nul))
         else (ERR_GENERIC, username))"
  using assms(1)
proof (induction us arbitrary: i uid)
  case Nil
  then show ?case by auto
next
  case (Cons u us)
  have id: "uint in_id = int i \<longleftrightarrow> unat in_id = i" by (metis nat_int of_nat_unat unat_eq_nat_uint)
  have U: "user_ok u" using Cons.prems by simp
  note T = cred_line_tokens [OF U]
  show ?case
  proof (cases "unat in_id = i")
    case True
    have "strncpy username (fst u @ [nul]) MAX_CHAR_USERID =
        Inr (fst u @ replicate (MAX_CHAR_USERID - length (fst u)) nul)"
      using user_okD [OF U] assms(2) by (simp add: strncpy_def MAX_CHAR_USERID_def Let_def)
    then show ?thesis
      using T id True user_okD [OF U]
      by (simp add: c_str_replicate MAX_CHAR_USERID_def Let_def)
  next
    case False
    then show ?thesis
      using T id Cons.IH [of "Suc i" "int i"] Cons.prems
      by (auto simp: Let_def nth_Cons')
  qed
qed

declare plain_seps [simp del]

section \<open>The store as an interface\<close>

text \<open>Any sequence of requests to create a user.\<close>

fun create_all ::
    "('s \<Rightarrow> string \<Rightarrow> string \<Rightarrow> (int \<times> 's) outcome) \<Rightarrow> (string \<times> string) list \<Rightarrow> 's \<Rightarrow> 's outcome"
  where
  "create_all create [] s = Inr s"
| "create_all create (r # rs) s =
     and_then (create s (fst r) (snd r)) (\<lambda>(_, s). create_all create rs s)"

text \<open>No user would have been refused because of an earlier one.\<close>

definition ordered :: "(user \<Rightarrow> string \<Rightarrow> bool) \<Rightarrow> user list \<Rightarrow> bool" where
  "ordered taken us \<longleftrightarrow> (\<forall>j < length us. \<forall>i < j. \<not> taken (us ! i) (fst (us ! j)))"

text \<open>
  What the login handlers rely on: a store that represents a list of users, numbers a new user
  after the last one, and answers a login with the first user that accepts the given credentials.
  \<open>taken\<close> is the test that refuses a new name.
\<close>

locale user_store =
  fixes rep :: "'s \<Rightarrow> user list \<Rightarrow> bool"
    and room :: nat
    and create :: "'s \<Rightarrow> string \<Rightarrow> string \<Rightarrow> (int \<times> 's) outcome"
    and login :: "'s \<Rightarrow> string \<Rightarrow> string \<Rightarrow> int outcome"
    and taken :: "user \<Rightarrow> string \<Rightarrow> bool"
    and accepts :: "user \<Rightarrow> string \<Rightarrow> string \<Rightarrow> bool"
  assumes create_new: "rep s us \<Longrightarrow> user_ok (n, p) \<Longrightarrow> length us < room \<Longrightarrow>
      \<forall>u \<in> set us. \<not> taken u n \<Longrightarrow>
      \<exists>s'. create s n p = Inr (int (length us) + 1, s') \<and> rep s' (us @ [(n, p)])"
    and create_taken: "rep s us \<Longrightarrow> user_ok (n, p) \<Longrightarrow> u \<in> set us \<Longrightarrow> taken u n \<Longrightarrow>
      create s n p = Inr (ERR_USERNAME_EXIST, s)"
    and login_first: "rep s us \<Longrightarrow> user_ok (n, p) \<Longrightarrow>
      login s n p = Inr (first_id (\<lambda>u. accepts u n p) 1 us)"
    and accepts_self: "accepts (n, p) n p"
    and accepts_taken: "accepts u n p \<Longrightarrow> taken u n"
begin

lemma first_id_append:
  "first_id P i (us @ vs) =
    (if \<exists>u \<in> set us. P u then first_id P i us else first_id P (i + length us) vs)"
  by (induction us arbitrary: i) auto

lemma first_id_bounds:
  "first_id P i us = ERR_GENERIC \<and> (\<forall>u \<in> set us. \<not> P u) \<or>
    int i \<le> first_id P i us \<and> first_id P i us < int i + int (length us) \<and> (\<exists>u \<in> set us. P u)"
proof (induction us arbitrary: i)
  case (Cons u us)
  then show ?case using Cons.IH [of "Suc i"] by (cases "P u") auto
qed simp

lemma login_after_create:
  assumes "rep s us" and "user_ok (n, p)" and "\<forall>u \<in> set us. \<not> taken u n"
    and "rep s' (us @ [(n, p)])"
  shows "login s' n p = Inr (int (length us) + 1)"
  using assms accepts_taken [of _ n p] login_first [OF assms(4,2)] accepts_self [of n p]
  by (auto simp: first_id_append)

lemma login_kept:
  assumes "rep s us" and "rep s' (us @ [u])" and "user_ok (n, p)"
    and "login s n p = Inr k" and "0 < k"
  shows "login s' n p = Inr k"
proof -
  have k: "k = first_id (\<lambda>u. accepts u n p) 1 us"
    using assms(1,3,4) login_first by auto
  have "\<exists>v \<in> set us. accepts v n p"
    using first_id_bounds [of "\<lambda>u. accepts u n p" 1 us] assms(5) k by auto
  then show ?thesis
    using k login_first [OF assms(2,3)] by (simp add: first_id_append)
qed

lemma ordered_append:
  "ordered taken us \<Longrightarrow> \<forall>u \<in> set us. \<not> taken u n \<Longrightarrow> ordered taken (us @ [(n, p)])"
  by (auto simp: ordered_def nth_append less_Suc_eq)

lemma create_all_rep:
  assumes "rep s us" and "ordered taken us" and "\<forall>r \<in> set rs. user_ok r" and "length us + length rs \<le> room"
  shows "\<exists>s' vs. create_all create rs s = Inr s' \<and> rep s' (us @ vs) \<and>
    ordered taken (us @ vs) \<and> subseq vs rs"
  using assms
proof (induction rs arbitrary: s us)
  case Nil
  then show ?case by (intro exI [of _ s] exI [of _ "[]"]) simp
next
  case (Cons r rs)
  obtain n p where r: "r = (n, p)" by (cases r)
  show ?case
  proof (cases "\<exists>u \<in> set us. taken u n")
    case True
    with Cons.prems r have "create s n p = Inr (ERR_USERNAME_EXIST, s)"
      by (auto intro: create_taken)
    moreover from Cons.IH [of s us] Cons.prems obtain s' vs where
      "create_all create rs s = Inr s'" "rep s' (us @ vs)" "ordered taken (us @ vs)" "subseq vs rs" by auto
    ultimately show ?thesis using r by (auto intro!: exI [of _ vs])
  next
    case False
    with Cons.prems r create_new [of s us n p] obtain s1 where
      s1: "create s n p = Inr (int (length us) + 1, s1)" "rep s1 (us @ [(n, p)])" by auto
    moreover have "ordered taken (us @ [(n, p)])"
      using False Cons.prems(2) by (simp add: ordered_append)
    ultimately obtain s' vs where
      "create_all create rs s1 = Inr s'" "rep s' ((us @ [(n, p)]) @ vs)" "ordered taken ((us @ [(n, p)]) @ vs)"
      "subseq vs rs"
      using Cons.IH [of s1 "us @ [(n, p)]"] Cons.prems by auto
    with s1 r show ?thesis
      by (intro exI [of _ s'] exI [of _ "(n, p) # vs"]) simp
  qed
qed

lemma ordered_login:
  assumes "rep s us" and "ordered taken us" and "\<forall>u \<in> set us. user_ok u" and "i < length us"
  shows "login s (fst (us ! i)) (snd (us ! i)) = Inr (int i + 1)"
proof -
  let ?u = "us ! i"
  have "\<not> accepts v (fst ?u) (snd ?u)" if "v \<in> set (take i us)" for v
  proof -
    from that obtain j where "j < i" "v = us ! j" using assms(4) by (auto simp: in_set_conv_nth)
    then show ?thesis using assms(2,4) accepts_taken unfolding ordered_def by blast
  qed
  then have "\<not> (\<exists>v \<in> set (take i us). accepts v (fst ?u) (snd ?u))" by blast
  moreover have "us = take i us @ ?u # drop (Suc i) us" using assms(4) by (rule id_take_nth_drop)
  moreover have "accepts ?u (fst ?u) (snd ?u)" using accepts_self [of "fst ?u" "snd ?u"] by simp
  ultimately have "first_id (\<lambda>u. accepts u (fst ?u) (snd ?u)) 1 us = int i + 1"
    using assms(4) first_id_append [of _ 1 "take i us" "?u # drop (Suc i) us"] by simp
  then show ?thesis using login_first [OF assms(1), of "fst ?u" "snd ?u"] assms(3,4) by simp
qed

end

text \<open>
  The handlers' zeroed buffers with a name and a password copied to the front, and the operations
  of the code on them.
\<close>

definition name_buf :: "string \<Rightarrow> char list" where
  "name_buf s = s @ replicate (MAX_CHAR_USERID - length s) nul"

definition pw_buf :: "string \<Rightarrow> char list" where
  "pw_buf s = s @ replicate (MAX_CHAR_USERPASS - length s) nul"

definition cred_create :: "char list option \<Rightarrow> string \<Rightarrow> string \<Rightarrow> (int \<times> char list option) outcome" where
  "cred_create f n p = create_user True f (name_buf n) (pw_buf p)"

definition cred_login :: "char list option \<Rightarrow> string \<Rightarrow> string \<Rightarrow> int outcome" where
  "cred_login f n p = match_user_pw f (name_buf n) (pw_buf p)"

definition MAX_USERS :: nat where
  "MAX_USERS = 2 ^ 31 - 2"

lemma c_str_bufs:
  assumes "user_ok (n, p)"
  shows "c_str (name_buf n) = Inr n" "c_str (pw_buf p) = Inr p"
  using user_okD [OF assms]
  by (simp_all add: plain_seps name_buf_def pw_buf_def c_str_replicate MAX_CHAR_USERID_def MAX_CHAR_USERPASS_def)

lemma cred_create_new:
  assumes "cred_rep f us" and "user_ok (n, p)" and "length us < MAX_USERS"
    and "\<forall>u \<in> set us. \<not> prefix (fst u) n"
  shows "\<exists>f'. cred_create f n p = Inr (int (length us) + 1, f') \<and> cred_rep f' (us @ [(n, p)])"
  using assms create_user_cred [OF assms(1) c_str_bufs [OF assms(2)]]
  by (auto simp: cred_create_def cred_rep_def MAX_USERS_def)

lemma cred_create_taken:
  assumes "cred_rep f us" and "user_ok (n, p)" and "u \<in> set us" and "prefix (fst u) n"
  shows "cred_create f n p = Inr (ERR_USERNAME_EXIST, f)"
  using assms(3,4) create_user_cred [OF assms(1) c_str_bufs [OF assms(2)]]
  by (auto simp: cred_create_def)

lemma cred_login_first:
  assumes "cred_rep f us" and "user_ok (n, p)"
  shows "cred_login f n p = Inr (first_id (\<lambda>u. prefix (fst u) n \<and> prefix (snd u) p) 1 us)"
  using match_user_pw_cred [OF assms(1) c_str_bufs [OF assms(2)]] by (simp add: cred_login_def)

interpretation cred: user_store cred_rep MAX_USERS cred_create cred_login
    "\<lambda>u n. prefix (fst u) n" "\<lambda>u n p. prefix (fst u) n \<and> prefix (snd u) p"
  by unfold_locales
    (rule cred_create_new cred_create_taken cred_login_first, assumption+ | simp)+

lemma find_username_cred:
  assumes "cred_rep f us" and "length buf = MAX_CHAR_USERID"
  shows "find_username f uid buf =
    Inr (if 1 \<le> unat uid \<and> unat uid \<le> length us
         then (int (length (fst (us ! (unat uid - 1)))), name_buf (fst (us ! (unat uid - 1))))
         else (ERR_GENERIC, buf))"
proof (cases f)
  case None
  with assms show ?thesis by (auto simp: find_username_def cred_rep_empty)
next
  case (Some g)
  with assms(1) have "file_lines g = cred_lines 1 us" "\<forall>u \<in> set us. user_ok u"
    by (auto simp: cred_rep_lines cred_rep_def)
  with Some find_username_loop_cred [OF _ assms(2), of us uid 1 0] show ?thesis
    by (auto simp: find_username_def Let_def name_buf_def)
qed

section \<open>Properties\<close>

definition sample_users :: "user list" where
  "sample_users = [(''ann'', ''x''), (''bob'', ''pw'')]"

lemma sample_rep: "cred_rep (Some (cred_file sample_users)) sample_users"
  by (simp add: cred_rep_def sample_users_def user_ok_def plain_def newline_def nul_def
      MAX_CHAR_USERID_def MAX_CHAR_USERPASS_def)

lemma sample_ok: "user_ok (''cy'', ''z'')" "user_ok (''ann'', ''x'')" "user_ok (''bob'', ''pw'')"
  "user_ok (''bobby'', ''pw2'')"
  by (simp_all add: user_ok_def plain_def newline_def nul_def
      MAX_CHAR_USERID_def MAX_CHAR_USERPASS_def)

lemma sample_create:
  "create_user True (Some (cred_file sample_users)) (name_buf ''cy'') (pw_buf ''z'') =
    Inr (3, Some (cred_file (sample_users @ [(''cy'', ''z'')])))"
  using create_user_cred [OF sample_rep c_str_bufs [OF sample_ok(1)]]
  by (simp add: sample_users_def)

text \<open>\<open>create_user\<close> refuses a name exactly when a registered name is a prefix of it, and then
  leaves the file alone; otherwise it appends the user under the next number, with which the new
  name and password then log in and by which \<open>find_uid\<close> finds the name.\<close>

lemma create_user_registers:
  assumes "cred_rep f us" and "user_ok (n, p)" and "length us < MAX_USERS"
    and "create_user True f (name_buf n) (pw_buf p) = Inr (r, f')"
  shows "if \<exists>u \<in> set us. prefix (fst u) n then r = ERR_USERNAME_EXIST \<and> f' = f
    else r = int (length us) + 1 \<and> cred_rep f' (us @ [(n, p)]) \<and>
      match_user_pw f' (name_buf n) (pw_buf p) = Inr r \<and> find_uid f' (name_buf n) = Inr r"
proof (cases "\<exists>u \<in> set us. prefix (fst u) n")
  case True
  then show ?thesis
    using cred_create_taken [OF assms(1,2)] assms(4) by (auto simp: cred_create_def)
next
  case False
  then have rep: "r = int (length us) + 1" "cred_rep f' (us @ [(n, p)])"
    using cred_create_new [OF assms(1-3)] assms(4) by (auto simp: cred_create_def)
  then have "find_uid f' (name_buf n) = Inr r"
    using find_uid_cred [OF _ c_str_bufs(1) [OF assms(2)]] False by (auto simp: cred.first_id_append)
  with rep False show ?thesis
    using cred.login_after_create [OF assms(1,2) _ rep(2)] by (simp add: cred_login_def)
qed

lemma create_user_registers_witness:
  "if \<exists>u \<in> set sample_users. prefix (fst u) ''cy''
    then (3::int) = ERR_USERNAME_EXIST \<and>
      Some (cred_file (sample_users @ [(''cy'', ''z'')])) = Some (cred_file sample_users)
    else (3::int) = int (length sample_users) + 1 \<and>
      cred_rep (Some (cred_file (sample_users @ [(''cy'', ''z'')]))) (sample_users @ [(''cy'', ''z'')]) \<and>
      match_user_pw (Some (cred_file (sample_users @ [(''cy'', ''z'')])))
        (name_buf ''cy'') (pw_buf ''z'') = Inr 3 \<and>
      find_uid (Some (cred_file (sample_users @ [(''cy'', ''z'')]))) (name_buf ''cy'') = Inr 3"
  by (rule create_user_registers [OF sample_rep sample_ok(1) _ sample_create])
    (simp add: sample_users_def MAX_USERS_def)

text \<open>Creating a user keeps every login: credentials that were accepted before are accepted with
  the same user id afterwards.\<close>

lemma create_user_keeps_logins:
  assumes "cred_rep f us" and "user_ok (n, p)" and "length us < MAX_USERS"
    and "create_user True f (name_buf n) (pw_buf p) = Inr (r, f')"
    and "user_ok (m, w)" and "match_user_pw f (name_buf m) (pw_buf w) = Inr k" and "0 < k"
  shows "match_user_pw f' (name_buf m) (pw_buf w) = Inr k"
proof (cases "\<exists>u \<in> set us. prefix (fst u) n")
  case True
  then show ?thesis
    using cred_create_taken [OF assms(1,2)] assms(4,6) by (auto simp: cred_create_def)
next
  case False
  then have "cred_rep f' (us @ [(n, p)])"
    using cred_create_new [OF assms(1-3)] assms(4) by (auto simp: cred_create_def)
  with cred.login_kept [OF assms(1) _ assms(5) _ assms(7)] assms(6) show ?thesis
    by (auto simp: cred_login_def)
qed

lemma create_user_keeps_logins_witness:
  "match_user_pw (Some (cred_file (sample_users @ [(''cy'', ''z'')])))
    (name_buf ''bob'') (pw_buf ''pw'') = Inr 2"
proof (rule create_user_keeps_logins [OF sample_rep sample_ok(1) _ sample_create sample_ok(3)])
  show "match_user_pw (Some (cred_file sample_users)) (name_buf ''bob'') (pw_buf ''pw'') = Inr 2"
    using match_user_pw_cred [OF sample_rep c_str_bufs [OF sample_ok(3)]]
    by (simp add: sample_users_def)
qed (simp_all add: sample_users_def MAX_USERS_def)

text \<open>C14: After any sequence of requests to create users, starting without a file, no call faults,
  the users in the file are a subsequence of the requests, and each of them logs in with their own
  name and password under their own number.\<close>

theorem registered_users_login:
  assumes "\<forall>r \<in> set rs. user_ok r" and "length rs \<le> MAX_USERS"
  shows "\<exists>f us. create_all cred_create rs None = Inr f \<and> cred_rep f us \<and> subseq us rs \<and>
    (\<forall>i < length us. match_user_pw f (name_buf (fst (us ! i))) (pw_buf (snd (us ! i))) =
      Inr (int i + 1))"
proof -
  have "ordered (\<lambda>u n. prefix (fst u) n) []" by (simp add: ordered_def)
  then obtain f us where f: "create_all cred_create rs None = Inr f" "cred_rep f us" "ordered (\<lambda>u n. prefix (fst u) n) us"
      "subseq us rs"
    using cred.create_all_rep [OF cred_rep_none _ assms(1)] assms(2) by auto
  then have "\<forall>u \<in> set us. user_ok u" by (simp add: cred_rep_def)
  with f show ?thesis
    using cred.ordered_login [OF f(2,3)] by (auto simp: cred_login_def)
qed

theorem registered_users_login_witness:
  "\<exists>f us. create_all cred_create sample_users None = Inr f \<and> cred_rep f us \<and> subseq us sample_users \<and>
    (\<forall>i < length us. match_user_pw f (name_buf (fst (us ! i))) (pw_buf (snd (us ! i))) =
      Inr (int i + 1))"
  by (rule registered_users_login)
    (use sample_ok in \<open>simp_all add: sample_users_def MAX_USERS_def\<close>)

text \<open>The comparisons of \<open>match_user_pw\<close> stop at the end of what the file holds: whoever knows
  a registered name and password also logs in with anything appended to either, possibly as another
  user, and any password that starts with the registered one is accepted.\<close>

lemma match_user_pw_prefix:
  assumes "cred_rep f us" and "(n, p) \<in> set us" and "user_ok (n @ x, p @ y)"
  shows "\<exists>k. match_user_pw f (name_buf (n @ x)) (pw_buf (p @ y)) = Inr k \<and> 0 < k \<and>
    k \<le> int (length us)"
proof -
  let ?P = "\<lambda>u. prefix (fst u) (n @ x) \<and> prefix (snd u) (p @ y)"
  have "\<exists>u \<in> set us. ?P u" using assms(2) by (auto intro!: bexI [of _ "(n, p)"])
  then have "0 < first_id ?P 1 us \<and> first_id ?P 1 us \<le> int (length us)"
    using cred.first_id_bounds [of ?P 1 us] by auto
  then show ?thesis using cred_login_first [OF assms(1,3)] by (simp add: cred_login_def)
qed

lemma match_user_pw_prefix_witness:
  "\<exists>k. match_user_pw (Some (cred_file sample_users)) (name_buf (''bob'' @ ''by'')) (pw_buf (''pw'' @ ''2'')) =
    Inr k \<and> 0 < k \<and> k \<le> int (length sample_users)"
  by (rule match_user_pw_prefix [OF sample_rep])
    (use sample_ok(4) in \<open>simp_all add: sample_users_def\<close>)

end
