(* ===== verification/Server.thy ===== *)
theory Server
  imports Hashmap Thread_Queue Wire Credentials
begin

text \<open>
  The server of \<open>src/chat-server.c\<close>: its global state (groups, file counter, table of active
  users), the data and sockets of the connected clients, the files in its directory, one definition
  per command of \<open>client_thread_function\<close>, the loop body that reads and dispatches a packet, and
  the end of a client thread. Each command is one step; theory \<open>Group_Races\<close> takes the commands that
  change groups apart. Printing to the terminal is left out, except that printing a buffer
  with \<open>%s\<close> needs its terminator.
\<close>

section \<open>State\<close>

definition GROUP_NUM_MAX :: nat where "GROUP_NUM_MAX = 255"

text \<open>\<open>client_thread_data_t\<close>, and the local variable \<open>file_id\<close> of the client's thread.\<close>

record client_thread_data =
  cl_connfd :: nat
  cl_message_queue :: threadqueue
  cl_uid :: u16
  cl_username :: "char list"
  cl_file_id :: int

text \<open>
  A group is the list of its members, \<open>[]\<close> for the null pointer. \<open>sv_data\<close> is the heap of
  \<open>client_thread_data\<close>, by pointer; \<open>sv_socks\<close> the open descriptors.
\<close>

record server =
  sv_group_cnt :: nat
  sv_groups :: "u16 list list"
  sv_file_cnt :: int
  sv_active :: "nat hashmap_map"
  sv_data :: "nat \<rightharpoonup> client_thread_data"
  sv_socks :: "nat \<rightharpoonup> socket"
  sv_files :: "string \<rightharpoonup> char list"

text \<open>
  What a command meets in its environment: which allocations succeed, whether files can be opened
  for writing, and the contents of uninitialised memory (the header on the stack of
  \<open>read_main_header\<close>, its payload, and the tokens of the two calls of \<open>split\<close>).
\<close>

record env =
  en_malloc :: "nat \<Rightarrow> bool"
  en_calloc :: "nat \<Rightarrow> bool"
  en_fopen :: bool
  en_stack :: "char list"
  en_junk :: "nat \<Rightarrow> char"
  en_split :: "nat \<Rightarrow> nat \<Rightarrow> nat \<Rightarrow> char"

text \<open>File names are relative to the directory of the server; a leading \<open>./\<close> changes nothing.\<close>

definition norm_path :: "string \<Rightarrow> string" where
  "norm_path s = (if take 2 s = ''./'' then drop 2 s else s)"

definition CREDENTIAL_FILE_NAME :: string where "CREDENTIAL_FILE_NAME = ''./credential.txt''"
definition ACTIVE_USER_FILE_NAME :: string where "ACTIVE_USER_FILE_NAME = ''./active_name.txt''"

definition file_of :: "server \<Rightarrow> string \<Rightarrow> char list option" where
  "file_of sv name = sv_files sv (norm_path name)"

definition set_file :: "string \<Rightarrow> char list option \<Rightarrow> server \<Rightarrow> server" where
  "set_file name content sv = sv\<lparr>sv_files := (sv_files sv)(norm_path name := content)\<rparr>"

text \<open>
  The socket behind a descriptor. On a descriptor that is not open every read and write fails; a
  command meets at most two such reads, and does not look at what its writes return.
\<close>

definition closed_socket :: socket where
  "closed_socket = \<lparr>sk_in = [Rd_Error, Rd_Error], sk_accept = [Wr_Error], sk_sent = []\<rparr>"

definition sock_of :: "server \<Rightarrow> nat \<Rightarrow> socket" where
  "sock_of sv fd = (case sv_socks sv fd of None \<Rightarrow> closed_socket | Some s \<Rightarrow> s)"

definition put_sock :: "nat \<Rightarrow> socket \<Rightarrow> server \<Rightarrow> server" where
  "put_sock fd s sv = sv\<lparr>sv_socks := (sv_socks sv)(fd := map_option (\<lambda>_. s) (sv_socks sv fd))\<rparr>"

definition load_client :: "server \<Rightarrow> nat \<Rightarrow> client_thread_data outcome" where
  "load_client sv p = (case sv_data sv p of None \<Rightarrow> Inl Use_After_Free | Some c \<Rightarrow> Inr c)"

section \<open>Groups\<close>

definition group_at :: "server \<Rightarrow> u8 \<Rightarrow> u16 list outcome" where
  "group_at sv gid =
     (if unat gid < length (sv_groups sv) then Inr (sv_groups sv ! unat gid) else Inl Out_Of_Bounds)"

fun find_member :: "u16 \<Rightarrow> u16 list \<Rightarrow> int" where
  "find_member uid [] = ERR_GENERIC"
| "find_member uid (u # us) = (if u = uid then 0 else find_member uid us)"

definition check_user_in_group :: "server \<Rightarrow> u16 \<Rightarrow> u8 \<Rightarrow> int outcome" where
  "check_user_in_group sv uid gid = and_then (group_at sv gid) (\<lambda>g. Inr (find_member uid g))"

text \<open>\<open>group_add_tail\<close> walks to the last node; on an empty group it dereferences the null head.\<close>

fun group_add_tail :: "bool \<Rightarrow> u16 list \<Rightarrow> u16 \<Rightarrow> (int \<times> u16 list) outcome" where
  "group_add_tail malloc_ok [] uid = Inl Null_Pointer"
| "group_add_tail malloc_ok [x] uid = Inr (if malloc_ok then (0, [x, uid]) else (-1, [x]))"
| "group_add_tail malloc_ok (x # y # ys) uid =
     and_then (group_add_tail malloc_ok (y # ys) uid) (\<lambda>(r, g). Inr (r, x # g))"

abbreviation NODE_SIZE :: nat where "NODE_SIZE \<equiv> 16"

definition add_user_to_group :: "env \<Rightarrow> u16 \<Rightarrow> u8 \<Rightarrow> server \<Rightarrow> (int \<times> server) outcome" where
  "add_user_to_group env uid gid sv =
     and_then (group_at sv gid) (\<lambda>g.
     and_then (group_add_tail (en_malloc env NODE_SIZE) g uid) (\<lambda>(r, g').
     Inr (r, sv\<lparr>sv_groups := (sv_groups sv)[unat gid := g']\<rparr>)))"

text \<open>\<open>while (groups[group_cnt] != NULL) group_cnt++\<close>\<close>

function free_group :: "u16 list list \<Rightarrow> nat \<Rightarrow> nat outcome" where
  "free_group groups cnt =
     (if length groups \<le> cnt then Inl Out_Of_Bounds
      else if groups ! cnt \<noteq> [] then free_group groups (cnt + 1)
      else Inr cnt)"
  by pat_completeness auto
termination
  by (relation "measure (\<lambda>(groups, cnt). length groups - cnt)") auto

declare free_group.simps [simp del]

section \<open>Sending\<close>

text \<open>A code in the first byte of a payload, cast to \<open>uint8_t\<close>.\<close>

definition code_byte :: "int \<Rightarrow> char" where
  "code_byte e = char_of (nat (e mod 256))"

definition new_packet :: "env \<Rightarrow> u8 \<Rightarrow> u8 \<Rightarrow> u16 \<Rightarrow> u32 \<Rightarrow> mainhdr outcome" where
  "new_packet env cmd gid uid len =
     deref (create_and_fill_hdr (en_malloc env (HDR_SIZE + unat len + 1)) cmd gid uid len (en_junk env))"

definition set_code :: "int \<Rightarrow> mainhdr \<Rightarrow> mainhdr" where
  "set_code e h = h\<lparr>hdr_payload := (hdr_payload h)[0 := code_byte e]\<rparr>"

text \<open>\<open>send_main_header\<close> on a descriptor; on one that is closed the write fails.\<close>

definition send_on :: "mainhdr \<Rightarrow> nat \<Rightarrow> server \<Rightarrow> (int \<times> server) outcome" where
  "send_on h fd sv =
     (case sv_socks sv fd of
        None \<Rightarrow> Inr (1, sv)
      | Some s \<Rightarrow> and_then (send_main_header h s) (\<lambda>(r, s').
          Inr (r, sv\<lparr>sv_socks := (sv_socks sv)(fd \<mapsto> s')\<rparr>)))"

definition reply :: "nat \<Rightarrow> mainhdr \<Rightarrow> server \<Rightarrow> server outcome" where
  "reply p h sv =
     and_then (load_client sv p) (\<lambda>c. and_then (send_on h (cl_connfd c) sv) (\<lambda>(_, sv). Inr sv))"

text \<open>\<open>malloc_ok\<close>: there is memory for the copy of the packet; the null pointer of a failed call goes to
  \<open>memcpy\<close>.\<close>

fun forward_loop :: "bool \<Rightarrow> mainhdr \<Rightarrow> u16 list \<Rightarrow> server \<Rightarrow> server outcome" where
  "forward_loop malloc_ok h [] sv = Inr sv"
| "forward_loop malloc_ok h (u # us) sv =
     and_then (hashmap_get (sv_active sv) (ucast u)) (\<lambda>(status, data).
       if status \<noteq> MAP_OK then forward_loop malloc_ok h us sv
       else if \<not> malloc_ok then Inl Null_Pointer
       else
         and_then (deref data) (\<lambda>p.
         and_then (load_client sv p) (\<lambda>c.
         and_then (send_on (h\<lparr>hdr_payload := take (unat (hdr_len h)) (hdr_payload h)\<rparr>)
                     (cl_connfd c) sv) (\<lambda>(_, sv).
         forward_loop malloc_ok h us sv))))"

definition forward_to_group :: "env \<Rightarrow> u8 \<Rightarrow> mainhdr \<Rightarrow> server \<Rightarrow> server outcome" where
  "forward_to_group env gid h sv =
     and_then (group_at sv gid) (\<lambda>g. forward_loop (en_malloc env (HDR_SIZE + unat (hdr_len h))) h g sv)"

section \<open>The list of active users\<close>

text \<open>
  The callback writes to the file that \<open>acc\<close> holds. A stale pointer in the table is a fault of the
  accumulated text.
\<close>

definition active_socket_walk ::
    "server \<Rightarrow> string outcome \<Rightarrow> nat option \<Rightarrow> int \<times> string outcome" where
  "active_socket_walk sv acc value =
     (0, and_then acc (\<lambda>text.
         and_then (deref value) (\<lambda>p.
         and_then (load_client sv p) (\<lambda>data.
         and_then (c_str (cl_username data)) (\<lambda>s. Inr (text @ s @ '','')))))) "

definition get_active_users_str :: "env \<Rightarrow> server \<Rightarrow> (char list \<times> server) outcome" where
  "get_active_users_str env sv =
     (if \<not> en_fopen env \<or> \<not> en_malloc env 1024 then Inl Null_Pointer
      else and_then (hashmap_iterate (sv_active sv) (active_socket_walk sv) (Inr []))
        (\<lambda>(_, acc). and_then acc (\<lambda>text.
          let line = (case fgets 1024 text of None \<Rightarrow> [] | Some (line, _) \<Rightarrow> line)
          in Inr (line @ replicate (1024 - length line) nul,
                  set_file ACTIVE_USER_FILE_NAME (Some text) sv))))"

section \<open>Commands\<close>

definition zero_name :: "char list" where "zero_name = replicate MAX_CHAR_USERID nul"
definition zero_pw :: "char list" where "zero_pw = replicate MAX_CHAR_USERPASS nul"

definition handle_usr_create :: "env \<Rightarrow> nat \<Rightarrow> mainhdr \<Rightarrow> server \<Rightarrow> server outcome" where
  "handle_usr_create env p recv sv =
     and_then (new_packet env (hdr_cmd recv) 0 0 1) (\<lambda>send.
     and_then (parse_username_pw zero_name zero_pw (hdr_payload recv) (sint (hdr_len recv)))
       (\<lambda>(_, username, password).
     and_then (c_str username) (\<lambda>_. and_then (c_str password) (\<lambda>_.
     and_then (create_user (en_fopen env) (file_of sv CREDENTIAL_FILE_NAME) username password)
       (\<lambda>(status, f).
     let sv = set_file CREDENTIAL_FILE_NAME f sv in
     and_then
       (if status > 0 then
          and_then (match_user_pw (file_of sv CREDENTIAL_FILE_NAME) username password) (\<lambda>new_uid.
          Inr (set_code 0 (send\<lparr>hdr_uid := of_int new_uid\<rparr>)))
        else Inr (set_code ERR_USERNAME_EXIST send))
       (\<lambda>send. reply p send sv))))))"

definition handle_usr_login :: "env \<Rightarrow> nat \<Rightarrow> mainhdr \<Rightarrow> server \<Rightarrow> server outcome" where
  "handle_usr_login env p recv sv =
     and_then (parse_username_pw zero_name zero_pw (hdr_payload recv) (sint (hdr_len recv)))
       (\<lambda>(_, username, password).
     and_then (match_user_pw (file_of sv CREDENTIAL_FILE_NAME) username password) (\<lambda>status.
     if status > 0 then
       and_then (load_client sv p) (\<lambda>data.
       and_then (strncpy (cl_username data) username MAX_CHAR_USERID) (\<lambda>name.
       and_then (new_packet env USR_LOGIN 0 (of_int status) 1) (\<lambda>send.
       and_then (hashmap_put (en_calloc env) (sv_active sv) (of_int status) (Some p))
         (\<lambda>(_, active).
       reply p (set_code 0 send)
         (sv\<lparr>sv_data := (sv_data sv)(p \<mapsto> data\<lparr>cl_uid := of_int status, cl_username := name\<rparr>),
             sv_active := active\<rparr>)))))
     else
       and_then (new_packet env USR_LOGIN 0 0 1) (\<lambda>send. reply p (set_code ERR_GENERIC send) sv)))"

definition handle_create_group :: "env \<Rightarrow> nat \<Rightarrow> mainhdr \<Rightarrow> server \<Rightarrow> server outcome" where
  "handle_create_group env p recv sv =
     and_then (new_packet env CREATE_GROUP 0 (hdr_uid recv) 1) (\<lambda>send.
     if uint (hdr_uid recv) \<le> 0 then reply p (set_code ERR_NEED_LOGIN (send\<lparr>hdr_gid := 0\<rparr>)) sv
     else
       and_then (free_group (sv_groups sv) (sv_group_cnt sv)) (\<lambda>cnt.
       let sv = sv\<lparr>sv_group_cnt := cnt\<rparr> in
       if cnt > GROUP_NUM_MAX then reply p (set_code ERR_OUT_MEM (send\<lparr>hdr_gid := 0\<rparr>)) sv
       else
         let gid = of_nat cnt :: u8;
             send = set_code 0 (send\<lparr>hdr_gid := gid\<rparr>)
         in if \<not> unat gid < length (sv_groups sv) then Inl Out_Of_Bounds
            else if \<not> en_malloc env NODE_SIZE then Inl Null_Pointer
            else reply p send (sv\<lparr>sv_groups := (sv_groups sv)[unat gid := [hdr_uid recv]]\<rparr>)))"

definition handle_invite :: "env \<Rightarrow> mainhdr \<Rightarrow> server \<Rightarrow> server outcome" where
  "handle_invite env recv sv =
     (if check_header_invite recv \<noteq> 0 then Inr sv
      else
        and_then (group_at sv (hdr_gid recv)) (\<lambda>g.
        if g = [] then Inr sv
        else
          and_then (check_user_in_group sv (hdr_uid recv) (hdr_gid recv)) (\<lambda>r.
          if r \<noteq> 0 then Inr sv
          else
            and_then (strncpy zero_name (hdr_payload recv) (unat (hdr_len recv))) (\<lambda>username.
            and_then (find_uid (file_of sv CREDENTIAL_FILE_NAME) username) (\<lambda>peer_id.
            if peer_id \<le> 0 then Inr sv
            else
              and_then (hashmap_get (sv_active sv) (of_int peer_id)) (\<lambda>(status, peer_data).
              if status \<noteq> MAP_OK then Inr sv
              else
                and_then (new_packet env INVITE (hdr_gid recv) (hdr_uid recv) 0) (\<lambda>send.
                and_then (deref peer_data) (\<lambda>peer. reply peer send sv))))))))"

definition handle_invite_resp :: "env \<Rightarrow> mainhdr \<Rightarrow> server \<Rightarrow> server outcome" where
  "handle_invite_resp env recv sv =
     (if check_header_invite recv \<noteq> 0 then Inr sv
      else
        and_then (group_at sv (hdr_gid recv)) (\<lambda>g.
        if g = [] then Inr sv
        else
          and_then (check_user_in_group sv (hdr_uid recv) (hdr_gid recv)) (\<lambda>r.
          if r = 0 then Inr sv
          else
            (case hdr_payload recv of
               [] \<Rightarrow> Inl Out_Of_Bounds
             | c # _ \<Rightarrow>
                 if c = CHR ''a'' then
                   and_then (add_user_to_group env (hdr_uid recv) (hdr_gid recv) sv)
                     (\<lambda>(_, sv). Inr sv)
                 else Inr sv))))"

definition handle_send_chat :: "env \<Rightarrow> mainhdr \<Rightarrow> server \<Rightarrow> server outcome" where
  "handle_send_chat env recv sv =
     (if check_header_chat recv \<noteq> 0 then Inr sv
      else
        and_then (group_at sv (hdr_gid recv)) (\<lambda>g.
        if g = [] then Inr sv
        else
          and_then (check_user_in_group sv (hdr_uid recv) (hdr_gid recv)) (\<lambda>r.
          if r \<noteq> 0 then Inr sv
          else
            and_then (find_username (file_of sv CREDENTIAL_FILE_NAME) (hdr_uid recv) zero_name)
              (\<lambda>(len, username).
            if len \<le> 0 then Inr sv
            else
              and_then (new_packet env SEND_CHAT (hdr_gid recv) (hdr_uid recv)
                (hdr_len recv + of_int len + 1)) (\<lambda>send.
              and_then (strncpy (hdr_payload send) username (nat len)) (\<lambda>payload.
              and_then (blit payload (nat len) '':'') (\<lambda>payload.
              if length (hdr_payload recv) < unat (hdr_len recv) then Inl Out_Of_Bounds
              else
                and_then (blit payload (nat len + 1) (take (unat (hdr_len recv)) (hdr_payload recv)))
                  (\<lambda>payload.
                forward_to_group env (hdr_gid send) (send\<lparr>hdr_payload := payload\<rparr>) sv))))))))"

definition handle_active_list :: "env \<Rightarrow> nat \<Rightarrow> mainhdr \<Rightarrow> server \<Rightarrow> server outcome" where
  "handle_active_list env p recv sv =
     and_then (get_active_users_str env sv) (\<lambda>(active_str, sv).
     and_then (c_str active_str) (\<lambda>s.
     let len = length s in
     and_then (new_packet env ACTIVE_LIST 0 (hdr_uid recv) (of_nat len)) (\<lambda>send.
     and_then (strncpy (hdr_payload send) active_str len) (\<lambda>payload.
     reply p (send\<lparr>hdr_payload := payload\<rparr>) sv))))"

text \<open>\<open>snprintf\<close> of a text into a buffer at its front, with a size in bytes.\<close>

definition snprintf_into :: "char list \<Rightarrow> nat \<Rightarrow> string \<Rightarrow> char list outcome" where
  "snprintf_into buf n text = (if n = 0 then Inr buf else blit buf 0 (take (n - 1) text @ [nul]))"

text \<open>\<open>FILE_FORMAT\<close>\<close>

definition file_name :: "u8 \<Rightarrow> int \<Rightarrow> string" where
  "file_name gid cnt = take 99 (print_nat (unat gid) @ ''_'' @ print_int cnt @ ''.file'')"

text \<open>\<open>None\<close>: the command never returns, because the sender closed the connection too early.\<close>

definition handle_send_file :: "env \<Rightarrow> nat \<Rightarrow> mainhdr \<Rightarrow> server \<Rightarrow> server outcome option" where
  "handle_send_file env p recv sv =
     (let filename = file_name (hdr_gid recv) (sv_file_cnt sv);
          sv = sv\<lparr>sv_file_cnt := sv_file_cnt sv + 1\<rparr>
      in case load_client sv p of
           Inl e \<Rightarrow> Some (Inl e)
         | Inr data \<Rightarrow>
             map_option (\<lambda>res.
               and_then res (\<lambda>(_, content, s').
               let sv = put_sock (cl_connfd data) s' sv;
                   sv = (case content of None \<Rightarrow> sv | Some _ \<Rightarrow> set_file filename content sv)
               in and_then (find_username (file_of sv CREDENTIAL_FILE_NAME) (hdr_uid recv) zero_name)
                 (\<lambda>(len, username).
               and_then (new_packet env SEND_CHAT (hdr_gid recv) (hdr_uid recv)
                   (of_int len + of_nat (length filename) + 17)) (\<lambda>send.
               and_then (c_str username) (\<lambda>name.
               and_then (snprintf_into (hdr_payload send) (unat (hdr_len send + 1))
                   (name @ '' just send file '' @ filename)) (\<lambda>payload.
               forward_to_group env (hdr_gid send) (send\<lparr>hdr_payload := payload\<rparr>) sv))))))
             (receive_to_file (sock_of sv (cl_connfd data)) (sint (hdr_len recv)) (en_fopen env)))"

definition handle_download_file :: "env \<Rightarrow> nat \<Rightarrow> mainhdr \<Rightarrow> server \<Rightarrow> server outcome" where
  "handle_download_file env p recv sv =
     and_then (c_str (hdr_payload recv)) (\<lambda>name.
     let text = take 99 (''./'' @ name);
         filename = text @ replicate (100 - length text) nul
     in and_then (group_at sv (hdr_gid recv)) (\<lambda>g.
        if g = [] then Inr sv
        else
          and_then (check_user_in_group sv (hdr_uid recv) (hdr_gid recv)) (\<lambda>r.
          if r \<noteq> 0 then Inr sv
          else
            and_then (split (en_split env 0) filename (CHR ''_'')) (\<lambda>(_, inputs).
            if length inputs \<le> 1 then Inl Out_Of_Bounds
            else
              and_then (split (en_split env 1) (inputs ! 1) (CHR ''.'')) (\<lambda>(_, inputs).
              if inputs = [] then Inl Out_Of_Bounds
              else
                and_then (c_str (inputs ! 0)) (\<lambda>id_s.
                and_then (load_client sv p) (\<lambda>data.
                let file_id = sscanf_int id_s (cl_file_id data);
                    (_, s') = send_file (sock_of sv (cl_connfd data)) (hdr_gid recv) (of_int file_id)
                      (file_of sv text)
                in Inr (put_sock (cl_connfd data) s'
                     (sv\<lparr>sv_data := (sv_data sv)(p \<mapsto> data\<lparr>cl_file_id := file_id\<rparr>)\<rparr>)))))))))"

section \<open>A client thread\<close>

definition handle :: "env \<Rightarrow> nat \<Rightarrow> mainhdr \<Rightarrow> server \<Rightarrow> server outcome option" where
  "handle env p recv sv =
     (if hdr_cmd recv = USR_CREATE then Some (handle_usr_create env p recv sv)
      else if hdr_cmd recv = USR_LOGIN then Some (handle_usr_login env p recv sv)
      else if hdr_cmd recv = CREATE_GROUP then Some (handle_create_group env p recv sv)
      else if hdr_cmd recv = INVITE then Some (handle_invite env recv sv)
      else if hdr_cmd recv = INVITE_RESP then Some (handle_invite_resp env recv sv)
      else if hdr_cmd recv = SEND_CHAT then Some (handle_send_chat env recv sv)
      else if hdr_cmd recv = ACTIVE_LIST then Some (handle_active_list env p recv sv)
      else if hdr_cmd recv = SEND_FILE then handle_send_file env p recv sv
      else if hdr_cmd recv = DOWNLOAD_FILE then Some (handle_download_file env p recv sv)
      else Some (Inr sv))"

text \<open>The end of a client thread: close the socket, remove the user from the table, free the data.\<close>

definition exit_thread :: "nat \<Rightarrow> server \<Rightarrow> server outcome" where
  "exit_thread p sv =
     and_then (load_client sv p) (\<lambda>data.
     let sv = sv\<lparr>sv_socks := (sv_socks sv)(cl_connfd data := None)\<rparr> in
     and_then (if uint (cl_uid data) > 0
               then and_then (hashmap_remove (sv_active sv) (ucast (cl_uid data)))
                      (\<lambda>(_, active). Inr (sv\<lparr>sv_active := active\<rparr>))
               else Inr sv)
       (\<lambda>sv. Inr (sv\<lparr>sv_data := (sv_data sv)(p := None)\<rparr>)))"

text \<open>One turn of the loop of \<open>client_thread_function\<close>.\<close>

definition serve :: "env \<Rightarrow> nat \<Rightarrow> server \<Rightarrow> server outcome option" where
  "serve env p sv =
     (case and_then (load_client sv p) (\<lambda>data.
             and_then (read_main_header (en_malloc env) (en_stack env) (en_junk env)
                 (sock_of sv (cl_connfd data)))
               (\<lambda>(recv, s'). Inr (recv, put_sock (cl_connfd data) s' sv))) of
        Inl e \<Rightarrow> Some (Inl e)
      | Inr (None, sv) \<Rightarrow> Some (exit_thread p sv)
      | Inr (Some recv, sv) \<Rightarrow> handle env p recv sv)"

section \<open>The main function\<close>

definition init_server :: "nat hashmap_map \<Rightarrow> (string \<rightharpoonup> char list) \<Rightarrow> server" where
  "init_server active files =
     \<lparr>sv_group_cnt = 0, sv_groups = replicate GROUP_NUM_MAX [], sv_file_cnt = 1,
      sv_active = active, sv_data = Map.empty, sv_socks = Map.empty, sv_files = files\<rparr>"

text \<open>What the calls of \<open>main\<close> return before its loop.\<close>

record server_calls =
  sc_malloc :: bool
  sc_calloc :: bool
  sc_socket :: int
  sc_setsockopt :: int
  sc_bind :: "int \<Rightarrow> char list \<Rightarrow> int"

text \<open>
  \<open>main\<close> up to its loop: the listening descriptor and the state, which is \<open>None\<close> if there was no
  memory for the table of active users; nothing tests that null pointer before a login uses it. The
  address is cleared with the digit 0 instead of the number, and the result of \<open>listen\<close> is not used.
\<close>

definition server_main ::
    "server_calls \<Rightarrow> string list \<Rightarrow> (string \<rightharpoonup> char list) \<Rightarrow> (int \<times> server option) started" where
  "server_main sc argv files =
     (if length argv \<noteq> 2 then Returns (-1)
      else
        let serverPort = atoi (argv ! 1);
            active = hashmap_new (sc_malloc sc) (sc_calloc sc);
            listenfd = sc_socket sc
        in if listenfd < 0 then Returns (-1)
           else if sc_setsockopt sc < 0 then Returns (-1)
           else if sc_bind sc listenfd (sockaddr_in (CHR ''0'') serverPort (replicate 4 nul)) < 0
           then Returns (-1)
           else Running (listenfd, map_option (\<lambda>active. init_server active files) active))"

text \<open>
  What the calls of one turn of the loop return: the pointer from \<open>malloc\<close> and what its name buffer
  holds, the descriptor from \<open>accept\<close> with the connection behind it, the results of the two
  initialisations of \<open>thread_queue_init\<close>, and of \<open>pthread_create\<close>.
\<close>

record accept_calls =
  ac_malloc :: "nat option"
  ac_name :: "char list"
  ac_fd :: int
  ac_peer :: socket
  ac_cond :: int
  ac_mutex :: int
  ac_create :: int

text \<open>A descriptor is kept as an unsigned number, so that -1 is one that is never open.\<close>

definition descriptor :: "int \<Rightarrow> nat" where
  "descriptor fd = nat (fd mod 2 ^ 32)"

text \<open>
  The result of \<open>accept\<close> is not tested. Without a queue or a thread the connection stays open, and
  its data is lost: no thread has the pointer.
\<close>

definition accept_turn :: "accept_calls \<Rightarrow> server \<Rightarrow> server outcome" where
  "accept_turn ac sv =
     and_then (deref (ac_malloc ac)) (\<lambda>p.
     let connfd = descriptor (ac_fd ac);
         sv = (if ac_fd ac < 0 then sv else sv\<lparr>sv_socks := (sv_socks sv)(connfd \<mapsto> ac_peer ac)\<rparr>)
     in case thread_queue_init (ac_cond ac) (ac_mutex ac) (Some zero_queue) of (rc, queue) \<Rightarrow>
          if rc \<noteq> 0 then Inr sv
          else if ac_create ac \<noteq> 0 then Inr sv
          else Inr (sv\<lparr>sv_data := (sv_data sv)(p \<mapsto> \<lparr>cl_connfd = connfd, cl_message_queue = the queue,
                 cl_uid = -1, cl_username = ac_name ac, cl_file_id = 0\<rparr>)\<rparr>))"

section \<open>Runs\<close>

text \<open>
  The loop of \<open>main\<close> and the threads of the clients take turns. \<open>malloc\<close> returns memory that is not
  allocated; \<open>accept\<close> is taken to succeed, with a descriptor that is not open (what happens when it
  fails is in theory \<open>Startup\<close>).
\<close>

definition accept_ok :: "accept_calls \<Rightarrow> server \<Rightarrow> bool" where
  "accept_ok ac sv \<longleftrightarrow> (case ac_malloc ac of None \<Rightarrow> True | Some p \<Rightarrow> sv_data sv p = None) \<and>
     length (ac_name ac) = MAX_CHAR_USERID \<and>
     0 \<le> ac_fd ac \<and> ac_fd ac < 2 ^ 31 \<and> sv_socks sv (descriptor (ac_fd ac)) = None"

inductive server_step :: "server \<Rightarrow> server \<Rightarrow> bool" where
  connect: "accept_ok ac sv \<Longrightarrow> accept_turn ac sv = Inr sv' \<Longrightarrow> server_step sv sv'"
| turn: "sv_data sv p \<noteq> None \<Longrightarrow> serve env p sv = Some (Inr sv') \<Longrightarrow> server_step sv sv'"

inductive reachable :: "server \<Rightarrow> bool" where
  start: "server_main sc argv files = Running (listenfd, Some sv) \<Longrightarrow> reachable sv"
| step: "reachable sv \<Longrightarrow> server_step sv sv' \<Longrightarrow> reachable sv'"

inductive_cases server_stepE: "server_step sv sv'"

text \<open>A connection for which all calls succeed, and a start for which they do.\<close>

definition accepting :: "nat \<Rightarrow> nat \<Rightarrow> socket \<Rightarrow> char list \<Rightarrow> accept_calls" where
  "accepting p fd s junk = \<lparr>ac_malloc = Some p, ac_name = junk, ac_fd = int fd, ac_peer = s,
     ac_cond = 0, ac_mutex = 0, ac_create = 0\<rparr>"

definition accept_client :: "nat \<Rightarrow> nat \<Rightarrow> socket \<Rightarrow> char list \<Rightarrow> server \<Rightarrow> server" where
  "accept_client p fd s junk sv =
     sv\<lparr>sv_data := (sv_data sv)(p \<mapsto> \<lparr>cl_connfd = fd, cl_message_queue = zero_queue,
          cl_uid = -1, cl_username = junk, cl_file_id = 0\<rparr>),
        sv_socks := (sv_socks sv)(fd \<mapsto> s)\<rparr>"

definition starting :: server_calls where
  "starting = \<lparr>sc_malloc = True, sc_calloc = True, sc_socket = 3, sc_setsockopt = 0, sc_bind = \<lambda>_ _. 0\<rparr>"

lemma descriptor_nat: "0 \<le> fd \<Longrightarrow> fd < 2 ^ 31 \<Longrightarrow> descriptor fd = nat fd"
  by (simp add: descriptor_def)

lemma accept_turn_cases:
  assumes "accept_ok ac sv" and "accept_turn ac sv = Inr sv'"
  obtains (served) p where "ac_malloc ac = Some p" "sv_data sv p = None"
      "ac_cond ac = 0" "ac_mutex ac = 0" "ac_create ac = 0"
      "sv' = accept_client p (descriptor (ac_fd ac)) (ac_peer ac) (ac_name ac) sv"
  | (unserved) "ac_cond ac \<noteq> 0 \<or> ac_mutex ac \<noteq> 0 \<or> ac_create ac \<noteq> 0"
      "sv' = sv\<lparr>sv_socks := (sv_socks sv)(descriptor (ac_fd ac) \<mapsto> ac_peer ac)\<rparr>"
  using assms
  by (auto simp: accept_ok_def accept_turn_def accept_client_def thread_queue_init_def Let_def
      elim!: and_then_InrE split: if_splits)

lemma step_accept:
  assumes "sv_data sv p = None" and "sv_socks sv fd = None" and "length junk = MAX_CHAR_USERID"
    and "fd < 2 ^ 31"
  shows "accept_ok (accepting p fd s junk) sv"
    and "accept_turn (accepting p fd s junk) sv = Inr (accept_client p fd s junk sv)"
    and "server_step sv (accept_client p fd s junk sv)"
proof -
  have fd: "descriptor (int fd) = fd" using assms(4) by (simp add: descriptor_nat)
  show ok: "accept_ok (accepting p fd s junk) sv"
    using assms fd by (simp add: accept_ok_def accepting_def)
  show acc: "accept_turn (accepting p fd s junk) sv = Inr (accept_client p fd s junk sv)"
    using fd by (simp add: accept_turn_def accepting_def accept_client_def thread_queue_init_def)
  show "server_step sv (accept_client p fd s junk sv)" using ok acc by (rule server_step.connect)
qed

lemma server_main_running:
  "server_main sc argv files = Running (listenfd, sv) \<longleftrightarrow> length argv = 2 \<and> listenfd = sc_socket sc \<and>
     0 \<le> listenfd \<and> 0 \<le> sc_setsockopt sc \<and>
     0 \<le> sc_bind sc listenfd (sockaddr_in (CHR ''0'') (atoi (argv ! 1)) (replicate 4 nul)) \<and>
     sv = map_option (\<lambda>active. init_server active files) (hashmap_new (sc_malloc sc) (sc_calloc sc))"
  by (auto simp: server_main_def Let_def)

end
