(* ===== verification/Server_Invariant.thy ===== *)
theory Server_Invariant
  imports Server
begin

text \<open>
  What the commands of the server change and what they keep: the frame of each command, the
  invariant of the server state, and its preservation by every step, so that it holds in every
  reachable state; the groups only grow.
\<close>

section \<open>Frame conditions\<close>

text \<open>
  \<open>quiet\<close>: a change that leaves the groups, the table of active users, the client data and the set
  of open descriptors alone. Only the contents of sockets and files and the file counter may change.
\<close>

definition quiet :: "server \<Rightarrow> server \<Rightarrow> bool" where
  "quiet sv sv' \<longleftrightarrow> sv_groups sv' = sv_groups sv \<and> sv_group_cnt sv' = sv_group_cnt sv \<and>
     sv_active sv' = sv_active sv \<and> sv_data sv' = sv_data sv \<and>
     dom (sv_socks sv') = dom (sv_socks sv)"

lemma quiet_refl [simp]: "quiet sv sv"
  by (simp add: quiet_def)

lemma quiet_trans: "quiet a b \<Longrightarrow> quiet b c \<Longrightarrow> quiet a c"
  by (simp add: quiet_def)

lemma quiet_upd [simp]:
  "quiet sv (set_file name content sv)"
  "sv_socks sv fd = Some s \<Longrightarrow> quiet sv (sv\<lparr>sv_socks := (sv_socks sv)(fd \<mapsto> s')\<rparr>)"
  "quiet sv (sv\<lparr>sv_file_cnt := n\<rparr>)"
  "quiet sv (put_sock fd s' sv)"
  by (auto simp: quiet_def set_file_def put_sock_def split: if_splits)

lemma sock_of_open [simp]: "sv_socks sv fd = Some s \<Longrightarrow> sock_of sv fd = s"
  by (simp add: sock_of_def)

lemma put_sock_open:
  "sv_socks sv fd = Some s \<Longrightarrow> put_sock fd s' sv = sv\<lparr>sv_socks := (sv_socks sv)(fd \<mapsto> s')\<rparr>"
  by (simp add: put_sock_def)

lemma load_client_eq_Inr [simp]: "load_client sv p = Inr c \<longleftrightarrow> sv_data sv p = Some c"
  by (auto simp: load_client_def split: option.splits)

lemma send_on_quiet: "send_on h fd sv = Inr (r, sv') \<Longrightarrow> quiet sv sv'"
  by (auto simp: send_on_def split: option.splits elim!: and_then_InrE)

lemma reply_quiet: "reply p h sv = Inr sv' \<Longrightarrow> quiet sv sv'"
  by (auto simp: reply_def dest: send_on_quiet elim!: and_then_InrE)

lemma forward_loop_quiet: "forward_loop ok h us sv = Inr sv' \<Longrightarrow> quiet sv sv'"
proof (induction ok h us sv rule: forward_loop.induct)
  case (2 ok h u us sv)
  then show ?case
    by (fastforce elim!: and_then_InrE split: if_splits dest: send_on_quiet intro: quiet_trans)
qed simp

lemma forward_to_group_quiet: "forward_to_group env gid h sv = Inr sv' \<Longrightarrow> quiet sv sv'"
  by (auto simp: forward_to_group_def dest: forward_loop_quiet elim!: and_then_InrE)

lemma get_active_users_str_quiet:
  "get_active_users_str env sv = Inr (str, sv') \<Longrightarrow> quiet sv sv'"
  by (auto simp: get_active_users_str_def Let_def split: if_splits elim!: and_then_InrE)

lemmas quiet_calls = send_on_quiet reply_quiet forward_to_group_quiet get_active_users_str_quiet

lemma handle_usr_create_quiet: "handle_usr_create env p recv sv = Inr sv' \<Longrightarrow> quiet sv sv'"
  by (auto simp: handle_usr_create_def Let_def elim!: and_then_InrE
      dest!: reply_quiet intro: quiet_trans [OF quiet_upd(1)])

lemma handle_invite_quiet: "handle_invite env recv sv = Inr sv' \<Longrightarrow> quiet sv sv'"
  by (auto simp: handle_invite_def elim!: and_then_InrE split: if_splits dest!: reply_quiet)

lemma handle_send_chat_quiet: "handle_send_chat env recv sv = Inr sv' \<Longrightarrow> quiet sv sv'"
  by (auto simp: handle_send_chat_def elim!: and_then_InrE split: if_splits
      dest!: forward_to_group_quiet)

lemma handle_active_list_quiet: "handle_active_list env p recv sv = Inr sv' \<Longrightarrow> quiet sv sv'"
  by (auto simp: handle_active_list_def Let_def elim!: and_then_InrE
      dest!: reply_quiet get_active_users_str_quiet intro: quiet_trans)

lemma handle_send_file_quiet:
  assumes "handle_send_file env p recv sv = Some (Inr sv')"
  shows "quiet sv sv'"
proof -
  obtain fd content s' sv1 gid h where
    sv1: "sv1 = (let sv2 = put_sock fd s' (sv\<lparr>sv_file_cnt := sv_file_cnt sv + 1\<rparr>) in
        case content of None \<Rightarrow> sv2 | Some _ \<Rightarrow> set_file (file_name (hdr_gid recv) (sv_file_cnt sv)) content sv2)"
    and f: "forward_to_group env gid h sv1 = Inr sv'"
    using assms
    by (auto simp: handle_send_file_def Let_def split: sum.splits prod.splits
        elim!: and_then_InrE)
  have "quiet sv (put_sock fd s' (sv\<lparr>sv_file_cnt := sv_file_cnt sv + 1\<rparr>))"
    by (rule quiet_trans [OF quiet_upd(3) quiet_upd(4)])
  then have "quiet sv sv1" by (auto simp: sv1 Let_def quiet_trans [OF _ quiet_upd(1)] split: option.split)
  with forward_to_group_quiet [OF f] show ?thesis by (rule quiet_trans [rotated])
qed

section \<open>What the other commands change\<close>

lemma length_strncpy: "strncpy dst src n = Inr r \<Longrightarrow> length r = length dst"
  using length_takeWhile_le [of "\<lambda>c. c \<noteq> nul" "take n src"]
  by (auto simp: strncpy_def Let_def split: if_splits)

lemma handle_usr_login_changes:
  assumes "handle_usr_login env p recv sv = Inr sv'" and "hm_inv (sv_active sv)"
  shows "quiet sv sv' \<or>
    (\<exists>c uid name active. sv_data sv p = Some c \<and> length name = length (cl_username c) \<and>
      hm_inv active \<and>
      quiet (sv\<lparr>sv_data := (sv_data sv)(p \<mapsto> c\<lparr>cl_uid := uid, cl_username := name\<rparr>),
               sv_active := active\<rparr>) sv')"
proof -
  have put: "hm_inv m'" if "hashmap_put ok (sv_active sv) k v = Inr (r, m')" for ok k v r m'
    using that assms(2) by (cases rule: hashmap_put_cases [OF assms(2), of ok k v]) auto
  show ?thesis
    using assms(1) unfolding handle_usr_login_def
    by (fastforce elim!: and_then_InrE split: if_splits dest: reply_quiet put length_strncpy)
qed

lemma free_group_Inr:
  "free_group groups cnt = Inr n \<Longrightarrow> (\<forall>i < cnt. groups ! i \<noteq> []) \<Longrightarrow>
    cnt \<le> n \<and> n < length groups \<and> groups ! n = [] \<and> (\<forall>i < n. groups ! i \<noteq> [])"
proof (induction groups cnt rule: free_group.induct)
  case (1 groups cnt)
  then show ?case
    by (subst (asm) free_group.simps [of groups cnt]) (fastforce simp: less_Suc_eq split: if_splits)
qed

lemma free_group_full:
  "\<forall>i < length groups. groups ! i \<noteq> [] \<Longrightarrow> free_group groups cnt = Inl Out_Of_Bounds"
  by (induction groups cnt rule: free_group.induct) (subst free_group.simps, auto)

lemma free_group_least:
  "n < length groups \<Longrightarrow> cnt \<le> n \<Longrightarrow> groups ! n = [] \<Longrightarrow> \<forall>i. cnt \<le> i \<and> i < n \<longrightarrow> groups ! i \<noteq> [] \<Longrightarrow>
    free_group groups cnt = Inr n"
proof (induction groups cnt rule: free_group.induct)
  case (1 groups cnt)
  show ?case
  proof (cases "cnt = n")
    case True
    with 1 show ?thesis by (simp add: free_group.simps)
  next
    case False
    with 1 show ?thesis by (subst free_group.simps) auto
  qed
qed

lemma find_member_iff: "find_member uid g = (if uid \<in> set g then 0 else ERR_GENERIC)"
  by (induction uid g rule: find_member.induct) auto

lemma group_add_tail_ok:
  "g \<noteq> [] \<Longrightarrow> group_add_tail ok g uid = Inr (if ok then (0, g @ [uid]) else (-1, g))"
  by (induction ok g uid rule: group_add_tail.induct) auto

lemma group_at_Inr:
  "group_at sv gid = Inr g \<longleftrightarrow> unat gid < length (sv_groups sv) \<and> g = sv_groups sv ! unat gid"
  by (auto simp: group_at_def)

lemma check_header_invite_ok:
  "check_header_invite h = 0 \<longleftrightarrow> hdr_uid h \<noteq> 0 \<and> unat (hdr_len h) < MAX_CHAR_USERID"
proof -
  have "uint (hdr_uid h) \<le> 0 \<longleftrightarrow> hdr_uid h = 0"
    using uint_nonnegative [of "hdr_uid h"] by (simp add: le_less uint_0_iff)
  moreover have "\<not> uint (hdr_gid h) < 0" by simp
  moreover have "int MAX_CHAR_USERID - 1 < uint (hdr_len h) \<longleftrightarrow> \<not> unat (hdr_len h) < MAX_CHAR_USERID"
  proof -
    have "uint (hdr_len h) = int (unat (hdr_len h))" by (rule uint_nat)
    then show ?thesis unfolding MAX_CHAR_USERID_def by presburger
  qed
  ultimately show ?thesis by (auto simp: check_header_invite_def)
qed

lemma check_header_chat_ok: "check_header_chat h = 0 \<longleftrightarrow> hdr_uid h \<noteq> 0"
proof -
  have "uint (hdr_uid h) \<le> 0 \<longleftrightarrow> hdr_uid h = 0"
    using uint_nonnegative [of "hdr_uid h"] by (simp add: le_less uint_0_iff)
  moreover have "\<not> uint (hdr_gid h) < 0" by simp
  ultimately show ?thesis by (auto simp: check_header_chat_def)
qed

text \<open>The two commands that change the groups, on every branch that returns.\<close>

lemma handle_invite_resp_eq:
  assumes "unat (hdr_gid recv) < length (sv_groups sv)" and "hdr_payload recv \<noteq> []"
  shows "handle_invite_resp env recv sv = Inr
    (let g = sv_groups sv ! unat (hdr_gid recv) in
     if hdr_uid recv \<noteq> 0 \<and> unat (hdr_len recv) < MAX_CHAR_USERID \<and> g \<noteq> [] \<and>
        hdr_uid recv \<notin> set g \<and> hd (hdr_payload recv) = CHR ''a'' \<and> en_malloc env NODE_SIZE
     then sv\<lparr>sv_groups := (sv_groups sv)[unat (hdr_gid recv) := g @ [hdr_uid recv]]\<rparr>
     else sv)"
proof -
  obtain c cs where c: "hdr_payload recv = c # cs" using assms(2) by (cases "hdr_payload recv") auto
  have g: "group_at sv (hdr_gid recv) = Inr (sv_groups sv ! unat (hdr_gid recv))"
    using assms(1) by (simp add: group_at_Inr)
  show ?thesis
    unfolding handle_invite_resp_def check_user_in_group_def add_user_to_group_def g c
    using check_header_invite_ok [of recv]
    by (auto simp: find_member_iff group_add_tail_ok Let_def)
qed

lemma handle_create_group_made:
  assumes "handle_create_group env p recv sv = Inr sv'" and "hdr_uid recv \<noteq> 0"
    and "\<forall>i < sv_group_cnt sv. sv_groups sv ! i \<noteq> []" and "length (sv_groups sv) = GROUP_NUM_MAX"
  shows "\<exists>n. free_group (sv_groups sv) (sv_group_cnt sv) = Inr n \<and>
    n < GROUP_NUM_MAX \<and> sv_groups sv ! n = [] \<and> (\<forall>i < n. sv_groups sv ! i \<noteq> []) \<and>
    quiet (sv\<lparr>sv_group_cnt := n, sv_groups := (sv_groups sv)[n := [hdr_uid recv]]\<rparr>) sv'"
proof -
  have pos: "\<not> uint (hdr_uid recv) \<le> 0"
    using assms(2) uint_nonnegative [of "hdr_uid recv"] by (simp add: le_less uint_0_iff)
  with assms(1) obtain n where n: "free_group (sv_groups sv) (sv_group_cnt sv) = Inr n"
    by (auto simp: handle_create_group_def elim!: and_then_InrE)
  have b: "n < GROUP_NUM_MAX" "sv_groups sv ! n = []" "\<forall>i < n. sv_groups sv ! i \<noteq> []"
    using free_group_Inr [OF n] assms(3,4) by auto
  have u: "unat (of_nat n :: u8) = n" using b(1) by (simp add: GROUP_NUM_MAX_def unat_of_nat)
  have "quiet (sv\<lparr>sv_group_cnt := n, sv_groups := (sv_groups sv)[n := [hdr_uid recv]]\<rparr>) sv'"
    using assms(1) pos n b u
    by (auto simp: handle_create_group_def Let_def elim!: and_then_InrE split: if_splits
        dest!: reply_quiet)
  with n b show ?thesis by blast
qed

lemma handle_create_group_changes:
  assumes "handle_create_group env p recv sv = Inr sv'"
    and "\<forall>i < sv_group_cnt sv. sv_groups sv ! i \<noteq> []" and "length (sv_groups sv) = GROUP_NUM_MAX"
  shows "quiet sv sv' \<or>
    (\<exists>n. n < GROUP_NUM_MAX \<and> sv_groups sv ! n = [] \<and> (\<forall>i < n. sv_groups sv ! i \<noteq> []) \<and>
      hdr_uid recv \<noteq> 0 \<and>
      quiet (sv\<lparr>sv_group_cnt := n, sv_groups := (sv_groups sv)[n := [hdr_uid recv]]\<rparr>) sv')"
proof (cases "hdr_uid recv = 0")
  case True
  with assms(1) show ?thesis
    by (auto simp: handle_create_group_def elim!: and_then_InrE dest!: reply_quiet)
next
  case False
  with handle_create_group_made [OF assms(1) False assms(2,3)] show ?thesis by blast
qed

lemma handle_download_file_changes:
  assumes "handle_download_file env p recv sv = Inr sv'"
  shows "sv' = sv \<or> (\<exists>c id. sv_data sv p = Some c \<and>
    quiet (sv\<lparr>sv_data := (sv_data sv)(p \<mapsto> c\<lparr>cl_file_id := id\<rparr>)\<rparr>) sv')"
  using assms
  by (auto simp: handle_download_file_def Let_def elim!: and_then_InrE split: if_splits prod.splits)
    (metis quiet_upd(4))


section \<open>The invariant of the server\<close>

text \<open>
  Groups have distinct members, none of them user 0, and all groups below \<open>group_cnt\<close> are in use;
  the table of active users satisfies its own invariant; every client has an open descriptor of its
  own.
\<close>

definition groups_ok :: "u16 list list \<Rightarrow> nat \<Rightarrow> bool" where
  "groups_ok gs cnt \<longleftrightarrow> length gs = GROUP_NUM_MAX \<and> (\<forall>g \<in> set gs. distinct g \<and> 0 \<notin> set g) \<and>
     cnt < GROUP_NUM_MAX \<and> (\<forall>i < cnt. gs ! i \<noteq> [])"

definition clients_ok :: "(nat \<rightharpoonup> client_thread_data) \<Rightarrow> nat set \<Rightarrow> bool" where
  "clients_ok data fds \<longleftrightarrow>
     (\<forall>p c. data p = Some c \<longrightarrow> cl_connfd c \<in> fds \<and> length (cl_username c) = MAX_CHAR_USERID) \<and>
     (\<forall>p q c d. data p = Some c \<longrightarrow> data q = Some d \<longrightarrow> cl_connfd c = cl_connfd d \<longrightarrow> p = q)"

definition sv_inv :: "server \<Rightarrow> bool" where
  "sv_inv sv \<longleftrightarrow> groups_ok (sv_groups sv) (sv_group_cnt sv) \<and> hm_inv (sv_active sv) \<and>
     clients_ok (sv_data sv) (dom (sv_socks sv))"

definition grows :: "server \<Rightarrow> server \<Rightarrow> bool" where
  "grows sv sv' \<longleftrightarrow> length (sv_groups sv') = length (sv_groups sv) \<and>
     (\<forall>i < length (sv_groups sv). prefix (sv_groups sv ! i) (sv_groups sv' ! i))"

lemma grows_refl [simp]: "grows sv sv"
  by (simp add: grows_def)

lemma grows_trans:
  assumes "grows a b" and "grows b c"
  shows "grows a c"
proof -
  have "prefix (sv_groups a ! i) (sv_groups c ! i)" if "i < length (sv_groups a)" for i
    using assms that prefix_order.trans [of "sv_groups a ! i" "sv_groups b ! i"]
    by (simp add: grows_def)
  then show ?thesis using assms by (simp add: grows_def)
qed

lemma nth_upd: "xs[n := x] ! i = (if i = n \<and> n < length xs then x else xs ! i)"
  by (cases "n < length xs") (auto simp: nth_list_update list_update_beyond)

lemma quiet_inv: "quiet sv sv' \<Longrightarrow> sv_inv sv' \<longleftrightarrow> sv_inv sv"
  by (simp add: quiet_def sv_inv_def)

lemma quiet_grows: "quiet sv sv' \<Longrightarrow> grows sv sv'"
  by (simp add: quiet_def grows_def)

lemma quiet_both: "quiet sv sv' \<Longrightarrow> sv_inv sv \<Longrightarrow> sv_inv sv' \<and> grows sv sv'"
  using quiet_inv quiet_grows by blast

lemma clients_ok_upd:
  assumes "clients_ok data fds" and "data p = Some c" and "cl_connfd c' = cl_connfd c"
    and "length (cl_username c') = length (cl_username c)"
  shows "clients_ok (data(p \<mapsto> c')) fds"
  using assms by (fastforce simp: clients_ok_def)

lemma groups_ok_upd:
  assumes "groups_ok gs cnt" and "distinct g" and "0 \<notin> set g" and "g \<noteq> []"
  shows "groups_ok (gs[n := g]) cnt"
  using assms by (auto simp: groups_ok_def nth_upd split: if_splits dest!: set_update_subset_insert [THEN subsetD])

lemma grows_upd:
  "prefix (sv_groups sv ! n) g \<Longrightarrow> grows sv (sv\<lparr>sv_groups := (sv_groups sv)[n := g]\<rparr>)"
  by (auto simp: grows_def nth_upd)

lemma handle_usr_login_inv:
  assumes "sv_inv sv" and "handle_usr_login env p recv sv = Inr sv'"
  shows "sv_inv sv' \<and> grows sv sv'"
proof -
  have inv: "hm_inv (sv_active sv)" using assms(1) by (simp add: sv_inv_def)
  from handle_usr_login_changes [OF assms(2) inv] show ?thesis
  proof (elim disjE exE conjE)
    assume "quiet sv sv'"
    then show ?thesis using assms(1) by (rule quiet_both)
  next
    fix c uid name active
    let ?sv = "sv\<lparr>sv_data := (sv_data sv)(p \<mapsto> c\<lparr>cl_uid := uid, cl_username := name\<rparr>),
               sv_active := active\<rparr>"
    assume c: "sv_data sv p = Some c" "length name = length (cl_username c)" "hm_inv active"
      and q: "quiet ?sv sv'"
    have "sv_inv ?sv"
      using assms(1) c clients_ok_upd [of "sv_data sv" _ p c "c\<lparr>cl_uid := uid, cl_username := name\<rparr>"]
      by (simp add: sv_inv_def)
    moreover have "grows sv ?sv" by (simp add: grows_def)
    ultimately show ?thesis using q quiet_both grows_trans by blast
  qed
qed

lemma handle_create_group_inv:
  assumes "sv_inv sv" and "handle_create_group env p recv sv = Inr sv'"
  shows "sv_inv sv' \<and> grows sv sv'"
proof -
  have gs: "\<forall>i < sv_group_cnt sv. sv_groups sv ! i \<noteq> []" "length (sv_groups sv) = GROUP_NUM_MAX"
    using assms(1) by (auto simp: sv_inv_def groups_ok_def)
  from handle_create_group_changes [OF assms(2) gs] show ?thesis
  proof (elim disjE exE conjE)
    assume "quiet sv sv'"
    then show ?thesis using assms(1) by (rule quiet_both)
  next
    fix n
    let ?gs = "(sv_groups sv)[n := [hdr_uid recv]]"
    let ?sv = "sv\<lparr>sv_group_cnt := n, sv_groups := ?gs\<rparr>"
    assume n: "n < GROUP_NUM_MAX" "sv_groups sv ! n = []" "\<forall>i < n. sv_groups sv ! i \<noteq> []"
        "hdr_uid recv \<noteq> 0"
      and q: "quiet ?sv sv'"
    have "groups_ok ?gs (sv_group_cnt sv)"
      using assms(1) n(4) by (intro groups_ok_upd) (auto simp: sv_inv_def)
    then have "groups_ok ?gs n" using n by (auto simp: groups_ok_def)
    then have "sv_inv ?sv" using assms(1) by (simp add: sv_inv_def)
    moreover have "grows sv ?sv" using n(2) by (auto simp: grows_def nth_upd)
    ultimately show ?thesis using q quiet_both grows_trans by blast
  qed
qed

lemma handle_invite_resp_inv:
  assumes "sv_inv sv" and "handle_invite_resp env recv sv = Inr sv'"
  shows "sv_inv sv' \<and> grows sv sv'"
proof (cases "unat (hdr_gid recv) < length (sv_groups sv) \<and> hdr_payload recv \<noteq> []")
  case True
  then have g: "sv_groups sv ! unat (hdr_gid recv) \<in> set (sv_groups sv)" by simp
  have "groups_ok (sv_groups sv) (sv_group_cnt sv)" using assms(1) by (simp add: sv_inv_def)
  then have "groups_ok ((sv_groups sv)[unat (hdr_gid recv) :=
      sv_groups sv ! unat (hdr_gid recv) @ [hdr_uid recv]]) (sv_group_cnt sv)"
    if "hdr_uid recv \<noteq> 0" "hdr_uid recv \<notin> set (sv_groups sv ! unat (hdr_gid recv))"
    using that g by (intro groups_ok_upd) (auto simp: groups_ok_def)
  with assms True show ?thesis
    by (auto simp: handle_invite_resp_eq Let_def sv_inv_def grows_upd split: if_splits)
next
  case False
  with assms show ?thesis
    by (auto simp: handle_invite_resp_def group_at_def split: if_splits list.splits
        elim!: and_then_InrE)
qed

lemma handle_download_file_inv:
  assumes "sv_inv sv" and "handle_download_file env p recv sv = Inr sv'"
  shows "sv_inv sv' \<and> grows sv sv'"
proof -
  have both: "sv_inv (sv\<lparr>sv_data := (sv_data sv)(p \<mapsto> c\<lparr>cl_file_id := id\<rparr>)\<rparr>)"
      "grows sv (sv\<lparr>sv_data := (sv_data sv)(p \<mapsto> c\<lparr>cl_file_id := id\<rparr>)\<rparr>)"
    if "sv_data sv p = Some c" for c id
    using assms(1) that by (auto simp: sv_inv_def grows_def intro!: clients_ok_upd)
  from handle_download_file_changes [OF assms(2)] show ?thesis
  proof (elim disjE exE conjE)
    assume "sv' = sv"
    then show ?thesis using assms(1) by simp
  next
    fix c id
    assume c: "sv_data sv p = Some c" and
      q: "quiet (sv\<lparr>sv_data := (sv_data sv)(p \<mapsto> c\<lparr>cl_file_id := id\<rparr>)\<rparr>) sv'"
    from quiet_both [OF q both(1) [OF c]] both(2) [OF c, of id] show ?thesis
      using grows_trans by blast
  qed
qed

lemma handle_inv:
  assumes "sv_inv sv" and "handle env p recv sv = Some (Inr sv')"
  shows "sv_inv sv' \<and> grows sv sv'"
  using assms(2) quiet_both [OF _ assms(1)]
    handle_usr_create_quiet handle_usr_login_inv [OF assms(1)] handle_create_group_inv [OF assms(1)]
    handle_invite_quiet handle_invite_resp_inv [OF assms(1)] handle_send_chat_quiet
    handle_active_list_quiet handle_send_file_quiet handle_download_file_inv [OF assms(1)] assms(1)
  by (auto simp: handle_def split: if_splits)

lemma exit_thread_inv:
  assumes "sv_inv sv" and "exit_thread p sv = Inr sv'"
  shows "sv_inv sv' \<and> grows sv sv'"
proof -
  obtain c active where c: "sv_data sv p = Some c" and a: "hm_inv active"
    and sv': "sv' = sv\<lparr>sv_socks := (sv_socks sv)(cl_connfd c := None), sv_active := active,
      sv_data := (sv_data sv)(p := None)\<rparr>"
    using assms hm_inv_remove
    by (fastforce simp: exit_thread_def sv_inv_def Let_def split: if_splits elim!: and_then_InrE)
  have "clients_ok ((sv_data sv)(p := None)) (dom (sv_socks sv) - {cl_connfd c})"
    using assms(1) c by (fastforce simp: sv_inv_def clients_ok_def)
  then show ?thesis using assms(1) a by (simp add: sv' sv_inv_def grows_def)
qed

lemma serve_inv:
  assumes "sv_inv sv" and "serve env p sv = Some (Inr sv')"
  shows "sv_inv sv' \<and> grows sv sv'"
proof -
  obtain c recv s' where c: "sv_data sv p = Some c"
    and rd: "read_main_header (en_malloc env) (en_stack env) (en_junk env) (sock_of sv (cl_connfd c)) =
      Inr (recv, s')"
    using assms(2) by (auto simp: serve_def split: sum.splits elim!: and_then_InrE)
  then have r: "(case recv of
        None \<Rightarrow> Some (exit_thread p (put_sock (cl_connfd c) s' sv))
      | Some h \<Rightarrow> handle env p h (put_sock (cl_connfd c) s' sv)) = Some (Inr sv')"
    using assms(2) by (auto simp: serve_def load_client_def split: option.splits)
  note i = quiet_both [OF quiet_upd(4) assms(1), of "cl_connfd c" s']
  show ?thesis
    using r i handle_inv [OF i [THEN conjunct1]] exit_thread_inv [OF i [THEN conjunct1]]
    by (auto split: option.splits intro: grows_trans)
qed

lemma accept_client_inv:
  assumes "sv_inv sv" and "sv_socks sv fd = None" and "length junk = MAX_CHAR_USERID"
  shows "sv_inv (accept_client p fd s junk sv) \<and> grows sv (accept_client p fd s junk sv)"
proof -
  have "fd \<noteq> cl_connfd c" if "sv_data sv q = Some c" for q c
    using that assms(1,2) by (auto simp: sv_inv_def clients_ok_def)
  then show ?thesis
    using assms by (auto simp: accept_client_def sv_inv_def clients_ok_def grows_def)
qed

lemma accept_turn_inv:
  assumes "sv_inv sv" and "accept_ok ac sv" and "accept_turn ac sv = Inr sv'"
  shows "sv_inv sv' \<and> grows sv sv'"
  using assms(2,3)
proof (cases rule: accept_turn_cases)
  case (served p)
  with accept_client_inv [OF assms(1), of "descriptor (ac_fd ac)" "ac_name ac"] assms(2) show ?thesis
    by (simp add: accept_ok_def)
next
  case unserved
  then show ?thesis using assms(1) by (auto simp: sv_inv_def clients_ok_def grows_def)
qed

lemma init_server_inv:
  assumes "hashmap_new a b = Some active"
  shows "sv_inv (init_server active files)"
  using hm_inv_new [OF hashmap_new_Some [OF assms]]
  by (auto simp: init_server_def sv_inv_def groups_ok_def clients_ok_def GROUP_NUM_MAX_def)

section \<open>Runs\<close>

text \<open>
  A transition system with an invariant and an order along which every step moves: runs keep the
  invariant and move along the order.
\<close>

locale ordered_system =
  fixes trans :: "'s \<Rightarrow> 's \<Rightarrow> bool"
    and inv :: "'s \<Rightarrow> bool"
    and le :: "'s \<Rightarrow> 's \<Rightarrow> bool"
  assumes trans_inv: "inv s \<Longrightarrow> trans s s' \<Longrightarrow> inv s' \<and> le s s'"
    and le_refl: "le s s"
    and le_trans: "le s t \<Longrightarrow> le t u \<Longrightarrow> le s u"
begin

lemma run_inv: "trans\<^sup>*\<^sup>* s s' \<Longrightarrow> inv s \<Longrightarrow> inv s' \<and> le s s'"
proof (induction rule: rtranclp_induct)
  case base
  then show ?case by (simp add: le_refl)
next
  case (step t u)
  then show ?case using trans_inv [of t u] le_trans [of s t u] by blast
qed

end

interpretation sys: ordered_system server_step sv_inv grows
proof unfold_locales
  show "sv_inv sv' \<and> grows sv sv'" if "sv_inv sv" "server_step sv sv'" for sv sv'
    using that(2)
  proof (cases rule: server_step.cases)
    case (connect ac)
    then show ?thesis using accept_turn_inv [OF that(1)] by blast
  next
    case (turn p env)
    then show ?thesis using serve_inv [OF that(1)] by blast
  qed
qed (simp, erule (1) grows_trans)

lemma reachable_run:
  "reachable sv \<longleftrightarrow> (\<exists>sc argv files fd sv0. server_main sc argv files = Running (fd, Some sv0) \<and>
    server_step\<^sup>*\<^sup>* sv0 sv)"
proof
  assume "reachable sv"
  then show "\<exists>sc argv files fd sv0. server_main sc argv files = Running (fd, Some sv0) \<and>
      server_step\<^sup>*\<^sup>* sv0 sv"
    by induction (blast intro: rtranclp.rtrancl_into_rtrancl)+
next
  assume "\<exists>sc argv files fd sv0. server_main sc argv files = Running (fd, Some sv0) \<and>
      server_step\<^sup>*\<^sup>* sv0 sv"
  then obtain sc argv files fd sv0 where "server_main sc argv files = Running (fd, Some sv0)"
    "server_step\<^sup>*\<^sup>* sv0 sv" by blast
  from this(2,1) show "reachable sv" by induction (blast intro: reachable.intros)+
qed

lemma server_main_inv: "server_main sc argv files = Running (fd, Some sv) \<Longrightarrow> sv_inv sv"
  by (auto simp: server_main_running intro: init_server_inv dest!: sym [of "Some _"])

lemma reachable_sv_inv: "reachable sv \<Longrightarrow> sv_inv sv"
  using sys.run_inv server_main_inv by (auto simp: reachable_run)

lemma reachable_new_map: "reachable (init_server new_map files)"
proof (rule reachable.start)
  show "server_main starting [''server'', ''5000''] files = Running (3, Some (init_server new_map files))"
    by (simp add: server_main_running starting_def new_map_new)
qed

section \<open>Properties\<close>

text \<open>A server with one group and two clients, of which user 1 is a member and online.\<close>

definition sample_env :: env where
  "sample_env = \<lparr>en_malloc = (\<lambda>_. True), en_calloc = (\<lambda>_. True), en_fopen = True,
     en_stack = replicate HDR_SIZE nul, en_junk = (\<lambda>_. space), en_split = (\<lambda>_ _ _. nul)\<rparr>"

definition sample_server :: server where
  "sample_server = (accept_client 7 4 (connection []) zero_name (init_server new_map Map.empty))
     \<lparr>sv_groups := (replicate GROUP_NUM_MAX [])[0 := [1]]\<rparr>"

definition sample_request :: "u8 \<Rightarrow> u8 \<Rightarrow> u16 \<Rightarrow> string \<Rightarrow> mainhdr" where
  "sample_request cmd gid uid text = \<lparr>hdr_cmd = cmd, hdr_gid = gid, hdr_uid = uid,
     hdr_len = of_nat (length text), hdr_payload = text @ [nul]\<rparr>"

lemma sample_groups [simp]:
  "length (sv_groups sample_server) = GROUP_NUM_MAX" "sv_groups sample_server ! 0 = [1]"
  "0 < i \<Longrightarrow> i < GROUP_NUM_MAX \<Longrightarrow> sv_groups sample_server ! i = []"
  "sv_group_cnt sample_server = 0"
  by (simp_all add: sample_server_def accept_client_def init_server_def
      nth_list_update GROUP_NUM_MAX_def)

lemma sample_inv: "sv_inv sample_server"
proof -
  have i: "sv_inv (init_server new_map Map.empty)" by (rule init_server_inv [OF new_map_new])
  have "sv_inv (accept_client 7 4 (connection []) zero_name (init_server new_map Map.empty))"
    using accept_client_inv [OF i, of 4 zero_name] by (simp add: init_server_def zero_name_def)
  moreover have "groups_ok ((replicate GROUP_NUM_MAX [])[0 := [1]]) 0"
    by (rule groups_ok_upd) (auto simp: groups_ok_def GROUP_NUM_MAX_def)
  moreover have "sv_group_cnt (accept_client 7 4 (connection []) zero_name
      (init_server new_map Map.empty)) = 0"
    by (simp add: accept_client_def init_server_def)
  ultimately show ?thesis by (simp add: sample_server_def sv_inv_def)
qed

text \<open>C2: In every state that the server can reach, each of the 255 groups has distinct members and
  never user 0, \<open>group_cnt\<close> stays inside the array and all groups below it are in use, the table of
  active users keeps its shape, and every client has an open descriptor that no other client shares
  and a user name buffer of eight characters.\<close>

theorem reachable_invariant:
  assumes "reachable sv"
  shows "length (sv_groups sv) = GROUP_NUM_MAX \<and>
    (\<forall>g \<in> set (sv_groups sv). distinct g \<and> 0 \<notin> set g) \<and>
    sv_group_cnt sv < GROUP_NUM_MAX \<and> (\<forall>i < sv_group_cnt sv. sv_groups sv ! i \<noteq> []) \<and>
    hm_inv (sv_active sv) \<and>
    (\<forall>p c. sv_data sv p = Some c \<longrightarrow>
      cl_connfd c \<in> dom (sv_socks sv) \<and> length (cl_username c) = MAX_CHAR_USERID) \<and>
    (\<forall>p q c d. sv_data sv p = Some c \<longrightarrow> sv_data sv q = Some d \<longrightarrow> cl_connfd c = cl_connfd d \<longrightarrow> p = q)"
  using reachable_sv_inv [OF assms] by (simp add: sv_inv_def groups_ok_def clients_ok_def)

theorem reachable_invariant_witness:
  "\<exists>sv :: server. sv_data sv 7 \<noteq> None \<and> length (sv_groups sv) = GROUP_NUM_MAX \<and>
    (\<forall>g \<in> set (sv_groups sv). distinct g \<and> 0 \<notin> set g) \<and>
    sv_group_cnt sv < GROUP_NUM_MAX \<and> (\<forall>i < sv_group_cnt sv. sv_groups sv ! i \<noteq> []) \<and>
    hm_inv (sv_active sv) \<and>
    (\<forall>p c. sv_data sv p = Some c \<longrightarrow>
      cl_connfd c \<in> dom (sv_socks sv) \<and> length (cl_username c) = MAX_CHAR_USERID) \<and>
    (\<forall>p q c d. sv_data sv p = Some c \<longrightarrow> sv_data sv q = Some d \<longrightarrow> cl_connfd c = cl_connfd d \<longrightarrow> p = q)"
proof (rule exI, rule conjI)
  let ?sv = "accept_client 7 4 (connection []) zero_name (init_server new_map Map.empty)"
  show "sv_data ?sv 7 \<noteq> None" by (simp add: accept_client_def)
  have "server_step (init_server new_map Map.empty) ?sv"
    by (rule step_accept(3)) (simp_all add: init_server_def zero_name_def)
  with reachable_new_map have "reachable ?sv" by (rule reachable.step)
  then show "length (sv_groups ?sv) = GROUP_NUM_MAX \<and>
    (\<forall>g \<in> set (sv_groups ?sv). distinct g \<and> 0 \<notin> set g) \<and>
    sv_group_cnt ?sv < GROUP_NUM_MAX \<and> (\<forall>i < sv_group_cnt ?sv. sv_groups ?sv ! i \<noteq> []) \<and>
    hm_inv (sv_active ?sv) \<and>
    (\<forall>p c. sv_data ?sv p = Some c \<longrightarrow>
      cl_connfd c \<in> dom (sv_socks ?sv) \<and> length (cl_username c) = MAX_CHAR_USERID) \<and>
    (\<forall>p q c d. sv_data ?sv p = Some c \<longrightarrow> sv_data ?sv q = Some d \<longrightarrow>
      cl_connfd c = cl_connfd d \<longrightarrow> p = q)"
    by (rule reachable_invariant)
qed

text \<open>C27: Groups only grow: over any run from a reachable state, whatever clients connect, send or
  disconnect, the members of each group stay members, in the order in which they joined.\<close>

theorem members_stay:
  assumes "reachable sv" and "server_step\<^sup>*\<^sup>* sv sv'" and "i < GROUP_NUM_MAX"
  shows "prefix (sv_groups sv ! i) (sv_groups sv' ! i)"
proof -
  have inv: "sv_inv sv" using assms(1) by (rule reachable_sv_inv)
  then have "length (sv_groups sv) = GROUP_NUM_MAX" by (simp add: sv_inv_def groups_ok_def)
  with sys.run_inv [OF assms(2) inv] assms(3) show ?thesis by (simp add: grows_def)
qed

theorem members_stay_witness:
  "prefix (sv_groups (init_server new_map Map.empty) ! 3)
    (sv_groups (accept_client 7 4 (connection []) zero_name (init_server new_map Map.empty)) ! 3)"
proof (rule members_stay)
  show "reachable (init_server new_map Map.empty)" by (rule reachable_new_map)
  show "server_step\<^sup>*\<^sup>* (init_server new_map Map.empty)
      (accept_client 7 4 (connection []) zero_name (init_server new_map Map.empty))"
    by (rule r_into_rtranclp, rule step_accept(3)) (simp_all add: init_server_def zero_name_def)
qed (simp add: GROUP_NUM_MAX_def)

text \<open>\<open>INVITE_RESP\<close> on an existing group number: the user named in the header joins at the end of
  the group exactly when the header is valid, the group exists, the user is not yet a member, the
  payload starts with \<open>a\<close> and there is memory; in all other cases nothing changes. That the user was
  ever invited is not checked.\<close>

lemma invite_resp_decides:
  assumes "sv_inv sv" and "unat (hdr_gid recv) < GROUP_NUM_MAX" and "hdr_payload recv \<noteq> []"
  shows "handle_invite_resp env recv sv = Inr
    (if hdr_uid recv \<noteq> 0 \<and> unat (hdr_len recv) < MAX_CHAR_USERID \<and>
        sv_groups sv ! unat (hdr_gid recv) \<noteq> [] \<and>
        hdr_uid recv \<notin> set (sv_groups sv ! unat (hdr_gid recv)) \<and>
        hd (hdr_payload recv) = CHR ''a'' \<and> en_malloc env NODE_SIZE
     then sv\<lparr>sv_groups := (sv_groups sv)[unat (hdr_gid recv) :=
            sv_groups sv ! unat (hdr_gid recv) @ [hdr_uid recv]]\<rparr>
     else sv)"
proof -
  have "length (sv_groups sv) = GROUP_NUM_MAX" using assms(1) by (simp add: sv_inv_def groups_ok_def)
  with assms(2,3) handle_invite_resp_eq [of recv sv env] show ?thesis by (simp add: Let_def)
qed

lemma invite_resp_decides_witness:
  "handle_invite_resp sample_env (sample_request INVITE_RESP 0 2 ''accept'') sample_server = Inr
    (if hdr_uid (sample_request INVITE_RESP 0 2 ''accept'') \<noteq> 0 \<and>
        unat (hdr_len (sample_request INVITE_RESP 0 2 ''accept'')) < MAX_CHAR_USERID \<and>
        sv_groups sample_server ! unat (hdr_gid (sample_request INVITE_RESP 0 2 ''accept'')) \<noteq> [] \<and>
        hdr_uid (sample_request INVITE_RESP 0 2 ''accept'') \<notin>
          set (sv_groups sample_server ! unat (hdr_gid (sample_request INVITE_RESP 0 2 ''accept''))) \<and>
        hd (hdr_payload (sample_request INVITE_RESP 0 2 ''accept'')) = CHR ''a'' \<and>
        en_malloc sample_env NODE_SIZE
     then sample_server\<lparr>sv_groups := (sv_groups sample_server)
            [unat (hdr_gid (sample_request INVITE_RESP 0 2 ''accept'')) :=
            sv_groups sample_server ! unat (hdr_gid (sample_request INVITE_RESP 0 2 ''accept'')) @
              [hdr_uid (sample_request INVITE_RESP 0 2 ''accept'')]]\<rparr>
     else sample_server)"
  by (rule invite_resp_decides [OF sample_inv]) (simp_all add: sample_request_def GROUP_NUM_MAX_def)

text \<open>C13: \<open>INVITE\<close>, \<open>SEND_CHAT\<close> and \<open>DOWNLOAD_FILE\<close> in the name of a user who is not a member of
  the group leave the whole state as it was, sockets and files included: nothing reaches the group
  and nothing comes back. The user is the one that the packet names, whoever sent it.\<close>

theorem nonmember_refused:
  assumes "sv_inv sv" and "unat (hdr_gid recv) < GROUP_NUM_MAX"
    and "hdr_uid recv \<notin> set (sv_groups sv ! unat (hdr_gid recv))" and "nul \<in> set (hdr_payload recv)"
  shows "handle_invite env recv sv = Inr sv \<and> handle_send_chat env recv sv = Inr sv \<and>
    handle_download_file env p recv sv = Inr sv"
proof -
  have g: "group_at sv (hdr_gid recv) = Inr (sv_groups sv ! unat (hdr_gid recv))"
    using assms(1,2) by (simp add: group_at_Inr sv_inv_def groups_ok_def)
  then have c: "check_user_in_group sv (hdr_uid recv) (hdr_gid recv) = Inr ERR_GENERIC"
    using assms(3) by (simp add: check_user_in_group_def find_member_iff)
  have "\<exists>s. c_str (hdr_payload recv) = Inr s" using assms(4) by (simp add: c_str_def)
  with g c show ?thesis
    by (auto simp: handle_invite_def handle_send_chat_def handle_download_file_def Let_def)
qed

theorem nonmember_refused_witness:
  "handle_invite sample_env (sample_request INVITE 0 2 ''bob'') sample_server = Inr sample_server \<and>
    handle_send_chat sample_env (sample_request INVITE 0 2 ''bob'') sample_server = Inr sample_server \<and>
    handle_download_file sample_env 7 (sample_request INVITE 0 2 ''bob'') sample_server =
      Inr sample_server"
  by (rule nonmember_refused [OF sample_inv]) (simp_all add: sample_request_def GROUP_NUM_MAX_def)

end
