(* ===== verification/Server_Delivery.thy ===== *)
theory Server_Delivery
  imports Server_Invariant
begin

text \<open>
  What the server sends: forwarding to a group, chat messages, and files with their notices.
\<close>

section \<open>Delivery\<close>

definition willing :: "server \<Rightarrow> bool" where
  "willing sv \<longleftrightarrow> (\<forall>fd s. sv_socks sv fd = Some s \<longrightarrow> sk_accept s = [])"

text \<open>The descriptor under which the table of active users finds a user.\<close>

definition online :: "server \<Rightarrow> u16 \<Rightarrow> nat option" where
  "online sv u = (case hm_lookup (sv_active sv) (ucast u) of
     Some (Some p) \<Rightarrow> map_option cl_connfd (sv_data sv p) | _ \<Rightarrow> None)"

lemma online_socks [simp]: "online (sv\<lparr>sv_socks := f\<rparr>) = online sv"
  by (auto simp: online_def fun_eq_iff split: option.split)

text \<open>None of the users has an entry that points to freed memory or to a closed descriptor.\<close>

definition sound_for :: "server \<Rightarrow> u16 list \<Rightarrow> bool" where
  "sound_for sv us \<longleftrightarrow> (\<forall>u \<in> set us. \<forall>d. hm_lookup (sv_active sv) (ucast u) = Some d \<longrightarrow>
     (\<exists>p c s. d = Some p \<and> sv_data sv p = Some c \<and> sv_socks sv (cl_connfd c) = Some s))"

definition repeated :: "nat \<Rightarrow> char list \<Rightarrow> char list" where
  "repeated n bs = concat (replicate n bs)"

lemma repeated_simps [simp]: "repeated 0 bs = []" "repeated (Suc n) bs = bs @ repeated n bs"
  by (simp_all add: repeated_def)

text \<open>Every open descriptor has sent what \<open>n\<close> says, in addition.\<close>

definition sent_more :: "server \<Rightarrow> server \<Rightarrow> (nat \<Rightarrow> char list) \<Rightarrow> bool" where
  "sent_more sv sv' extra \<longleftrightarrow> (\<forall>fd s. sv_socks sv fd = Some s \<longrightarrow>
     sv_socks sv' fd = Some (s\<lparr>sk_sent := sk_sent s @ extra fd\<rparr>))"

lemma sendable_cut:
  assumes "sendable h"
  shows "sendable (h\<lparr>hdr_payload := take (unat (hdr_len h)) (hdr_payload h)\<rparr>)"
    "packet (h\<lparr>hdr_payload := take (unat (hdr_len h)) (hdr_payload h)\<rparr>) = packet h"
  using assms by (simp_all add: sendable_def packet_def)

lemma send_on_ok:
  assumes "sendable h" and "sv_socks sv fd = Some s" and "sk_accept s = []"
  shows "send_on h fd sv = Inr (0, sv\<lparr>sv_socks := (sv_socks sv)(fd \<mapsto>
    s\<lparr>sk_sent := sk_sent s @ packet h\<rparr>)\<rparr>)"
  using assms by (simp add: send_on_def send_main_header_ok)

lemma reply_ok:
  assumes "sendable h" and "sv_data sv p = Some c" and "sv_socks sv (cl_connfd c) = Some s"
    and "sk_accept s = []"
  shows "reply p h sv = Inr (sv\<lparr>sv_socks := (sv_socks sv)(cl_connfd c \<mapsto>
    s\<lparr>sk_sent := sk_sent s @ packet h\<rparr>)\<rparr>)"
  using assms by (simp add: reply_def load_client_def send_on_ok)

lemma forward_loop_ok:
  assumes "hm_inv (sv_active sv)" and "willing sv" and "sound_for sv us" and "sendable h"
  shows "\<exists>sv'. forward_loop True h us sv = Inr sv' \<and> quiet sv sv' \<and> willing sv' \<and>
    sv_files sv' = sv_files sv \<and>
    sent_more sv sv' (\<lambda>fd. repeated (length (filter (\<lambda>u. online sv u = Some fd) us)) (packet h))"
  using assms(1-3)
proof (induction us arbitrary: sv)
  case Nil
  then show ?case by (simp add: sent_more_def)
next
  case (Cons u us)
  note get = hashmap_get_lookup [OF Cons.prems(1), of "ucast u"]
  show ?case
  proof (cases "hm_lookup (sv_active sv) (ucast u)")
    case None
    then have "online sv u = None" by (simp add: online_def)
    then show ?thesis
      using Cons.IH [of sv] Cons.prems get None by (simp add: sound_for_def)
  next
    case (Some d)
    with Cons.prems(3) obtain p c s where d: "d = Some p" "sv_data sv p = Some c"
        "sv_socks sv (cl_connfd c) = Some s"
      by (auto simp: sound_for_def)
    let ?s = "s\<lparr>sk_sent := sk_sent s @ packet h\<rparr>"
    let ?sv = "sv\<lparr>sv_socks := (sv_socks sv)(cl_connfd c \<mapsto> ?s)\<rparr>"
    have acc: "sk_accept s = []" using Cons.prems(2) d(3) by (auto simp: willing_def)
    have step: "forward_loop True h (u # us) sv = forward_loop True h us ?sv"
      using get Some d acc send_on_ok [OF sendable_cut(1) [OF assms(4)] d(3) acc]
      by (simp add: load_client_def sendable_cut(2) [OF assms(4)])
    have on: "online ?sv = online sv" "online sv u = Some (cl_connfd c)"
      using Some d by (simp, simp add: online_def)
    have "sound_for ?sv us"
      using Cons.prems(3) d(3) by (fastforce simp: sound_for_def)
    moreover have "willing ?sv" using Cons.prems(2) acc by (auto simp: willing_def)
    ultimately obtain sv' where sv': "forward_loop True h us ?sv = Inr sv'" "quiet ?sv sv'" "willing sv'"
        "sv_files sv' = sv_files sv"
        "sent_more ?sv sv' (\<lambda>fd. repeated (length (filter (\<lambda>u. online sv u = Some fd) us)) (packet h))"
      using Cons.IH [of ?sv] Cons.prems(1) on(1) by auto
    have "quiet sv ?sv" using d(3) by simp
    moreover have "sent_more sv sv'
        (\<lambda>fd. repeated (length (filter (\<lambda>u. online sv u = Some fd) (u # us))) (packet h))"
      using sv'(5) d(3) on(2) by (auto simp: sent_more_def)
    ultimately show ?thesis using step sv' quiet_trans by auto
  qed
qed

text \<open>Without memory for the copy the first member that is online stops the server.\<close>

lemma forward_without_memory:
  "hm_inv (sv_active sv) \<Longrightarrow> hm_lookup (sv_active sv) (ucast u) \<noteq> None \<Longrightarrow>
    forward_loop False h (u # us) sv = Inl Null_Pointer"
  by (auto simp: hashmap_get_lookup)

section \<open>Packets the server makes\<close>

lemma new_packet_ok:
  assumes "n < 2 ^ 31" and "\<And>k. en_malloc env k"
  shows "new_packet env cmd gid uid (of_nat n) = Inr \<lparr>hdr_cmd = cmd, hdr_gid = gid, hdr_uid = uid,
    hdr_len = of_nat n, hdr_payload = replicate (n + 1) nul\<rparr>"
proof -
  have small: "unat (of_nat k :: u32) = k" if "k < 2 ^ 32" for k
    using that by (simp add: unat_of_nat)
  have "unat (of_nat n :: u32) = n" by (rule small) (use assms(1) in simp)
  moreover have "unat (of_nat (n + 1) :: u32) = n + 1" by (rule small) (use assms(1) in simp)
  then have "unat (of_nat n + 1 :: u32) = n + 1" by (simp only: of_nat_add of_nat_1)
  ultimately show ?thesis by (simp add: new_packet_def create_and_fill_hdr_def assms(2) del: replicate.simps)
qed

text \<open>The answers of one byte.\<close>

definition answer :: "u8 \<Rightarrow> u8 \<Rightarrow> u16 \<Rightarrow> int \<Rightarrow> mainhdr" where
  "answer cmd gid uid code = \<lparr>hdr_cmd = cmd, hdr_gid = gid, hdr_uid = uid, hdr_len = 1,
     hdr_payload = [code_byte code, nul]\<rparr>"

lemma new_packet_one:
  assumes "\<And>k. en_malloc env k"
  shows "new_packet env cmd gid uid 1 = Inr \<lparr>hdr_cmd = cmd, hdr_gid = gid, hdr_uid = uid,
    hdr_len = 1, hdr_payload = [nul, nul]\<rparr>"
  using new_packet_ok [of 1 env cmd gid uid, OF _ assms] by simp

lemma set_code_answer [simp]:
  "set_code e \<lparr>hdr_cmd = cmd, hdr_gid = gid, hdr_uid = uid, hdr_len = 1, hdr_payload = [nul, nul]\<rparr> =
    answer cmd gid uid e"
  by (simp add: set_code_def answer_def)

lemma answer_sendable [simp]: "sendable (answer cmd gid uid e)"
  by (simp add: sendable_def answer_def)


section \<open>Chat messages\<close>

text \<open>The packet that reaches the members: the sender's name, a colon and the text.\<close>

definition chat_packet :: "string \<Rightarrow> mainhdr \<Rightarrow> mainhdr" where
  "chat_packet name recv = \<lparr>hdr_cmd = SEND_CHAT, hdr_gid = hdr_gid recv, hdr_uid = hdr_uid recv,
     hdr_len = of_nat (length name + 1 + unat (hdr_len recv)),
     hdr_payload = name @ '':'' @ take (unat (hdr_len recv)) (hdr_payload recv) @ [nul]\<rparr>"

lemma chat_packet_sendable:
  assumes "sendable recv" and "unat (hdr_len recv) < 2 ^ 30" and "length name < MAX_CHAR_USERID"
  shows "sendable (chat_packet name recv)"
proof -
  have small: "unat (of_nat k :: u32) = k" if "k < 2 ^ 31" for k
    using that by (simp add: unat_of_nat)
  have "unat (hdr_len (chat_packet name recv)) = length name + 1 + unat (hdr_len recv)"
    unfolding chat_packet_def mainhdr.simps
    by (rule small) (use assms in \<open>simp add: MAX_CHAR_USERID_def\<close>)
  then show ?thesis
    using assms by (simp add: sendable_def chat_packet_def MAX_CHAR_USERID_def)
qed

text \<open>The payload is built in a zeroed buffer, piece by piece.\<close>

lemma blit_zeros:
  assumes "length a + length b \<le> n + length a"
  shows "blit (a @ replicate n nul) (length a) b = Inr (a @ b @ replicate (n - length b) nul)"
  using assms by (simp add: blit_def)

lemma handle_send_chat_member:
  assumes "hdr_uid recv \<in> set g" and "group_at sv (hdr_gid recv) = Inr g" and "hdr_uid recv \<noteq> 0"
    and "sendable recv" and "unat (hdr_len recv) < 2 ^ 30" and "\<And>k. en_malloc env k"
    and "find_username (file_of sv CREDENTIAL_FILE_NAME) (hdr_uid recv) zero_name =
      Inr (int (length name), name_buf name)"
    and "name \<noteq> []" and "length name < MAX_CHAR_USERID" and "nul \<notin> set name"
  shows "handle_send_chat env recv sv = forward_loop True (chat_packet name recv) g sv"
proof -
  let ?k = "length name" and ?n = "unat (hdr_len recv)"
  let ?L = "?k + 1 + ?n"
  have L: "?L < 2 ^ 31" using assms(5,9) by (simp add: MAX_CHAR_USERID_def)
  have len: "hdr_len recv + of_int (int ?k) + 1 = of_nat ?L"
    by (simp add: ac_simps)
  have new: "new_packet env SEND_CHAT (hdr_gid recv) (hdr_uid recv) (hdr_len recv + of_int (int ?k) + 1) =
      Inr \<lparr>hdr_cmd = SEND_CHAT, hdr_gid = hdr_gid recv, hdr_uid = hdr_uid recv,
        hdr_len = of_nat ?L, hdr_payload = replicate (?L + 1) nul\<rparr>"
    unfolding len by (rule new_packet_ok [OF L assms(6)])
  have copy: "strncpy (replicate (?L + 1) nul) (name_buf name) ?k = Inr (name @ replicate (1 + ?n + 1) nul)"
    using strncpy_exact [of name "replicate (?L + 1) nul" "replicate (MAX_CHAR_USERID - ?k) nul"] assms(10)
    by (simp add: name_buf_def del: replicate.simps)
  have colon: "blit (name @ replicate (1 + ?n + 1) nul) ?k '':'' =
      Inr ((name @ '':'') @ replicate (?n + 1) nul)"
    using blit_zeros [of name "'':''" "1 + ?n + 1"] by (simp del: replicate.simps)
  let ?t = "take ?n (hdr_payload recv)"
  have lt: "length ?t = ?n" using assms(4) by (simp add: sendable_def)
  have body: "blit ((name @ '':'') @ replicate (?n + 1) nul) (?k + 1) ?t =
      Inr (name @ '':'' @ ?t @ [nul])"
    using blit_zeros [of "name @ '':''" ?t "?n + 1"] lt by (simp add: numeral_eq_Suc)
  have fits: "\<not> length (hdr_payload recv) < ?n" using assms(4) by (simp add: sendable_def)
  have hd: "check_header_chat recv = 0" using assms(3) by (simp add: check_header_chat_ok)
  have g: "g \<noteq> []" "check_user_in_group sv (hdr_uid recv) (hdr_gid recv) = Inr 0"
    using assms(1,2) by (auto simp: check_user_in_group_def find_member_iff)
  show ?thesis
    using assms(8) fits
    by (simp add: handle_send_chat_def hd g assms(2,7) new [simplified] copy [simplified]
        colon [simplified] body [simplified] forward_to_group_def chat_packet_def assms(6))
qed

section \<open>Files sent to a group\<close>

text \<open>The notice that the group gets when a file has arrived.\<close>

definition notice_packet :: "string \<Rightarrow> string \<Rightarrow> mainhdr \<Rightarrow> mainhdr" where
  "notice_packet name filename recv = \<lparr>hdr_cmd = SEND_CHAT, hdr_gid = hdr_gid recv,
     hdr_uid = hdr_uid recv, hdr_len = of_nat (length name + length filename + 17),
     hdr_payload = name @ '' just send file '' @ filename @ [nul, nul]\<rparr>"

lemma hd_print_nat: "is_digit (hd (print_nat n))"
  using print_nat_digits [of "hd (print_nat n)" n] print_nat_ne [of n] by simp

lemma file_name_fresh:
  assumes "filename = file_name gid cnt"
  shows "norm_path filename = filename" "filename \<noteq> ''credential.txt''" "length filename \<le> 99"
    "nul \<notin> set filename"
proof -
  obtain c cs where c: "print_nat (unat gid) = c # cs" using print_nat_ne by (cases "print_nat (unat gid)") auto
  then have d: "is_digit c" using hd_print_nat [of "unat gid"] by simp
  have f: "filename = c # take 98 (cs @ ''_'' @ print_int cnt @ ''.file'')"
    by (simp add: assms file_name_def c numeral_eq_Suc)
  show "norm_path filename = filename" using is_digit_plain(9) [OF d] by (simp add: norm_path_def f take_Cons')
  show "filename \<noteq> ''credential.txt''" using d by (auto simp: f is_digit_def)
  show "length filename \<le> 99" by (simp add: assms file_name_def)
  have "nul \<notin> set (print_nat n)" for n by (rule plain_seps(3)) simp
  moreover have "nul \<notin> set (print_int cnt)"
    using plain_seps(3) [OF print_nat_plain] by (auto simp: print_int_def nul_def)
  ultimately show "nul \<notin> set filename"
    by (auto simp: assms file_name_def nul_def dest!: in_set_takeD)
qed

lemma set_file_other:
  "norm_path a \<noteq> norm_path b \<Longrightarrow> file_of (set_file a content sv) b = file_of sv b"
  by (simp add: file_of_def set_file_def)

lemma notice_built:
  assumes "\<And>k. en_malloc env k" and "length name < MAX_CHAR_USERID" and "length filename \<le> 99"
  shows "\<exists>send. new_packet env SEND_CHAT gid uid (of_int (int (length name)) + of_nat (length filename) + 17) =
      Inr send \<and> hdr_gid send = gid \<and>
    snprintf_into (hdr_payload send) (unat (hdr_len send + 1)) (name @ '' just send file '' @ filename) =
      Inr (name @ '' just send file '' @ filename @ [nul, nul]) \<and>
    (\<forall>payload. send\<lparr>hdr_payload := payload\<rparr> = \<lparr>hdr_cmd = SEND_CHAT, hdr_gid = gid, hdr_uid = uid,
      hdr_len = of_nat (length name + length filename + 17), hdr_payload = payload\<rparr>)"
proof -
  define m where "m = length name + length filename + 16"
  have small: "unat (of_nat k :: u32) = k" if "k < 2 ^ 31" for k
    using that by (simp add: unat_of_nat)
  have m: "m < 200" using assms(2,3) by (simp add: m_def MAX_CHAR_USERID_def)
  have len: "of_int (int (length name)) + of_nat (length filename) + 17 = (of_nat (m + 1) :: u32)"
    by (simp add: m_def)
  have u: "unat (of_nat (m + 1) + 1 :: u32) = m + 2"
    using small [of "m + 2"] m by (simp add: ac_simps)
  have new: "new_packet env SEND_CHAT gid uid (of_nat (m + 1)) = Inr \<lparr>hdr_cmd = SEND_CHAT, hdr_gid = gid,
      hdr_uid = uid, hdr_len = of_nat (m + 1), hdr_payload = replicate (m + 1 + 1) nul\<rparr>"
    by (rule new_packet_ok) (use m assms(1) in simp_all)
  have "length (name @ '' just send file '' @ filename) = m" by (simp add: m_def)
  then have "snprintf_into (replicate (m + 1 + 1) nul) (m + 2) (name @ '' just send file '' @ filename) =
      Inr ((name @ '' just send file '' @ filename) @ [nul] @ drop (m + 1) (replicate (m + 1 + 1) nul))"
    by (simp add: snprintf_into_def blit_def del: replicate.simps)
  moreover have "drop (m + 1) (replicate (m + 1 + 1) nul) = [nul]"
    unfolding drop_replicate by simp
  ultimately have pay: "snprintf_into (replicate (m + 1 + 1) nul) (m + 2)
      (name @ '' just send file '' @ filename) = Inr (name @ '' just send file '' @ filename @ [nul, nul])"
    by simp
  have meq: "length name + length filename + 17 = m + 1" by (simp add: m_def)
  let ?send = "\<lparr>hdr_cmd = SEND_CHAT, hdr_gid = gid, hdr_uid = uid,
      hdr_len = of_nat (m + 1), hdr_payload = replicate (m + 1 + 1) nul\<rparr>"
  show ?thesis
    unfolding len meq
  proof (intro exI conjI)
    show "new_packet env SEND_CHAT gid uid (of_nat (m + 1)) = Inr ?send" by (rule new)
    show "snprintf_into (hdr_payload ?send) (unat (hdr_len ?send + 1))
        (name @ '' just send file '' @ filename) = Inr (name @ '' just send file '' @ filename @ [nul, nul])"
      using pay by (simp only: mainhdr.simps u)
  qed simp_all
qed

lemma handle_send_file_eq:
  assumes "sv_data sv p = Some c" and "sv_socks sv (cl_connfd c) = Some s" and "clean s"
    and "en_fopen env" and "\<And>k. en_malloc env k" and "filename = file_name (hdr_gid recv) (sv_file_cnt sv)"
    and "find_username (file_of sv CREDENTIAL_FILE_NAME) (hdr_uid recv) zero_name =
      Inr (int (length name), name_buf name)"
    and "length name < MAX_CHAR_USERID" and "nul \<notin> set name"
    and "sint (hdr_len recv) \<le> int (length (stream s))"
  shows "\<exists>sv1 s'. handle_send_file env p recv sv =
      Some (forward_to_group env (hdr_gid recv) (notice_packet name filename recv) sv1) \<and>
    sv1 = set_file filename (Some (take (nat (sint (hdr_len recv))) (stream s)))
      (sv\<lparr>sv_file_cnt := sv_file_cnt sv + 1, sv_socks := (sv_socks sv)(cl_connfd c \<mapsto> s')\<rparr>) \<and>
    same_out s s' \<and> stream s' = drop (nat (sint (hdr_len recv))) (stream s)"
proof -
  note F = file_name_fresh [OF assms(6)]
  obtain s' where s': "receive_loop (sint (hdr_len recv)) s [] =
      Some (Inr ([] @ take (nat (sint (hdr_len recv))) (stream s), s'))"
      "stream s' = drop (nat (sint (hdr_len recv))) (stream s)" "same_out s s'"
    using receive_loop_enough [OF assms(3,10), of "[]"] by blast
  let ?content = "take (nat (sint (hdr_len recv))) (stream s)"
  let ?sv = "sv\<lparr>sv_file_cnt := sv_file_cnt sv + 1, sv_socks := (sv_socks sv)(cl_connfd c \<mapsto> s')\<rparr>"
  have "norm_path CREDENTIAL_FILE_NAME = ''credential.txt''"
    by (simp add: norm_path_def CREDENTIAL_FILE_NAME_def)
  then have "file_of (set_file filename (Some ?content) ?sv) CREDENTIAL_FILE_NAME =
      file_of sv CREDENTIAL_FILE_NAME"
    using F(1,2) by (subst set_file_other) (simp_all add: file_of_def)
  then have cred: "find_username (file_of (set_file filename (Some ?content) ?sv) CREDENTIAL_FILE_NAME)
      (hdr_uid recv) zero_name = Inr (int (length name), name_buf name)"
    using assms(7) by simp
  have str: "c_str (name_buf name) = Inr name"
    using assms(8,9) by (simp add: name_buf_def c_str_replicate)
  obtain send where send: "new_packet env SEND_CHAT (hdr_gid recv) (hdr_uid recv)
        (of_int (int (length name)) + of_nat (length filename) + 17) = Inr send"
      "hdr_gid send = hdr_gid recv"
      "snprintf_into (hdr_payload send) (unat (hdr_len send + 1)) (name @ '' just send file '' @ filename) =
        Inr (name @ '' just send file '' @ filename @ [nul, nul])"
      "\<And>payload. send\<lparr>hdr_payload := payload\<rparr> = \<lparr>hdr_cmd = SEND_CHAT, hdr_gid = hdr_gid recv,
        hdr_uid = hdr_uid recv, hdr_len = of_nat (length name + length filename + 17), hdr_payload = payload\<rparr>"
    using notice_built [OF assms(5,8) F(3), of "hdr_gid recv" "hdr_uid recv"] by blast
  have "handle_send_file env p recv sv =
      Some (forward_to_group env (hdr_gid recv) (notice_packet name filename recv)
        (set_file filename (Some ?content) ?sv))"
    unfolding handle_send_file_def assms(6) [symmetric] Let_def
    using assms(1,2,4) s'(1) cred send(1,2,3) str
    by (simp add: load_client_def receive_to_file_def put_sock_def send(4) notice_packet_def
        del: of_int_of_nat_eq)
  then show ?thesis using s'(2,3) by blast
qed

lemma handle_send_file_short:
  assumes "sv_data sv p = Some c" and "sv_socks sv (cl_connfd c) = Some s" and "clean s"
    and "en_fopen env" and "int (length (stream s)) < sint (hdr_len recv)"
  shows "handle_send_file env p recv sv = None"
proof -
  have "receive_loop (sint (hdr_len recv)) s [] = None"
    using receive_loop_short [OF _ assms(3,5), of "[]"]
    by (cases "receive_loop (sint (hdr_len recv)) s []") auto
  then show ?thesis
    using assms(1,2,4) by (simp add: handle_send_file_def Let_def load_client_def receive_to_file_def)
qed

section \<open>Properties\<close>

text \<open>The sample server with user 1, \<open>ann\<close>, logged in on its connection, and a credential file.\<close>

definition online_map :: "nat hashmap_map" where
  "online_map = (case hashmap_put (\<lambda>_. True) new_map 1 (Some 7) of Inr (_, m) \<Rightarrow> m | Inl _ \<Rightarrow> new_map)"

lemma online_map_facts: "hm_inv online_map" "hm_lookup online_map = [1 \<mapsto> Some 7]"
proof -
  have m: "hm_inv new_map" "0 < hm_room new_map"
    using hm_inv_new [OF new_map_new] hm_room_new [OF new_map_new] INITIAL_SIZE_bounds(1) by simp_all
  have e: "hm_lookup new_map = Map.empty"
    using hm_lookup_new [OF new_map_new] by (simp add: fun_eq_iff)
  show "hm_inv online_map" "hm_lookup online_map = [1 \<mapsto> Some 7]"
    using hm.put_room [OF m, of "\<lambda>_. True" 1 "Some 7"] e by (auto simp: online_map_def)
qed

definition online_server :: "read_event list \<Rightarrow> server" where
  "online_server es = sample_server\<lparr>sv_active := online_map,
     sv_socks := [4 \<mapsto> connection es], sv_files := [''credential.txt'' \<mapsto> cred_file sample_users]\<rparr>"

lemma online_server_facts [simp]:
  "sv_data (online_server es) = [7 \<mapsto> \<lparr>cl_connfd = 4, cl_message_queue = zero_queue, cl_uid = -1,
     cl_username = zero_name, cl_file_id = 0\<rparr>]"
  "sv_socks (online_server es) = [4 \<mapsto> connection es]"
  "sv_groups (online_server es) = sv_groups sample_server"
  "sv_active (online_server es) = online_map"
  "file_of (online_server es) CREDENTIAL_FILE_NAME = Some (cred_file sample_users)"
  by (simp_all add: online_server_def sample_server_def accept_client_def
      init_server_def file_of_def norm_path_def CREDENTIAL_FILE_NAME_def)

lemma online_server_inv: "sv_inv (online_server es)"
proof -
  have "groups_ok (sv_groups sample_server) (sv_group_cnt sample_server)"
    using sample_inv by (simp only: sv_inv_def)
  moreover have "sv_group_cnt (online_server es) = sv_group_cnt sample_server"
    by (simp add: online_server_def)
  ultimately show ?thesis
    using online_map_facts(1) by (simp add: sv_inv_def clients_ok_def zero_name_def)
qed

lemma online_server_sound: "willing (online_server es)" "sound_for (online_server es) [1]"
  using online_map_facts(2)
  by (auto simp: willing_def sound_for_def connection_def)

text \<open>\<open>forward_to_group\<close> with connections that accept what is written, and no stale entry among
  the members: it returns, every connection gets the packet once for each member that the table of
  active users finds there, every other connection gets nothing, and nothing else changes. Members
  that are not online are passed over.\<close>

lemma forward_reaches_online:
  assumes "sv_inv sv" and "willing sv" and "group_at sv gid = Inr g" and "sound_for sv g"
    and "sendable h" and "\<And>k. en_malloc env k"
  shows "\<exists>sv'. forward_to_group env gid h sv = Inr sv' \<and>
    sv_groups sv' = sv_groups sv \<and> sv_active sv' = sv_active sv \<and> sv_data sv' = sv_data sv \<and>
    sv_files sv' = sv_files sv \<and> dom (sv_socks sv') = dom (sv_socks sv) \<and>
    (\<forall>fd s. sv_socks sv fd = Some s \<longrightarrow> sv_socks sv' fd = Some (s\<lparr>sk_sent := sk_sent s @
      repeated (length (filter (\<lambda>u. online sv u = Some fd) g)) (packet h)\<rparr>))"
proof -
  have "hm_inv (sv_active sv)" using assms(1) by (simp add: sv_inv_def)
  from forward_loop_ok [OF this assms(2,4,5)] assms(3,6) show ?thesis
    by (auto simp: forward_to_group_def quiet_def sent_more_def)
qed

lemma forward_reaches_online_witness:
  "\<exists>sv'. forward_to_group sample_env 0 sample_header (online_server []) = Inr sv' \<and>
    sv_groups sv' = sv_groups (online_server []) \<and> sv_active sv' = sv_active (online_server []) \<and>
    sv_data sv' = sv_data (online_server []) \<and> sv_files sv' = sv_files (online_server []) \<and>
    dom (sv_socks sv') = dom (sv_socks (online_server [])) \<and>
    (\<forall>fd s. sv_socks (online_server []) fd = Some s \<longrightarrow> sv_socks sv' fd = Some (s\<lparr>sk_sent := sk_sent s @
      repeated (length (filter (\<lambda>u. online (online_server []) u = Some fd) [1])) (packet sample_header)\<rparr>))"
  by (rule forward_reaches_online [OF online_server_inv online_server_sound(1) _ online_server_sound(2)])
    (simp_all add: group_at_Inr sendable_def sample_header_def GROUP_NUM_MAX_def sample_env_def)

text \<open>C11: \<open>SEND_CHAT\<close> in the name of a registered member: every connection of an online member gets
  the packet with the sender's name, a colon and the text, all other connections get nothing, and
  the server state is otherwise as before. The connection that the request came from plays no part:
  nothing ties the user id in the packet to the user that logged in there.\<close>

theorem chat_reaches_group:
  assumes "sv_inv sv" and "willing sv" and "group_at sv (hdr_gid recv) = Inr g" and "sound_for sv g"
    and "hdr_uid recv \<in> set g" and "cred_rep (file_of sv CREDENTIAL_FILE_NAME) us"
    and "1 \<le> unat (hdr_uid recv)" and "unat (hdr_uid recv) \<le> length us"
    and "sendable recv" and "unat (hdr_len recv) < 2 ^ 30" and "\<And>k. en_malloc env k"
  shows "\<exists>sv'. handle_send_chat env recv sv = Inr sv' \<and> quiet sv sv' \<and> sv_files sv' = sv_files sv \<and>
    sent_more sv sv' (\<lambda>fd. repeated (length (filter (\<lambda>u. online sv u = Some fd) g))
      (packet (chat_packet (fst (us ! (unat (hdr_uid recv) - 1))) recv)))"
proof -
  let ?i = "unat (hdr_uid recv) - 1"
  let ?name = "fst (us ! ?i)"
  have ok: "user_ok (us ! ?i)" using assms(6-8) by (simp add: cred_rep_def)
  then have name: "?name \<noteq> []" "length ?name < MAX_CHAR_USERID" "nul \<notin> set ?name"
    by (auto simp: user_ok_def plain_seps)
  have uid: "hdr_uid recv \<noteq> 0" using assms(7) by auto
  have find: "find_username (file_of sv CREDENTIAL_FILE_NAME) (hdr_uid recv) zero_name =
      Inr (int (length ?name), name_buf ?name)"
    using find_username_cred [OF assms(6), of zero_name "hdr_uid recv"] assms(7,8)
    by (simp add: zero_name_def)
  have "hm_inv (sv_active sv)" using assms(1) by (simp add: sv_inv_def)
  from forward_loop_ok [OF this assms(2,4) chat_packet_sendable [OF assms(9,10) name(2)]]
    handle_send_chat_member [OF assms(5,3) uid assms(9-11) find name]
  show ?thesis by auto
qed

theorem chat_reaches_group_witness:
  "\<exists>sv'. handle_send_chat sample_env (sample_request SEND_CHAT 0 1 ''hi'') (online_server []) = Inr sv' \<and>
    quiet (online_server []) sv' \<and> sv_files sv' = sv_files (online_server []) \<and>
    sent_more (online_server []) sv'
      (\<lambda>fd. repeated (length (filter (\<lambda>u. online (online_server []) u = Some fd) [1]))
      (packet (chat_packet (fst (sample_users ! (unat (hdr_uid (sample_request SEND_CHAT 0 1 ''hi'')) - 1)))
        (sample_request SEND_CHAT 0 1 ''hi''))))"
proof (rule chat_reaches_group [OF online_server_inv online_server_sound(1) _ online_server_sound(2)])
  show "cred_rep (file_of (online_server []) CREDENTIAL_FILE_NAME) sample_users"
    using sample_rep by simp
qed (simp_all add: sample_request_def group_at_Inr GROUP_NUM_MAX_def sample_users_def sendable_def
      sample_env_def)

text \<open>C32: \<open>SEND_FILE\<close> in the name of a registered user: if the connection delivers as many bytes as
  announced, they are stored under the next file name of the group and the group is notified; if it
  delivers fewer, the thread never returns. Whether the sender belongs to the group is not checked.\<close>

theorem send_file_stored:
  assumes "sv_data sv p = Some c" and "sv_socks sv (cl_connfd c) = Some s" and "clean s"
    and "en_fopen env" and "\<And>k. en_malloc env k"
    and "cred_rep (file_of sv CREDENTIAL_FILE_NAME) us"
    and "1 \<le> unat (hdr_uid recv)" and "unat (hdr_uid recv) \<le> length us"
  shows "if sint (hdr_len recv) \<le> int (length (stream s))
    then \<exists>sv1. handle_send_file env p recv sv =
        Some (forward_to_group env (hdr_gid recv) (notice_packet (fst (us ! (unat (hdr_uid recv) - 1)))
          (file_name (hdr_gid recv) (sv_file_cnt sv)) recv) sv1) \<and>
      quiet sv sv1 \<and> sv_file_cnt sv1 = sv_file_cnt sv + 1 \<and>
      file_of sv1 (file_name (hdr_gid recv) (sv_file_cnt sv)) =
        Some (take (nat (sint (hdr_len recv))) (stream s))
    else handle_send_file env p recv sv = None"
proof (cases "sint (hdr_len recv) \<le> int (length (stream s))")
  case True
  let ?name = "fst (us ! (unat (hdr_uid recv) - 1))"
  have "user_ok (us ! (unat (hdr_uid recv) - 1))" using assms(6-8) by (simp add: cred_rep_def)
  then have name: "length ?name < MAX_CHAR_USERID" "nul \<notin> set ?name"
    by (auto simp: user_ok_def plain_seps)
  have find: "find_username (file_of sv CREDENTIAL_FILE_NAME) (hdr_uid recv) zero_name =
      Inr (int (length ?name), name_buf ?name)"
    using find_username_cred [OF assms(6), of zero_name "hdr_uid recv"] assms(7,8)
    by (simp add: zero_name_def)
  from handle_send_file_eq [OF assms(1-5) refl find name True] obtain sv1 s' where
    h: "handle_send_file env p recv sv = Some (forward_to_group env (hdr_gid recv)
      (notice_packet ?name (file_name (hdr_gid recv) (sv_file_cnt sv)) recv) sv1)"
    and sv1: "sv1 = set_file (file_name (hdr_gid recv) (sv_file_cnt sv))
      (Some (take (nat (sint (hdr_len recv))) (stream s)))
      (sv\<lparr>sv_file_cnt := sv_file_cnt sv + 1, sv_socks := (sv_socks sv)(cl_connfd c \<mapsto> s')\<rparr>)"
    by blast
  have "quiet sv sv1" "sv_file_cnt sv1 = sv_file_cnt sv + 1"
    "file_of sv1 (file_name (hdr_gid recv) (sv_file_cnt sv)) =
      Some (take (nat (sint (hdr_len recv))) (stream s))"
    using assms(2) by (auto simp: sv1 quiet_def file_of_def set_file_def)
  with h True show ?thesis by auto
next
  case False
  then show ?thesis using handle_send_file_short [OF assms(1-4)] by simp
qed

theorem send_file_stored_witness:
  "if sint (hdr_len (sample_request SEND_FILE 0 2 ''abc'')) \<le>
      int (length (stream (connection [Data ''ab'', Data ''cd''])))
    then \<exists>sv1. handle_send_file sample_env 7 (sample_request SEND_FILE 0 2 ''abc'')
        (online_server [Data ''ab'', Data ''cd'']) =
        Some (forward_to_group sample_env (hdr_gid (sample_request SEND_FILE 0 2 ''abc''))
          (notice_packet (fst (sample_users ! (unat (hdr_uid (sample_request SEND_FILE 0 2 ''abc'')) - 1)))
          (file_name (hdr_gid (sample_request SEND_FILE 0 2 ''abc''))
            (sv_file_cnt (online_server [Data ''ab'', Data ''cd''])))
          (sample_request SEND_FILE 0 2 ''abc'')) sv1) \<and>
      quiet (online_server [Data ''ab'', Data ''cd'']) sv1 \<and>
      sv_file_cnt sv1 = sv_file_cnt (online_server [Data ''ab'', Data ''cd'']) + 1 \<and>
      file_of sv1 (file_name (hdr_gid (sample_request SEND_FILE 0 2 ''abc''))
          (sv_file_cnt (online_server [Data ''ab'', Data ''cd'']))) =
        Some (take (nat (sint (hdr_len (sample_request SEND_FILE 0 2 ''abc''))))
          (stream (connection [Data ''ab'', Data ''cd''])))
    else handle_send_file sample_env 7 (sample_request SEND_FILE 0 2 ''abc'')
        (online_server [Data ''ab'', Data ''cd'']) = None"
proof (rule send_file_stored)
  show "sv_data (online_server [Data ''ab'', Data ''cd'']) 7 =
      Some \<lparr>cl_connfd = 4, cl_message_queue = zero_queue, cl_uid = -1,
        cl_username = zero_name, cl_file_id = 0\<rparr>" by simp
  show "cred_rep (file_of (online_server [Data ''ab'', Data ''cd'']) CREDENTIAL_FILE_NAME) sample_users"
    using sample_rep by simp
qed (simp_all add: sample_request_def sample_users_def sample_env_def connection_def clean_def)

text \<open>The group array has 255 entries and a group number is a byte: a packet with group number 255
  makes every command that looks at the group read past the end of the array, whoever sends it.\<close>

lemma last_group_number_faults:
  assumes "sv_inv sv" and "hdr_gid recv = 255" and "hdr_uid recv \<noteq> 0"
    and "unat (hdr_len recv) < MAX_CHAR_USERID" and "nul \<in> set (hdr_payload recv)"
  shows "handle_invite env recv sv = Inl Out_Of_Bounds \<and>
    handle_invite_resp env recv sv = Inl Out_Of_Bounds \<and>
    handle_send_chat env recv sv = Inl Out_Of_Bounds \<and>
    handle_download_file env p recv sv = Inl Out_Of_Bounds"
proof -
  have g: "group_at sv 255 = Inl Out_Of_Bounds"
    using assms(1) by (simp add: group_at_def sv_inv_def groups_ok_def GROUP_NUM_MAX_def)
  have "check_header_invite recv = 0" "check_header_chat recv = 0"
    using assms(3,4) by (simp_all add: check_header_invite_ok check_header_chat_ok)
  moreover have "\<exists>s. c_str (hdr_payload recv) = Inr s" using assms(5) by (simp add: c_str_def)
  ultimately show ?thesis using g assms(2)
    by (auto simp: handle_invite_def handle_invite_resp_def handle_send_chat_def
        handle_download_file_def Let_def)
qed

lemma last_group_number_faults_witness:
  "handle_invite sample_env (sample_request INVITE 255 1 ''bob'') sample_server = Inl Out_Of_Bounds \<and>
    handle_invite_resp sample_env (sample_request INVITE 255 1 ''bob'') sample_server = Inl Out_Of_Bounds \<and>
    handle_send_chat sample_env (sample_request INVITE 255 1 ''bob'') sample_server = Inl Out_Of_Bounds \<and>
    handle_download_file sample_env 7 (sample_request INVITE 255 1 ''bob'') sample_server =
      Inl Out_Of_Bounds"
  by (rule last_group_number_faults [OF sample_inv])
    (simp_all add: sample_request_def MAX_CHAR_USERID_def)

end
