(* ===== verification/Server_Sessions.thy ===== *)
theory Server_Sessions
  imports Server_Delivery
begin

text \<open>
  What clients are answered, and what becomes of their sessions: logging in and out, the table of
  active users, creating groups, and the cases in which the code leaves the table or the
  credential file in a state it did not intend.
\<close>

section \<open>Answers and sessions\<close>

text \<open>The sockets after a packet went out on one descriptor.\<close>

definition sent_on :: "server \<Rightarrow> client_thread_data \<Rightarrow> mainhdr \<Rightarrow> nat \<rightharpoonup> socket" where
  "sent_on sv c h = (case sv_socks sv (cl_connfd c) of
     None \<Rightarrow> sv_socks sv
   | Some s \<Rightarrow> (sv_socks sv)(cl_connfd c \<mapsto> s\<lparr>sk_sent := sk_sent s @ packet h\<rparr>))"

text \<open>A client whose connection is open and accepts what is written.\<close>

definition connected :: "server \<Rightarrow> nat \<Rightarrow> client_thread_data \<Rightarrow> bool" where
  "connected sv p c \<longleftrightarrow> sv_data sv p = Some c \<and>
     (\<exists>s. sv_socks sv (cl_connfd c) = Some s \<and> sk_accept s = [])"

lemma reply_connected:
  assumes "sendable h" and "connected sv p c"
  shows "reply p h sv = Inr (sv\<lparr>sv_socks := sent_on sv c h\<rparr>)"
  using assms reply_ok [OF assms(1)] by (auto simp: connected_def sent_on_def)

lemma ucast_uid_inj: "(ucast (u :: u16) :: u64) = ucast v \<longleftrightarrow> u = v"
proof
  have u: "unat (ucast w :: u64) = unat w" for w :: u16
    using unat_bound [of w] by (simp add: unsigned_ucast_eq take_bit_nat_eq_self)
  assume "(ucast u :: u64) = ucast v"
  then have "unat u = unat v" using u [of u] u [of v] by simp
  then show "u = v" by (rule unsigned_word_eqI)
qed simp

lemma exit_thread_eq:
  assumes "hm_inv (sv_active sv)" and "sv_data sv p = Some c"
  shows "\<exists>active. exit_thread p sv = Inr (sv\<lparr>sv_socks := (sv_socks sv)(cl_connfd c := None),
      sv_active := active, sv_data := (sv_data sv)(p := None)\<rparr>) \<and> hm_inv active \<and>
    (\<forall>k. k \<noteq> ucast (cl_uid c) \<longrightarrow> hm_lookup active k = hm_lookup (sv_active sv) k) \<and>
    (cl_uid c \<noteq> 0 \<and> hm_copies (sv_active sv) (ucast (cl_uid c)) \<le> 1 \<longrightarrow>
      hm_lookup active (ucast (cl_uid c)) = None)"
proof (cases "cl_uid c = 0")
  case True
  then show ?thesis using assms
    by (intro exI [of _ "sv_active sv"]) (simp add: exit_thread_def load_client_def Let_def)
next
  case False
  then have "uint (cl_uid c) \<noteq> 0" by (simp add: uint_0_iff)
  then have "0 < uint (cl_uid c)" using uint_nonnegative [of "cl_uid c"] by linarith
  with hm.remove_law [OF assms(1), of "ucast (cl_uid c)"] assms(2) show ?thesis
    by (force simp: exit_thread_def load_client_def Let_def)
qed

text \<open>The credentials in a request, as the two login commands parse them.\<close>

definition login_request :: "u8 \<Rightarrow> string \<Rightarrow> string \<Rightarrow> mainhdr" where
  "login_request cmd n p = \<lparr>hdr_cmd = cmd, hdr_gid = 0, hdr_uid = 0,
     hdr_len = of_nat (length n + 1 + length p), hdr_payload = n @ CHR '':'' # p @ [nul]\<rparr>"

lemma parse_login_request:
  assumes "nul \<notin> set n" and "CHR '':'' \<notin> set n" and "nul \<notin> set p" and "length n + 1 + length p < 2 ^ 31"
  shows "parse_username_pw zero_name zero_pw (hdr_payload (login_request cmd n p))
      (sint (hdr_len (login_request cmd n p))) =
    Inr (if MAX_CHAR_USERID < length n \<or> MAX_CHAR_USERPASS < length p then (-1, zero_name, zero_pw)
         else (0, name_buf n, pw_buf p))"
proof -
  have "sint (hdr_len (login_request cmd n p)) = int (length n + 1 + length p)"
    using small_int_word(1) [OF assms(4)] by (simp only: login_request_def mainhdr.simps)
  moreover have "hdr_payload (login_request cmd n p) = n @ CHR '':'' # p @ nul # []"
    by (simp add: login_request_def)
  ultimately show ?thesis
    using parse_username_pw_eq [OF assms(1-3), of zero_name zero_pw "[]"]
    by (simp only: zero_name_def zero_pw_def length_replicate drop_replicate name_buf_def pw_buf_def
        if_distrib [of Inr])
qed

text \<open>The name buffer that a login copies into the client data.\<close>

lemma strncpy_name_buf:
  assumes "nul \<notin> set n" and "length n < MAX_CHAR_USERID" and "length dst = MAX_CHAR_USERID"
  shows "strncpy dst (name_buf n) MAX_CHAR_USERID = Inr (name_buf n)"
proof -
  obtain k where k: "MAX_CHAR_USERID - length n = Suc k"
    using assms(2) by (cases "MAX_CHAR_USERID - length n") auto
  have len: "length (name_buf n) = MAX_CHAR_USERID" using assms(2) by (simp add: name_buf_def)
  have "takeWhile (\<lambda>c. c \<noteq> nul) (take MAX_CHAR_USERID (name_buf n)) = n"
    using len assms(1) k by (simp add: name_buf_def)
  then show ?thesis using assms(3) len by (simp add: strncpy_def Let_def name_buf_def)
qed

section \<open>An overlong name\<close>

text \<open>
  A refused parse leaves both buffers empty. The file then gets a line with an empty name, which no
  login matches.
\<close>

lemma file_lines_append:
  assumes "\<forall>u \<in> set us. user_ok u" and "i + length us \<le> 2 ^ 31"
  shows "file_lines (concat (cred_lines i us) @ rest) = cred_lines i us @ file_lines rest"
  using assms
proof (induction us arbitrary: i)
  case Nil
  then show ?case by simp
next
  case (Cons u us)
  have ne: "cred_line i u \<noteq> []" by (simp add: cred_line_def)
  have r: "take_line 255 (cred_line i u @ concat (cred_lines (Suc i) us) @ rest) = cred_line i u"
    "nul \<notin> set (cred_line i u)"
    using cred_line_read [of u i] Cons.prems by auto
  have "file_lines (concat (cred_lines (Suc i) us) @ rest) = cred_lines (Suc i) us @ file_lines rest"
    using Cons.IH Cons.prems by simp
  then show ?case
    using r ne by (subst file_lines.simps) (simp add: fgets_def)
qed

lemma match_skips:
  assumes "c_str username = Inr s" and "\<forall>u \<in> set us. user_ok u \<and> \<not> prefix (fst u) s"
  shows "\<exists>uid'. match_user_pw_loop username password (cred_lines i us @ ls) uid =
    match_user_pw_loop username password ls uid'"
  using assms(2)
proof (induction us arbitrary: i uid)
  case Nil
  then show ?case by auto
next
  case (Cons u us)
  then show ?case
    using plain_seps [OF user_okD(1) [of u]]
    by (simp add: cred_line_tokens cmp_token_name [OF assms(1)] Let_def)
qed

lemma blank_line:
  assumes "i < 2 ^ 31"
  shows "file_lines (cred_line i ([], [])) = [cred_line i ([], [])]"
    "strtok (cred_line i ([], [])) = Some (print_nat i, space # [newline])"
proof -
  have "length (print_nat i) \<le> 10" using length_print_nat [of i 9] assms by simp
  moreover note p = plain_seps [OF print_nat_plain [of i]]
  ultimately have "take_line 255 ((print_nat i @ [space, space]) @ newline # []) =
      (print_nat i @ [space, space]) @ [newline]"
    by (intro take_line_newline) auto
  then show "file_lines (cred_line i ([], [])) = [cred_line i ([], [])]"
    using p by (subst file_lines.simps) (simp add: fgets_def cred_line_def file_lines.simps)
  show "strtok (cred_line i ([], [])) = Some (print_nat i, space # [newline])"
    using strtok_token(1) [OF print_nat_plain] by (simp add: cred_line_def)
qed

lemma empty_user_created:
  assumes "cred_rep f us"
  shows "create_user True f zero_name zero_pw =
      Inr (int (length us) + 1, Some (cred_file (us @ [([], [])])))"
    "match_user_pw (Some (cred_file (us @ [([], [])]))) zero_name zero_pw = Inr ERR_GENERIC"
proof -
  have z: "c_str zero_name = Inr []" "c_str zero_pw = Inr []"
    by (simp_all add: zero_name_def zero_pw_def c_str_def MAX_CHAR_USERID_def MAX_CHAR_USERPASS_def)
  have ok: "\<forall>u \<in> set us. user_ok u \<and> \<not> prefix (fst u) []" "length us < 2 ^ 31 - 1"
    using assms plain_seps(4) [OF user_okD(1)] by (auto simp: cred_rep_def)
  then show "create_user True f zero_name zero_pw =
      Inr (int (length us) + 1, Some (cred_file (us @ [([], [])])))"
    using create_user_cred [OF assms z] by auto
  have "file_lines (cred_file (us @ [([], [])])) =
      cred_lines 1 us @ [cred_line (Suc (length us)) ([], [])]"
    using file_lines_append [of us 1 "cred_line (Suc (length us)) ([], [])"] ok
      blank_line(1) [of "Suc (length us)"]
    by (simp add: cred_file_def cred_lines_append)
  moreover have "strtok (space # [newline]) = Some ([newline], [])" by (simp add: strtok_def)
  moreover have "strncmp_eq zero_name [newline, nul] (Suc 0) = Inr False"
    by (simp add: zero_name_def MAX_CHAR_USERID_def numeral_eq_Suc)
  ultimately show "match_user_pw (Some (cred_file (us @ [([], [])]))) zero_name zero_pw =
      Inr ERR_GENERIC"
    using match_skips [OF z(1) ok(1), of zero_pw 1 "[cred_line (Suc (length us)) ([], [])]" 0]
      blank_line(2) [of "Suc (length us)"] ok(2)
    by (auto simp: match_user_pw_def Let_def)
qed

section \<open>A login\<close>

lemma sent_on_same:
  "sv_socks sv' = sv_socks sv \<Longrightarrow> cl_connfd c' = cl_connfd c \<Longrightarrow> sent_on sv' c' h = sent_on sv c h"
  by (simp add: sent_on_def split: option.split)

lemma handle_usr_login_eq:
  assumes "sv_inv sv" and "connected sv p c" and "0 < hm_room (sv_active sv)"
    and "\<And>k. en_malloc env k" and "user_ok (n, w)" and "CHR '':'' \<notin> set n"
    and "match_user_pw (file_of sv CREDENTIAL_FILE_NAME) (name_buf n) (pw_buf w) = Inr k"
  shows "\<exists>sv'. handle_usr_login env p (login_request USR_LOGIN n w) sv = Inr sv' \<and>
    sv_groups sv' = sv_groups sv \<and> sv_files sv' = sv_files sv \<and>
    (if 0 < k then
       sv_data sv' = (sv_data sv)(p \<mapsto> c\<lparr>cl_uid := of_int k, cl_username := name_buf n\<rparr>) \<and>
       hm_lookup (sv_active sv') = (hm_lookup (sv_active sv))(of_int k \<mapsto> Some p) \<and>
       sv_socks sv' = sent_on sv c (answer USR_LOGIN 0 (of_int k) 0)
     else
       sv_data sv' = sv_data sv \<and> sv_active sv' = sv_active sv \<and>
       sv_socks sv' = sent_on sv c (answer USR_LOGIN 0 0 ERR_GENERIC))"
proof -
  have U: "nul \<notin> set n" "nul \<notin> set w" "length n < MAX_CHAR_USERID" "length w < MAX_CHAR_USERPASS"
    using assms(5) by (auto simp: user_ok_def plain_seps)
  then have "length n + 1 + length w < 2 ^ 31"
    by (simp add: MAX_CHAR_USERID_def MAX_CHAR_USERPASS_def)
  from parse_login_request [OF U(1) assms(6) U(2) this, of USR_LOGIN] U(3,4)
  have parse: "parse_username_pw zero_name zero_pw (hdr_payload (login_request USR_LOGIN n w))
      (sint (hdr_len (login_request USR_LOGIN n w))) = Inr (0, name_buf n, pw_buf w)" by simp
  note new = new_packet_one [OF assms(4)]
  show ?thesis
  proof (cases "0 < k")
    case False
    then show ?thesis
      using parse assms(2,7) by (simp add: handle_usr_login_def new reply_connected)
  next
    case True
    have data: "sv_data sv p = Some c" using assms(2) by (simp add: connected_def)
    then have "length (cl_username c) = MAX_CHAR_USERID"
      using assms(1) by (auto simp: sv_inv_def clients_ok_def)
    then have name: "strncpy (cl_username c) (name_buf n) MAX_CHAR_USERID = Inr (name_buf n)"
      by (rule strncpy_name_buf [OF U(1,3)])
    have "hm_inv (sv_active sv)" using assms(1) by (simp add: sv_inv_def)
    from hm.put_room [OF this assms(3), of "en_calloc env" "of_int k" "Some p"] obtain active where
      put: "hashmap_put (en_calloc env) (sv_active sv) (of_int k) (Some p) = Inr (MAP_OK, active)"
        "hm_lookup active = (hm_lookup (sv_active sv))(of_int k \<mapsto> Some p)" by auto
    let ?c = "c\<lparr>cl_uid := of_int k, cl_username := name_buf n\<rparr>"
    let ?sv = "sv\<lparr>sv_data := (sv_data sv)(p \<mapsto> ?c), sv_active := active\<rparr>"
    have "connected ?sv p ?c" using assms(2) by (simp add: connected_def)
    from reply_connected [OF answer_sendable [of USR_LOGIN 0 "of_int k" 0] this]
    have "reply p (answer USR_LOGIN 0 (of_int k) 0) ?sv =
        Inr (?sv\<lparr>sv_socks := sent_on sv c (answer USR_LOGIN 0 (of_int k) 0)\<rparr>)"
      using sent_on_same [of ?sv sv ?c c] by simp
    then show ?thesis
      using True parse name put data assms(7) by (simp add: handle_usr_login_def new load_client_def)
  qed
qed

text \<open>Only the payload of a login and its length matter.\<close>

lemma handle_usr_login_cong:
  "hdr_payload r = hdr_payload r' \<Longrightarrow> hdr_len r = hdr_len r' \<Longrightarrow>
    handle_usr_login env p r sv = handle_usr_login env p r' sv"
  by (simp add: handle_usr_login_def)

section \<open>Properties\<close>

lemma online_connected:
  "connected (online_server es) 7 \<lparr>cl_connfd = 4, cl_message_queue = zero_queue, cl_uid = -1,
    cl_username = zero_name, cl_file_id = 0\<rparr>"
  by (simp add: connected_def connection_def)

lemma create_group_free:
  assumes "sv_inv sv" and "connected sv p c" and "\<And>k. en_malloc env k"
    and n: "n < GROUP_NUM_MAX" and h: "hdr_uid recv \<noteq> 0" "sv_groups sv ! n = []" "\<forall>i < n. sv_groups sv ! i \<noteq> []"
  shows "handle_create_group env p recv sv = Inr (sv\<lparr>sv_group_cnt := n,
    sv_groups := (sv_groups sv)[n := [hdr_uid recv]],
    sv_socks := sent_on sv c (answer CREATE_GROUP (of_nat n) (hdr_uid recv) 0)\<rparr>)"
proof -
  let ?sv = "sv\<lparr>sv_group_cnt := n, sv_groups := (sv_groups sv)[n := [hdr_uid recv]]\<rparr>"
  have gs: "length (sv_groups sv) = GROUP_NUM_MAX" "\<forall>i < sv_group_cnt sv. sv_groups sv ! i \<noteq> []"
    using assms(1) by (auto simp: sv_inv_def groups_ok_def)
  have pos: "\<not> uint (hdr_uid recv) \<le> 0"
    using h(1) uint_nonnegative [of "hdr_uid recv"] by (simp add: le_less uint_0_iff)
  have "sv_group_cnt sv \<le> n" using gs(2) h not_le_imp_less by blast
  then have "free_group (sv_groups sv) (sv_group_cnt sv) = Inr n"
    using n h gs(1) by (intro free_group_least) auto
  moreover have "unat (of_nat n :: u8) = n" using n by (simp add: GROUP_NUM_MAX_def unat_of_nat)
  moreover have "connected ?sv p c" using assms(2) by (simp add: connected_def)
  from reply_connected [OF answer_sendable [of CREATE_GROUP "of_nat n" "hdr_uid recv" 0] this]
  have "reply p (answer CREATE_GROUP (of_nat n) (hdr_uid recv) 0) ?sv =
    Inr (?sv\<lparr>sv_socks := sent_on sv c (answer CREATE_GROUP (of_nat n) (hdr_uid recv) 0)\<rparr>)"
    using sent_on_same [of ?sv sv c c] by simp
  ultimately show ?thesis
    using n h pos gs(1) assms(3) by (simp add: handle_create_group_def new_packet_one Let_def)
qed

text \<open>C29: \<open>CREATE_GROUP\<close> answers user 0 with \<open>ERR_NEED_LOGIN\<close>. For every other user it takes the first
  free group, makes the user its only member and answers with its number. When all 255 groups are
  in use it never answers \<open>ERR_OUT_MEM\<close>: the search runs past the end of the array.\<close>

theorem create_group_decides:
  assumes "sv_inv sv" and "connected sv p c" and "\<And>k. en_malloc env k"
  shows "(hdr_uid recv = 0 \<longrightarrow> handle_create_group env p recv sv =
      Inr (sv\<lparr>sv_socks := sent_on sv c (answer CREATE_GROUP 0 0 ERR_NEED_LOGIN)\<rparr>)) \<and>
    (hdr_uid recv \<noteq> 0 \<and> [] \<notin> set (sv_groups sv) \<longrightarrow>
      handle_create_group env p recv sv = Inl Out_Of_Bounds) \<and>
    (\<forall>n < GROUP_NUM_MAX. hdr_uid recv \<noteq> 0 \<and> sv_groups sv ! n = [] \<and>
        (\<forall>i < n. sv_groups sv ! i \<noteq> []) \<longrightarrow>
      handle_create_group env p recv sv = Inr (sv\<lparr>sv_group_cnt := n,
        sv_groups := (sv_groups sv)[n := [hdr_uid recv]],
        sv_socks := sent_on sv c (answer CREATE_GROUP (of_nat n) (hdr_uid recv) 0)\<rparr>))"
proof (intro conjI impI allI)
  have gs: "length (sv_groups sv) = GROUP_NUM_MAX" "\<forall>i < sv_group_cnt sv. sv_groups sv ! i \<noteq> []"
    using assms(1) by (auto simp: sv_inv_def groups_ok_def)
  note new = new_packet_one [OF assms(3)]
  have pos: "\<not> uint (hdr_uid recv) \<le> 0" if "hdr_uid recv \<noteq> 0"
    using that uint_nonnegative [of "hdr_uid recv"] by (simp add: le_less uint_0_iff)
  show "handle_create_group env p recv sv =
      Inr (sv\<lparr>sv_socks := sent_on sv c (answer CREATE_GROUP 0 0 ERR_NEED_LOGIN)\<rparr>)"
    if "hdr_uid recv = 0"
    using that assms(2) by (simp add: handle_create_group_def new reply_connected)
  show "handle_create_group env p recv sv = Inl Out_Of_Bounds"
    if "hdr_uid recv \<noteq> 0 \<and> [] \<notin> set (sv_groups sv)"
  proof -
    have "\<forall>i < length (sv_groups sv). sv_groups sv ! i \<noteq> []" using that by (metis nth_mem)
    then show ?thesis
      using that pos by (simp add: handle_create_group_def new free_group_full)
  qed
  fix n
  assume n: "n < GROUP_NUM_MAX" and h: "hdr_uid recv \<noteq> 0 \<and> sv_groups sv ! n = [] \<and>
    (\<forall>i < n. sv_groups sv ! i \<noteq> [])"
  show "handle_create_group env p recv sv = Inr (sv\<lparr>sv_group_cnt := n,
        sv_groups := (sv_groups sv)[n := [hdr_uid recv]],
        sv_socks := sent_on sv c (answer CREATE_GROUP (of_nat n) (hdr_uid recv) 0)\<rparr>)"
    using h by (intro create_group_free [OF assms n]) auto
qed

theorem create_group_decides_witness:
  "\<exists>c. (hdr_uid (sample_request CREATE_GROUP 0 2 []) = 0 \<longrightarrow>
      handle_create_group sample_env 7 (sample_request CREATE_GROUP 0 2 []) (online_server []) =
      Inr ((online_server [])\<lparr>sv_socks := sent_on (online_server []) c
        (answer CREATE_GROUP 0 0 ERR_NEED_LOGIN)\<rparr>)) \<and>
    (hdr_uid (sample_request CREATE_GROUP 0 2 []) \<noteq> 0 \<and> [] \<notin> set (sv_groups (online_server [])) \<longrightarrow>
      handle_create_group sample_env 7 (sample_request CREATE_GROUP 0 2 []) (online_server []) =
        Inl Out_Of_Bounds) \<and>
    (\<forall>n < GROUP_NUM_MAX. hdr_uid (sample_request CREATE_GROUP 0 2 []) \<noteq> 0 \<and>
        sv_groups (online_server []) ! n = [] \<and> (\<forall>i < n. sv_groups (online_server []) ! i \<noteq> []) \<longrightarrow>
      handle_create_group sample_env 7 (sample_request CREATE_GROUP 0 2 []) (online_server []) =
        Inr ((online_server [])\<lparr>sv_group_cnt := n,
        sv_groups := (sv_groups (online_server []))[n := [hdr_uid (sample_request CREATE_GROUP 0 2 [])]],
        sv_socks := sent_on (online_server []) c (answer CREATE_GROUP (of_nat n)
          (hdr_uid (sample_request CREATE_GROUP 0 2 [])) 0)\<rparr>))"
  by (rule exI, rule create_group_decides [OF online_server_inv online_connected])
    (simp add: sample_env_def)

text \<open>The client at 7 has logged in as user 1, and then perhaps as user 2.\<close>

definition user_server :: "u16 \<Rightarrow> nat hashmap_map \<Rightarrow> server" where
  "user_server u active = (online_server [])\<lparr>sv_active := active,
     sv_data := [7 \<mapsto> \<lparr>cl_connfd = 4, cl_message_queue = zero_queue, cl_uid = u, cl_username = zero_name,
       cl_file_id = 0\<rparr>]\<rparr>"

lemma user_server_inv:
  assumes "hm_inv active"
  shows "sv_inv (user_server u active)"
proof -
  have "groups_ok (sv_groups (online_server [])) (sv_group_cnt (online_server []))"
    using online_server_inv by (simp only: sv_inv_def)
  moreover have "sv_groups (sv\<lparr>sv_active := m, sv_data := d\<rparr>) = sv_groups sv"
    "sv_group_cnt (sv\<lparr>sv_active := m, sv_data := d\<rparr>) = sv_group_cnt sv" for sv :: server and m d by simp_all
  ultimately have "groups_ok (sv_groups (user_server u active)) (sv_group_cnt (user_server u active))"
    unfolding user_server_def by (simp only:)
  moreover have "clients_ok (sv_data (user_server u active)) (dom (sv_socks (user_server u active)))"
    by (simp add: user_server_def clients_ok_def zero_name_def)
  moreover have "hm_inv (sv_active (user_server u active))" using assms by (simp add: user_server_def)
  ultimately show ?thesis by (simp only: sv_inv_def)
qed

lemma online_map_copies: "hm_copies online_map k \<le> 1"
proof -
  have m: "hm_inv new_map" "hm_chained new_map" "0 < hm_room new_map"
    using hm_inv_new [OF new_map_new] hm_chained_new [OF new_map_new] hm_room_new [OF new_map_new] INITIAL_SIZE_bounds(1)
    by simp_all
  obtain m' where "hashmap_put (\<lambda>_. True) new_map 1 (Some 7) = Inr (MAP_OK, m')"
    using hm.put_room [OF m(1,3), of "\<lambda>_. True" 1 "Some 7"] by blast
  then have "put_all (hashmap_put (\<lambda>_. True)) new_map [(1, Some 7)] = Some online_map" by (simp add: online_map_def)
  then show ?thesis using hm_chained_put_all [OF m(1,2)] hm_chained_copies by blast
qed

text \<open>C31: The end of a connection: the thread closes the descriptor, frees the client data and removes
  the client's user from the table of active users, where the user had one slot; all other users,
  clients and connections stay as they are.\<close>

theorem exit_cleans_up:
  assumes "sv_inv sv" and "sv_data sv p = Some c"
  shows "\<exists>sv'. exit_thread p sv = Inr sv' \<and> sv_inv sv' \<and>
    sv_socks sv' = (sv_socks sv)(cl_connfd c := None) \<and> sv_data sv' = (sv_data sv)(p := None) \<and>
    sv_groups sv' = sv_groups sv \<and> sv_files sv' = sv_files sv \<and>
    (\<forall>k. k \<noteq> ucast (cl_uid c) \<longrightarrow> hm_lookup (sv_active sv') k = hm_lookup (sv_active sv) k) \<and>
    (cl_uid c \<noteq> 0 \<and> hm_copies (sv_active sv) (ucast (cl_uid c)) \<le> 1 \<longrightarrow>
      hm_lookup (sv_active sv') (ucast (cl_uid c)) = None)"
proof -
  have "hm_inv (sv_active sv)" using assms(1) by (simp add: sv_inv_def)
  from exit_thread_eq [OF this assms(2)] exit_thread_inv [OF assms(1), of p] show ?thesis by force
qed

theorem exit_cleans_up_witness:
  "\<exists>sv'. exit_thread 7 (user_server 1 online_map) = Inr sv' \<and> sv_inv sv' \<and> sv_socks sv' 4 = None \<and>
    sv_data sv' 7 = None \<and> hm_lookup online_map 1 = Some (Some 7) \<and> hm_lookup (sv_active sv') 1 = None"
proof -
  have "sv_data (user_server 1 online_map) 7 = Some \<lparr>cl_connfd = 4, cl_message_queue = zero_queue, cl_uid = 1,
      cl_username = zero_name, cl_file_id = 0\<rparr>" by (simp add: user_server_def)
  from exit_cleans_up [OF user_server_inv [OF online_map_facts(1)] this] obtain sv' where
    "exit_thread 7 (user_server 1 online_map) = Inr sv'" "sv_inv sv'" "sv_socks sv' 4 = None" "sv_data sv' 7 = None"
    "hm_copies (sv_active (user_server 1 online_map)) 1 \<le> 1 \<longrightarrow> hm_lookup (sv_active sv') 1 = None" by auto
  then show ?thesis using online_map_copies [of 1] online_map_facts(2) by (simp add: user_server_def)
qed

text \<open>C36: A client removes only the user it logged in as last. Where the table also maps an earlier
  user to the client (a second login on the same connection), that entry survives the end of the
  connection and points to freed memory: the next message to a group with that user makes the
  server read it (when there is memory for the copy of the message; without it the server stops before).\<close>

theorem stale_entry_faults:
  assumes "sv_inv sv" and "sv_data sv p = Some c" and "cl_uid c \<noteq> u"
    and "hm_lookup (sv_active sv) (ucast u) = Some (Some p)"
  shows "\<exists>sv'. exit_thread p sv = Inr sv' \<and>
    hm_lookup (sv_active sv') (ucast u) = Some (Some p) \<and> sv_data sv' p = None \<and>
    forward_loop True h (u # us) sv' = Inl Use_After_Free"
proof -
  have inv: "hm_inv (sv_active sv)" using assms(1) by (simp add: sv_inv_def)
  obtain active where ex: "exit_thread p sv = Inr (sv\<lparr>sv_socks := (sv_socks sv)(cl_connfd c := None),
      sv_active := active, sv_data := (sv_data sv)(p := None)\<rparr>)" "hm_inv active"
    and same: "\<forall>k. k \<noteq> ucast (cl_uid c) \<longrightarrow> hm_lookup active k = hm_lookup (sv_active sv) k"
    using exit_thread_eq [OF inv assms(2)] by blast
  have "(ucast u :: u64) \<noteq> ucast (cl_uid c)" using assms(3) by (simp add: ucast_uid_inj)
  with same have "hm_lookup active (ucast u) = hm_lookup (sv_active sv) (ucast u)" by blast
  with ex show ?thesis
    using assms(4) by (simp add: hashmap_get_lookup load_client_def)
qed

theorem stale_entry_faults_witness:
  "\<exists>active sv'. hashmap_put (\<lambda>_. True) online_map 2 (Some 7) = Inr (MAP_OK, active) \<and>
    exit_thread 7 (user_server 2 active) = Inr sv' \<and>
    hm_lookup (sv_active sv') 1 = Some (Some 7) \<and> sv_data sv' 7 = None \<and>
    forward_loop True sample_header [1] sv' = Inl Use_After_Free"
proof -
  have m: "hm_inv new_map" "0 < hm_room new_map" "hm_room new_map = INITIAL_SIZE"
    using hm_inv_new [OF new_map_new] hm_room_new [OF new_map_new] INITIAL_SIZE_bounds(1) by simp_all
  from hm.put_room [OF m(1,2), of "\<lambda>_. True" 1 "Some 7"] m(3) have "0 < hm_room online_map"
    by (auto simp: online_map_def INITIAL_SIZE_def)
  from hm.put_room [OF online_map_facts(1) this, of "\<lambda>_. True" 2 "Some 7"] obtain active where
    a: "hashmap_put (\<lambda>_. True) online_map 2 (Some 7) = Inr (MAP_OK, active)" "hm_inv active"
      "hm_lookup active = [1 \<mapsto> Some 7, 2 \<mapsto> Some 7]"
    by (auto simp: online_map_facts(2))
  have d: "sv_data (user_server 2 active) 7 = Some \<lparr>cl_connfd = 4, cl_message_queue = zero_queue, cl_uid = 2,
      cl_username = zero_name, cl_file_id = 0\<rparr>" "sv_active (user_server 2 active) = active"
    by (simp_all add: user_server_def)
  have "\<exists>sv'. exit_thread 7 (user_server 2 active) = Inr sv' \<and>
      hm_lookup (sv_active sv') (ucast (1 :: u16)) = Some (Some 7) \<and> sv_data sv' 7 = None \<and>
      forward_loop True sample_header [1] sv' = Inl Use_After_Free"
    by (rule stale_entry_faults [OF user_server_inv [OF a(2)] d(1)]) (simp_all add: d(2) a(3))
  then show ?thesis using a(1) by auto
qed

text \<open>\<open>USR_CREATE\<close> ignores that \<open>parse_username_pw\<close> refused the credentials. A user name or
  password that is too long makes it register a user with an empty name and an empty password, and
  answer code 0, which means success, with 65526 (\<open>ERR_GENERIC\<close> as a 16-bit number) for the new user
  id.\<close>

lemma overlong_name_registers:
  assumes "connected sv p c" and "en_fopen env" and "\<And>k. en_malloc env k"
    and "cred_rep (file_of sv CREDENTIAL_FILE_NAME) us"
    and "nul \<notin> set n" and "CHR '':'' \<notin> set n" and "nul \<notin> set w" and "length n + 1 + length w < 2 ^ 31"
    and "MAX_CHAR_USERID < length n \<or> MAX_CHAR_USERPASS < length w"
  shows "handle_usr_create env p (login_request USR_CREATE n w) sv =
    Inr ((set_file CREDENTIAL_FILE_NAME (Some (cred_file (us @ [([], [])]))) sv)
      \<lparr>sv_socks := sent_on sv c (answer USR_CREATE 0 65526 0)\<rparr>)"
proof -
  let ?f = "Some (cred_file (us @ [([], [])]))"
  let ?sv = "set_file CREDENTIAL_FILE_NAME ?f sv"
  have parse: "parse_username_pw zero_name zero_pw (hdr_payload (login_request USR_CREATE n w))
      (sint (hdr_len (login_request USR_CREATE n w))) = Inr (-1, zero_name, zero_pw)"
    using parse_login_request [OF assms(5-8), of USR_CREATE] assms(9) by simp
  have z: "c_str zero_name = Inr []" "c_str zero_pw = Inr []"
    by (simp_all add: zero_name_def zero_pw_def c_str_def MAX_CHAR_USERID_def MAX_CHAR_USERPASS_def)
  note e = empty_user_created [OF assms(4)]
  have f: "file_of ?sv CREDENTIAL_FILE_NAME = ?f" by (simp add: file_of_def set_file_def)
  have "connected ?sv p c" using assms(1) by (simp add: connected_def set_file_def)
  from reply_connected [OF answer_sendable [of USR_CREATE 0 65526 0] this]
  have "reply p (answer USR_CREATE 0 65526 0) ?sv =
      Inr (?sv\<lparr>sv_socks := sent_on sv c (answer USR_CREATE 0 65526 0)\<rparr>)"
    using sent_on_same [of ?sv sv c c] by (simp add: set_file_def)
  moreover have "hdr_cmd (login_request USR_CREATE n w) = USR_CREATE"
    by (simp add: login_request_def)
  moreover have code: "(- 10 :: u16) = 65526" by simp
  ultimately show ?thesis
    using parse z e(1) e(2) f assms(2)
    by (simp add: handle_usr_create_def new_packet_one [OF assms(3)] Let_def code)
qed

lemma overlong_name_registers_witness:
  "\<exists>c. handle_usr_create sample_env 7 (login_request USR_CREATE ''constance'' ''pw'') (online_server []) =
    Inr ((set_file CREDENTIAL_FILE_NAME (Some (cred_file (sample_users @ [([], [])]))) (online_server []))
      \<lparr>sv_socks := sent_on (online_server []) c (answer USR_CREATE 0 65526 0)\<rparr>)"
proof (rule exI, rule overlong_name_registers [OF online_connected])
  show "cred_rep (file_of (online_server []) CREDENTIAL_FILE_NAME) sample_users"
    using sample_rep by simp
qed (simp_all add: sample_env_def nul_def MAX_CHAR_USERID_def)

end
