(* ===== verification/Interleaving.thy ===== *)
theory Interleaving
  imports Prelude
begin

text \<open>
  Threads over a shared state, given by what one step of a thread does: runs under a schedule, and a
  thread that runs alone. Theory \<open>Group_Races\<close> uses it for the commands that change groups, theory
  \<open>Data_Races\<close> for the use and the release of a client's data, \<open>File_Races\<close> for the numbers of files,
  \<open>Shared_Socket\<close> for the writes to one connection.
\<close>

type_synonym ('t, 's) step = "'t \<Rightarrow> 's \<Rightarrow> ('t \<times> 's) outcome"

section \<open>Schedules\<close>

text \<open>A schedule names the thread that makes the next step.\<close>

fun run_schedule ::
    "('t, 's) step \<Rightarrow> nat list \<Rightarrow> 't list \<Rightarrow> 's \<Rightarrow> ('t list \<times> 's) outcome" where
  "run_schedule step [] ts m = Inr (ts, m)"
| "run_schedule step (i # is) ts m =
     and_then (step (ts ! i) m) (\<lambda>(t, m). run_schedule step is (ts[i := t]) m)"

section \<open>One thread at a time\<close>

fun alone ::
    "('t, 's) step \<Rightarrow> nat \<Rightarrow> 't \<Rightarrow> 's \<Rightarrow> ('t \<times> 's) outcome" where
  "alone step 0 t m = Inr (t, m)"
| "alone step (Suc n) t m = and_then (step t m) (\<lambda>(t, m). alone step n t m)"

definition gets :: "('t, 's) step \<Rightarrow> 't \<Rightarrow> 's \<Rightarrow> 't \<Rightarrow> 's \<Rightarrow> bool" where
  "gets step t m t' m' \<longleftrightarrow> (\<exists>n. alone step n t m = Inr (t', m'))"

lemma gets_refl [simp]: "gets step t m t m"
  unfolding gets_def by (intro exI [of _ 0]) simp

lemma gets_step: "step t m = Inr (t1, m1) \<Longrightarrow> gets step t1 m1 t' m' \<Longrightarrow> gets step t m t' m'"
  unfolding gets_def by (metis (no_types, lifting) alone.simps(2) and_then_Inr case_prod_conv)

lemma alone_append:
  "alone step (n + k) t m = and_then (alone step n t m) (\<lambda>(t, m). alone step k t m)"
  by (induction n arbitrary: t m) (auto simp: and_then_def split: sum.split)

lemma gets_trans:
  assumes "gets step t m t1 m1" and "gets step t1 m1 t' m'"
  shows "gets step t m t' m'"
proof -
  obtain n k where "alone step n t m = Inr (t1, m1)" "alone step k t1 m1 = Inr (t', m')"
    using assms by (auto simp: gets_def)
  then have "alone step (n + k) t m = Inr (t', m')" by (simp add: alone_append)
  then show ?thesis unfolding gets_def by blast
qed

lemma run_schedule_append:
  "run_schedule step (is @ js) ts m =
    and_then (run_schedule step is ts m) (\<lambda>(ts, m). run_schedule step js ts m)"
  by (induction "is" arbitrary: ts m) (auto simp: and_then_def split: sum.split)

lemma run_schedule_alone:
  assumes "alone step n (ts ! i) m = Inr (t', m')" and "i < length ts"
  shows "run_schedule step (replicate n i) ts m = Inr (ts[i := t'], m')"
  using assms
proof (induction n arbitrary: ts m)
  case 0
  then show ?case by auto
next
  case (Suc n)
  then obtain t1 m1 where s: "step (ts ! i) m = Inr (t1, m1)" "alone step n t1 m1 = Inr (t', m')"
    by (auto elim!: and_then_InrE)
  with Suc.IH [of "ts[i := t1]" m1] Suc.prems(2) show ?case by simp
qed

text \<open>Two threads in turns: each runs alone to a point, then each runs on.\<close>

lemma two_turns:
  assumes "gets step t m t1 m1" and "gets step u m1 u1 m2"
    and "gets step t1 m2 t2 m3" and "gets step u1 m3 u2 m4"
  shows "\<exists>schedule. run_schedule step schedule [t, u] m = Inr ([t2, u2], m4)"
proof -
  obtain a b c d where n: "alone step a t m = Inr (t1, m1)" "alone step b u m1 = Inr (u1, m2)"
      "alone step c t1 m2 = Inr (t2, m3)" "alone step d u1 m3 = Inr (u2, m4)"
    using assms unfolding gets_def by blast
  have "run_schedule step (replicate a 0) [t, u] m = Inr ([t1, u], m1)"
    "run_schedule step (replicate b 1) [t1, u] m1 = Inr ([t1, u1], m2)"
    "run_schedule step (replicate c 0) [t1, u1] m2 = Inr ([t2, u1], m3)"
    "run_schedule step (replicate d 1) [t2, u1] m3 = Inr ([t2, u2], m4)"
    using run_schedule_alone [of step a "[t, u]" 0 m] run_schedule_alone [of step b "[t1, u]" 1 m1]
      run_schedule_alone [of step c "[t1, u1]" 0 m2] run_schedule_alone [of step d "[t2, u1]" 1 m3] n
    by simp_all
  then have "run_schedule step (replicate a 0 @ replicate b 1 @ replicate c 0 @ replicate d 1) [t, u] m =
      Inr ([t2, u2], m4)"
    by (simp add: run_schedule_append)
  then show ?thesis by blast
qed

end
