(* ===== verification/Group_Races.thy ===== *)
theory Group_Races
  imports Server_Sessions Interleaving
begin

text \<open>
  The groups of \<open>src/chat-server.c\<close> are shared by the threads of all clients without a lock. This
  theory splits the two commands that change them, CREATE_GROUP and INVITE_RESP, into steps of about
  one statement on linked nodes, and lets a schedule interleave them. A thread that is not interrupted
  does what the handler of theory \<open>Server\<close> does; two that are lose members.
\<close>

section \<open>Groups as linked nodes\<close>

record group_node =
  gn_uid :: u16
  gn_next :: "nat option"

record group_mem =
  gm_heads :: "nat option list"
  gm_nodes :: "nat \<rightharpoonup> group_node"
  gm_brk :: nat
  gm_cnt :: nat

text \<open>\<open>malloc\<close> of a node with arbitrary contents.\<close>

definition new_node :: "bool \<Rightarrow> (nat \<Rightarrow> group_node) \<Rightarrow> group_mem \<Rightarrow> nat option \<times> group_mem" where
  "new_node ok junk m =
     (if ok then (Some (gm_brk m), m\<lparr>gm_nodes := (gm_nodes m)(gm_brk m \<mapsto> junk (gm_brk m)), gm_brk := gm_brk m + 1\<rparr>)
      else (None, m))"

definition load_node :: "group_mem \<Rightarrow> nat option \<Rightarrow> (nat \<times> group_node) outcome" where
  "load_node m p =
     and_then (deref p) (\<lambda>a. case gm_nodes m a of None \<Rightarrow> Inl Use_After_Free | Some n \<Rightarrow> Inr (a, n))"

definition head_of :: "group_mem \<Rightarrow> u8 \<Rightarrow> nat option outcome" where
  "head_of m gid = (if unat gid < length (gm_heads m) then Inr (gm_heads m ! unat gid) else Inl Out_Of_Bounds)"

section \<open>The threads\<close>

text \<open>
  Where a thread stands: searching a free group number and filling its head for the user \<open>u\<close>, or
  looking for the user in the group, walking to its last node and appending. \<open>Finished (Some gid)\<close>
  is the end of a successful CREATE_GROUP.
\<close>

datatype group_thread =
    Find_Free u16 | Count_Up u16 | Test_Full u16 | Set_Gid u16
  | New_Head u16 u8 | Head_Uid u16 u8 | Head_Next u16 u8
  | Test_Group u16 u8 | Load_Head u16 u8 | Look u16 u8 "nat option" | Load_Tail u16 u8
  | Walk u16 "nat option" | Link u16 nat | Test_Link u16 nat | Link_Uid u16 nat | Link_Next nat
  | Finished "u8 option"

text \<open>A search or a walk does one turn of its loop in a step. Theory \<open>Interleaving\<close> runs the steps.\<close>

fun group_step ::
    "bool \<Rightarrow> (nat \<Rightarrow> group_node) \<Rightarrow> group_thread \<Rightarrow> group_mem \<Rightarrow> (group_thread \<times> group_mem) outcome" where
  "group_step ok junk (Find_Free u) m =
     (if \<not> gm_cnt m < length (gm_heads m) then Inl Out_Of_Bounds
      else if gm_heads m ! gm_cnt m \<noteq> None then Inr (Count_Up u, m)
      else Inr (Test_Full u, m))"
| "group_step ok junk (Count_Up u) m = Inr (Find_Free u, m\<lparr>gm_cnt := gm_cnt m + 1\<rparr>)"
| "group_step ok junk (Test_Full u) m =
     Inr (if gm_cnt m > GROUP_NUM_MAX then Finished None else Set_Gid u, m)"
| "group_step ok junk (Set_Gid u) m = Inr (New_Head u (of_nat (gm_cnt m)), m)"
| "group_step ok junk (New_Head u gid) m =
     (if \<not> unat gid < length (gm_heads m) then Inl Out_Of_Bounds
      else case new_node ok junk m of (p, m) \<Rightarrow>
        Inr (Head_Uid u gid, m\<lparr>gm_heads := (gm_heads m)[unat gid := p]\<rparr>))"
| "group_step ok junk (Head_Uid u gid) m =
     and_then (head_of m gid) (\<lambda>p. and_then (load_node m p) (\<lambda>(a, n).
     Inr (Head_Next u gid, m\<lparr>gm_nodes := (gm_nodes m)(a \<mapsto> n\<lparr>gn_uid := u\<rparr>)\<rparr>)))"
| "group_step ok junk (Head_Next u gid) m =
     and_then (head_of m gid) (\<lambda>p. and_then (load_node m p) (\<lambda>(a, n).
     Inr (Finished (Some gid), m\<lparr>gm_nodes := (gm_nodes m)(a \<mapsto> n\<lparr>gn_next := None\<rparr>)\<rparr>)))"
| "group_step ok junk (Test_Group u gid) m =
     and_then (head_of m gid) (\<lambda>p. Inr (if p = None then Finished None else Load_Head u gid, m))"
| "group_step ok junk (Load_Head u gid) m = and_then (head_of m gid) (\<lambda>p. Inr (Look u gid p, m))"
| "group_step ok junk (Look u gid current) m =
     (if current = None then Inr (Load_Tail u gid, m)
      else and_then (load_node m current) (\<lambda>(a, n).
        Inr (if gn_uid n = u then Finished None else Look u gid (gn_next n), m)))"
| "group_step ok junk (Load_Tail u gid) m = and_then (head_of m gid) (\<lambda>p. Inr (Walk u p, m))"
| "group_step ok junk (Walk u current) m =
     and_then (load_node m current) (\<lambda>(a, n).
     Inr (if gn_next n \<noteq> None then Walk u (gn_next n) else Link u a, m))"
| "group_step ok junk (Link u a) m =
     (case new_node ok junk m of (p, m) \<Rightarrow>
       and_then (load_node m (Some a)) (\<lambda>(a, n).
       Inr (Test_Link u a, m\<lparr>gm_nodes := (gm_nodes m)(a \<mapsto> n\<lparr>gn_next := p\<rparr>)\<rparr>)))"
| "group_step ok junk (Test_Link u a) m =
     and_then (load_node m (Some a)) (\<lambda>(a, n).
     Inr (if gn_next n \<noteq> None then Link_Uid u a else Finished None, m))"
| "group_step ok junk (Link_Uid u a) m =
     and_then (load_node m (Some a)) (\<lambda>(a, n). and_then (load_node m (gn_next n)) (\<lambda>(b, k).
     Inr (Link_Next a, m\<lparr>gm_nodes := (gm_nodes m)(b \<mapsto> k\<lparr>gn_uid := u\<rparr>)\<rparr>)))"
| "group_step ok junk (Link_Next a) m =
     and_then (load_node m (Some a)) (\<lambda>(a, n). and_then (load_node m (gn_next n)) (\<lambda>(b, k).
     Inr (Finished None, m\<lparr>gm_nodes := (gm_nodes m)(b \<mapsto> k\<lparr>gn_next := None\<rparr>)\<rparr>)))"
| "group_step ok junk (Finished r) m = Inr (Finished r, m)"

text \<open>The rules of theory \<open>Interleaving\<close> for these threads.\<close>

lemmas group_gets_step = gets_step [of "group_step ok junk" for ok junk]
lemmas group_gets_trans = gets_trans [of "group_step ok junk" for ok junk]
lemmas group_two_turns = two_turns [of "group_step ok junk" for ok junk]

section \<open>The nodes of a group\<close>

text \<open>The nodes at the addresses \<open>as\<close>, from the pointer \<open>p\<close> on, hold the users \<open>us\<close>.\<close>

fun chain :: "(nat \<rightharpoonup> group_node) \<Rightarrow> nat option \<Rightarrow> nat list \<Rightarrow> u16 list \<Rightarrow> bool" where
  "chain N p [] us \<longleftrightarrow> p = None \<and> us = []"
| "chain N p (a # as) us \<longleftrightarrow> p = Some a \<and>
     (\<exists>n vs. N a = Some n \<and> us = gn_uid n # vs \<and> chain N (gn_next n) as vs)"

definition groups_rep :: "group_mem \<Rightarrow> u16 list list \<Rightarrow> (nat \<Rightarrow> nat list) \<Rightarrow> bool" where
  "groups_rep m gs addrs \<longleftrightarrow> length (gm_heads m) = length gs \<and>
     (\<forall>i < length gs. chain (gm_nodes m) (gm_heads m ! i) (addrs i) (gs ! i) \<and>
        distinct (addrs i) \<and> set (addrs i) \<subseteq> {..<gm_brk m}) \<and>
     (\<forall>i < length gs. \<forall>j < length gs. i \<noteq> j \<longrightarrow> set (addrs i) \<inter> set (addrs j) = {})"

text \<open>The memory holds the groups of the server.\<close>

definition holds :: "group_mem \<Rightarrow> server \<Rightarrow> bool" where
  "holds m sv \<longleftrightarrow> gm_cnt m = sv_group_cnt sv \<and> (\<exists>addrs. groups_rep m (sv_groups sv) addrs)"

lemma chain_frame: "chain N p as us \<Longrightarrow> \<forall>a \<in> set as. N' a = N a \<Longrightarrow> chain N' p as us"
  by (induction as arbitrary: p us) auto

lemma chain_None: "chain N p as us \<Longrightarrow> p = None \<longleftrightarrow> us = []"
  by (cases as) auto

lemma chain_nodes: "chain N p as us \<Longrightarrow> a \<in> set as \<Longrightarrow> \<exists>n. N a = Some n"
  by (induction as arbitrary: p us) auto

lemma chain_append:
  assumes "chain N p as us" and "as \<noteq> []" and "distinct as" and "b \<notin> set as"
    and "N' (last as) = Some (n\<lparr>gn_next := Some b\<rparr>)" and "N (last as) = Some n"
    and "N' b = Some \<lparr>gn_uid = u, gn_next = None\<rparr>" and "\<forall>a \<in> set (butlast as). N' a = N a"
  shows "chain N' p (as @ [b]) (us @ [u])"
  using assms
proof (induction as arbitrary: p us)
  case Nil
  then show ?case by simp
next
  case (Cons a as)
  show ?case
  proof (cases "as = []")
    case True
    with Cons.prems show ?thesis by auto
  next
    case False
    obtain k vs where k: "p = Some a" "N a = Some k" "us = gn_uid k # vs" "chain N (gn_next k) as vs"
      using Cons.prems(1) by auto
    have "chain N' (gn_next k) (as @ [b]) (vs @ [u])"
      by (rule Cons.IH [OF k(4) False]) (use Cons.prems False in auto)
    with k Cons.prems(8) False show ?thesis by auto
  qed
qed

text \<open>Replacing the nodes of one group.\<close>

lemma groups_rep_update:
  assumes "groups_rep m gs addrs" and "i < length gs"
    and "chain (gm_nodes m') (gm_heads m' ! i) as us" and "distinct as" and "set as \<subseteq> {..<gm_brk m'}"
    and "gm_heads m' = (gm_heads m)[i := gm_heads m' ! i]" and "gm_brk m \<le> gm_brk m'"
    and "\<forall>a < gm_brk m. a \<notin> set (addrs i) \<longrightarrow> gm_nodes m' a = gm_nodes m a"
    and "\<forall>a \<in> set as. a < gm_brk m \<longrightarrow> a \<in> set (addrs i)"
  shows "groups_rep m' (gs[i := us]) (addrs(i := as))"
proof -
  have other: "chain (gm_nodes m') (gm_heads m' ! j) (addrs j) (gs ! j)" if "j < length gs" "j \<noteq> i" for j
  proof -
    have "chain (gm_nodes m) (gm_heads m ! j) (addrs j) (gs ! j)" "set (addrs j) \<subseteq> {..<gm_brk m}"
      "set (addrs i) \<inter> set (addrs j) = {}"
      using assms(1,2) that by (auto simp: groups_rep_def)
    moreover from this have "\<forall>a \<in> set (addrs j). gm_nodes m' a = gm_nodes m a" using assms(8) by blast
    moreover have "gm_heads m' ! j = gm_heads m ! j" using assms(6) that by (metis nth_list_update_neq)
    ultimately show ?thesis using chain_frame by metis
  qed
  have apart: "set as \<inter> set (addrs j) = {}" if "j < length gs" "j \<noteq> i" for j
  proof -
    have "set (addrs j) \<subseteq> {..<gm_brk m}" "set (addrs i) \<inter> set (addrs j) = {}"
      using assms(1,2) that by (auto simp: groups_rep_def)
    with assms(9) show ?thesis by blast
  qed
  have below: "set (addrs j) \<subseteq> {..<gm_brk m'}" "distinct (addrs j)" if "j < length gs" for j
    using assms(1,7) that by (force simp: groups_rep_def)+
  have old: "set (addrs j) \<inter> set (addrs l) = {}" if "j < length gs" "l < length gs" "j \<noteq> l" for j l
    using assms(1) that by (simp add: groups_rep_def)
  have len: "length (gm_heads m') = length gs" using assms(1,6) by (metis groups_rep_def length_list_update)
  show ?thesis
    using other apart below old len assms(2-5)
    by (simp add: groups_rep_def nth_list_update Int_commute)
qed

section \<open>A thread that is not interrupted\<close>

lemma look_gets:
  assumes "chain (gm_nodes m) p as us"
  shows "gets (group_step ok junk) (Look u gid p) m (if u \<in> set us then Finished None else Load_Tail u gid) m"
  using assms
proof (induction as arbitrary: p us)
  case Nil
  then show ?case by (auto intro: group_gets_step [OF _ gets_refl])
next
  case (Cons a as)
  then obtain n vs where n: "p = Some a" "gm_nodes m a = Some n" "us = gn_uid n # vs"
      "chain (gm_nodes m) (gn_next n) as vs" by auto
  show ?case
    by (rule group_gets_step) (use n Cons.IH [OF n(4)] in \<open>auto simp: load_node_def\<close>)
qed

lemma walk_gets:
  assumes "chain (gm_nodes m) p (a # as) us"
  shows "gets (group_step ok junk) (Walk u p) m (Link u (last (a # as))) m"
  using assms
proof (induction as arbitrary: p a us)
  case Nil
  then show ?case by (auto simp: load_node_def intro: group_gets_step [OF _ gets_refl])
next
  case (Cons b as)
  then obtain n vs where n: "p = Some a" "gm_nodes m a = Some n" "chain (gm_nodes m) (gn_next n) (b # as) vs"
    by auto
  then have "gn_next n = Some b" by simp
  with n Cons.IH [OF n(3)] show ?case by (auto simp: load_node_def intro: group_gets_step)
qed

text \<open>INVITE_RESP up to the point where a node is appended.\<close>

lemma look_group_gets:
  assumes "groups_rep m gs addrs" and "unat gid < length gs"
  shows "gets (group_step ok junk) (Test_Group u gid) m
    (if gs ! unat gid = [] \<or> u \<in> set (gs ! unat gid) then Finished None else Load_Tail u gid) m"
proof -
  let ?p = "gm_heads m ! unat gid"
  have p: "head_of m gid = Inr ?p" "chain (gm_nodes m) ?p (addrs (unat gid)) (gs ! unat gid)"
    using assms by (auto simp: groups_rep_def head_of_def)
  show ?thesis
  proof (cases "gs ! unat gid = []")
    case True
    then have "?p = None" using chain_None [OF p(2)] by simp
    with p(1) True show ?thesis by (auto intro: group_gets_step [OF _ gets_refl])
  next
    case False
    then have ne: "?p \<noteq> None" using chain_None [OF p(2)] by simp
    have "group_step ok junk (Test_Group u gid) m = Inr (Load_Head u gid, m)"
      "group_step ok junk (Load_Head u gid) m = Inr (Look u gid ?p, m)" using p(1) ne by simp_all
    from group_gets_step [OF this(1) group_gets_step [OF this(2) look_gets [OF p(2)]]] False show ?thesis by simp
  qed
qed

lemma tail_gets:
  assumes "groups_rep m gs addrs" and "unat gid < length gs" and "gs ! unat gid \<noteq> []"
  shows "gets (group_step ok junk) (Load_Tail u gid) m (Link u (last (addrs (unat gid)))) m"
proof -
  let ?p = "gm_heads m ! unat gid"
  have p: "head_of m gid = Inr ?p" "chain (gm_nodes m) ?p (addrs (unat gid)) (gs ! unat gid)"
    using assms by (auto simp: groups_rep_def head_of_def)
  obtain a as where as: "addrs (unat gid) = a # as" using p(2) assms(3) by (cases "addrs (unat gid)") auto
  have "group_step ok junk (Load_Tail u gid) m = Inr (Walk u ?p, m)" using p(1) by simp
  from group_gets_step [OF this walk_gets] p(2) show ?thesis unfolding as by blast
qed

lemma join_gets:
  assumes "groups_rep m gs addrs" and "unat gid < length gs"
  shows "gets (group_step ok junk) (Test_Group u gid) m
    (if gs ! unat gid = [] \<or> u \<in> set (gs ! unat gid) then Finished None
     else Link u (last (addrs (unat gid)))) m"
proof (cases "gs ! unat gid = [] \<or> u \<in> set (gs ! unat gid)")
  case True
  then show ?thesis using look_group_gets [OF assms, of ok junk u] by simp
next
  case False
  then have "gets (group_step ok junk) (Test_Group u gid) m (Load_Tail u gid) m"
    using look_group_gets [OF assms, of ok junk u] by simp
  from group_gets_trans [OF this tail_gets [OF assms]] False show ?thesis by simp
qed

text \<open>Appending a node behind the node at \<open>a\<close>, whatever hangs there.\<close>

definition append_node :: "u16 \<Rightarrow> nat \<Rightarrow> group_mem \<Rightarrow> group_mem" where
  "append_node u a m = m\<lparr>gm_nodes := (gm_nodes m)(a \<mapsto> (the (gm_nodes m a))\<lparr>gn_next := Some (gm_brk m)\<rparr>,
     gm_brk m \<mapsto> \<lparr>gn_uid = u, gn_next = None\<rparr>), gm_brk := gm_brk m + 1\<rparr>"

lemma node_eta: "(n :: group_node)\<lparr>gn_uid := u, gn_next := x\<rparr> = \<lparr>gn_uid = u, gn_next = x\<rparr>"
  by (cases n) simp

lemma link_gets:
  assumes "gm_nodes m a = Some n" and "a < gm_brk m"
  shows "gets (group_step True junk) (Link u a) m (Finished None) (append_node u a m)"
proof -
  have "alone (group_step True junk) 4 (Link u a) m = Inr (Finished None, append_node u a m)"
    using assms by (simp add: numeral_eq_Suc new_node_def load_node_def append_node_def node_eta fun_upd_twist)
  then show ?thesis unfolding gets_def by blast
qed

text \<open>CREATE_GROUP: the search, the choice of the number, and the new head.\<close>

lemma free_group_bounds: "free_group gs n = Inr cnt \<Longrightarrow> cnt < length gs \<and> gs ! cnt = []"
proof (induction gs n rule: free_group.induct)
  case (1 gs n)
  then show ?case by (subst (asm) (2) free_group.simps) (auto split: if_splits)
qed

lemma find_gets:
  assumes "free_group gs n = Inr cnt" and "gm_cnt m = n" and "groups_rep m gs addrs"
  shows "gets (group_step ok junk) (Find_Free u) m (Test_Full u) (m\<lparr>gm_cnt := cnt\<rparr>)"
  using assms
proof (induction gs n arbitrary: m rule: free_group.induct)
  case (1 gs n)
  show ?case
  proof (cases "gs ! n = []")
    case True
    then have "cnt = n" "n < length gs" using "1.prems"(1) by (auto simp: free_group.simps split: if_splits)
    moreover from this have "gm_heads m ! n = None" "length (gm_heads m) = length gs"
      using "1.prems"(3) True chain_None by (auto simp: groups_rep_def)
    ultimately have "group_step ok junk (Find_Free u) m = Inr (Test_Full u, m\<lparr>gm_cnt := cnt\<rparr>)"
      using "1.prems"(2) by simp
    then show ?thesis by (rule group_gets_step) simp
  next
    case False
    have n: "n < length gs" "free_group gs (n + 1) = Inr cnt"
      using "1.prems"(1) False by (auto simp: free_group.simps [of gs n] split: if_splits)
    have "gm_heads m ! n \<noteq> None" "length (gm_heads m) = length gs"
      using "1.prems"(3) False n(1) chain_None by (fastforce simp: groups_rep_def)+
    then have a: "group_step ok junk (Find_Free u) m = Inr (Count_Up u, m)"
      using "1.prems"(2) n(1) by simp
    have b: "group_step ok junk (Count_Up u) m = Inr (Find_Free u, m\<lparr>gm_cnt := n + 1\<rparr>)"
      using "1.prems"(2) by simp
    have "gets (group_step ok junk) (Find_Free u) (m\<lparr>gm_cnt := n + 1\<rparr>) (Test_Full u) (m\<lparr>gm_cnt := n + 1, gm_cnt := cnt\<rparr>)"
      by (rule "1.IH") (use False n "1.prems"(3) in \<open>auto simp: groups_rep_def\<close>)
    then show ?thesis using group_gets_step [OF a group_gets_step [OF b]] by simp
  qed
qed

lemma choose_gets:
  assumes "gm_cnt m \<le> GROUP_NUM_MAX"
  shows "gets (group_step ok junk) (Test_Full u) m (New_Head u (of_nat (gm_cnt m))) m"
  using assms by (auto intro!: group_gets_step [of ok junk "Test_Full u"] group_gets_step [of ok junk "Set_Gid u"])

definition new_group :: "u16 \<Rightarrow> nat \<Rightarrow> group_mem \<Rightarrow> group_mem" where
  "new_group u i m = m\<lparr>gm_heads := (gm_heads m)[i := Some (gm_brk m)],
     gm_nodes := (gm_nodes m)(gm_brk m \<mapsto> \<lparr>gn_uid = u, gn_next = None\<rparr>), gm_brk := gm_brk m + 1\<rparr>"

lemma head_gets:
  assumes "unat gid < length (gm_heads m)"
  shows "gets (group_step True junk) (New_Head u gid) m (Finished (Some gid)) (new_group u (unat gid) m)"
proof -
  have "alone (group_step True junk) 3 (New_Head u gid) m = Inr (Finished (Some gid), new_group u (unat gid) m)"
    using assms by (simp add: numeral_eq_Suc new_node_def load_node_def head_of_def new_group_def node_eta)
  then show ?thesis unfolding gets_def by blast
qed

lemma groups_rep_cnt [simp]: "groups_rep (m\<lparr>gm_cnt := n\<rparr>) = groups_rep m"
  by (simp add: groups_rep_def fun_eq_iff)

text \<open>A new last node at \<open>b\<close>, whatever else was allocated.\<close>

lemma linked_rep:
  assumes "groups_rep m gs addrs" and "i < length gs" and "gs ! i \<noteq> []" and "last (addrs i) = a"
    and "gm_nodes m' a = Some ((the (gm_nodes m a))\<lparr>gn_next := Some b\<rparr>)"
    and "gm_nodes m' b = Some \<lparr>gn_uid = u, gn_next = None\<rparr>"
    and "gm_brk m \<le> b" and "b < gm_brk m'" and "gm_heads m' = gm_heads m"
    and "\<forall>x < gm_brk m. x \<noteq> a \<longrightarrow> gm_nodes m' x = gm_nodes m x"
  shows "groups_rep m' (gs[i := gs ! i @ [u]]) (addrs(i := addrs i @ [b]))"
proof -
  have c: "chain (gm_nodes m) (gm_heads m ! i) (addrs i) (gs ! i)" "distinct (addrs i)"
      "set (addrs i) \<subseteq> {..<gm_brk m}" "length (gm_heads m) = length gs"
    using assms by (auto simp: groups_rep_def)
  have ne: "addrs i \<noteq> []" using c(1) assms(3) by auto
  have last: "a \<in> set (addrs i)" "a < gm_brk m"
    using last_in_set [OF ne] subsetD [OF c(3)] assms(4) by auto
  obtain n where n: "gm_nodes m a = Some n" using chain_nodes [OF c(1) last(1)] by blast
  have "x \<noteq> a \<and> x < gm_brk m" if "x \<in> set (butlast (addrs i))" for x
    using that c(2,3) ne assms(4) by (metis append_butlast_last_id disjoint_iff distinct_append in_set_butlastD
      lessThan_iff list.set_intros(1) subsetD)
  then have "chain (gm_nodes m') (gm_heads m ! i) (addrs i @ [b]) (gs ! i @ [u])"
    by (intro chain_append [OF c(1) ne c(2), of _ _ n]) (use assms c(3) last n in auto)
  then show ?thesis
    using assms c last by (intro groups_rep_update [OF assms(1,2)]) auto
qed

lemma new_group_rep:
  assumes "groups_rep m gs addrs" and "i < length gs"
  shows "groups_rep (new_group u i m) (gs[i := [u]]) (addrs(i := [gm_brk m]))"
  using assms by (intro groups_rep_update [OF assms]) (auto simp: new_group_def groups_rep_def)

text \<open>The two commands, run alone.\<close>

lemma choose_gid:
  assumes "free_group gs (gm_cnt m) = Inr cnt" and "length gs = GROUP_NUM_MAX" and "groups_rep m gs addrs"
  shows "gets (group_step ok junk) (Find_Free u) m (New_Head u (of_nat cnt)) (m\<lparr>gm_cnt := cnt\<rparr>)"
    and "unat (of_nat cnt :: u8) = cnt" and "cnt < length gs"
proof -
  show cnt: "cnt < length gs" using free_group_bounds [OF assms(1)] by simp
  then show "unat (of_nat cnt :: u8) = cnt" using assms(2) by (simp add: unat_of_nat GROUP_NUM_MAX_def)
  have "gets (group_step ok junk) (Test_Full u) (m\<lparr>gm_cnt := cnt\<rparr>) (New_Head u (of_nat cnt)) (m\<lparr>gm_cnt := cnt\<rparr>)"
    using choose_gets [of "m\<lparr>gm_cnt := cnt\<rparr>" ok junk u] cnt assms(2) by simp
  with find_gets [OF assms(1) refl assms(3)] show
    "gets (group_step ok junk) (Find_Free u) m (New_Head u (of_nat cnt)) (m\<lparr>gm_cnt := cnt\<rparr>)" by (rule group_gets_trans)
qed

lemma make_group:
  assumes "groups_rep m gs addrs" and "cnt < length gs" and "unat gid = cnt"
  shows "gets (group_step True junk) (New_Head u gid) m (Finished (Some gid)) (new_group u cnt m)"
    and "groups_rep (new_group u cnt m) (gs[cnt := [u]]) (addrs(cnt := [gm_brk m]))"
    and "gm_cnt (new_group u cnt m) = gm_cnt m"
  using assms head_gets [of gid m junk u] new_group_rep [of m gs addrs cnt u]
  by (auto simp: groups_rep_def new_group_def)

lemma create_gets:
  assumes "groups_rep m gs addrs" and "free_group gs (gm_cnt m) = Inr cnt" and "length gs = GROUP_NUM_MAX"
  shows "\<exists>m'. gets (group_step True junk) (Find_Free u) m (Finished (Some (of_nat cnt))) m' \<and> gm_cnt m' = cnt \<and>
    (\<exists>addrs'. groups_rep m' (gs[cnt := [u]]) addrs')"
proof -
  have rep: "groups_rep (m\<lparr>gm_cnt := cnt\<rparr>) gs addrs" using assms(1) by simp
  note choose = choose_gid [OF assms(2,3,1)]
  note made = make_group [OF rep choose(3,2)]
  from group_gets_trans [OF choose(1) made(1)] made(2,3) show ?thesis by fastforce
qed

lemma append_node_gets:
  assumes "groups_rep m gs addrs" and "i < length gs" and "gs ! i \<noteq> []"
  shows "gets (group_step True junk) (Link u (last (addrs i))) m (Finished None) (append_node u (last (addrs i)) m)"
    and "groups_rep (append_node u (last (addrs i)) m) (gs[i := gs ! i @ [u]]) (addrs(i := addrs i @ [gm_brk m]))"
proof -
  have c: "chain (gm_nodes m) (gm_heads m ! i) (addrs i) (gs ! i)" "set (addrs i) \<subseteq> {..<gm_brk m}"
    using assms by (auto simp: groups_rep_def)
  then have "last (addrs i) \<in> set (addrs i)" using assms(3) by (cases "addrs i") auto
  then obtain n where n: "gm_nodes m (last (addrs i)) = Some n" "last (addrs i) < gm_brk m"
    using chain_nodes [OF c(1)] c(2) by blast
  show "gets (group_step True junk) (Link u (last (addrs i))) m (Finished None) (append_node u (last (addrs i)) m)"
    by (rule link_gets [OF n])
  show "groups_rep (append_node u (last (addrs i)) m) (gs[i := gs ! i @ [u]]) (addrs(i := addrs i @ [gm_brk m]))"
    using n(2) by (intro linked_rep [OF assms refl]) (auto simp: append_node_def)
qed

lemma join_once:
  assumes "groups_rep m gs addrs" and "unat gid < length gs"
  shows "\<exists>m' addrs'. gets (group_step True junk) (Test_Group u gid) m (Finished None) m' \<and> gm_cnt m' = gm_cnt m \<and>
    groups_rep m' (if gs ! unat gid = [] \<or> u \<in> set (gs ! unat gid) then gs
      else gs[unat gid := gs ! unat gid @ [u]]) addrs'"
proof (cases "gs ! unat gid = [] \<or> u \<in> set (gs ! unat gid)")
  case True
  with join_gets [OF assms, of True junk u] assms(1) show ?thesis by auto
next
  case False
  then have ne: "gs ! unat gid \<noteq> []" by simp
  have "gets (group_step True junk) (Test_Group u gid) m (Link u (last (addrs (unat gid)))) m"
    using join_gets [OF assms, of True junk u] False by simp
  from group_gets_trans [OF this append_node_gets(1) [OF assms ne]] append_node_gets(2) [OF assms ne, of u] False
  show ?thesis by (intro exI conjI) (assumption | simp add: append_node_def)+
qed

section \<open>Two threads\<close>

lemma race_create:
  assumes "groups_rep m gs addrs" and "free_group gs (gm_cnt m) = Inr cnt" and "length gs = GROUP_NUM_MAX"
  shows "\<exists>schedule m'. run_schedule (group_step True junk) schedule [Find_Free u, Find_Free v] m =
      Inr ([Finished (Some (of_nat cnt)), Finished (Some (of_nat cnt))], m') \<and>
    gm_cnt m' = cnt \<and> (\<exists>addrs'. groups_rep m' (gs[cnt := [v]]) addrs')"
proof -
  let ?m = "m\<lparr>gm_cnt := cnt\<rparr>"
  let ?m2 = "new_group u cnt ?m"
  have rep: "groups_rep ?m gs addrs" using assms(1) by simp
  note first = choose_gid [OF assms(2,3,1)]
  have "free_group gs (gm_cnt ?m) = Inr cnt"
    using free_group_bounds [OF assms(2)] by (simp add: free_group.simps)
  note second = choose_gid(1) [OF this assms(3) rep]
  note made = make_group [OF rep first(3,2)]
  have cnt: "cnt < length (gs[cnt := [u]])" using first(3) by simp
  note made2 = make_group [OF made(2) cnt first(2)]
  obtain schedule where "run_schedule (group_step True junk) schedule [Find_Free u, Find_Free v] m =
      Inr ([Finished (Some (of_nat cnt)), Finished (Some (of_nat cnt))], new_group v cnt ?m2)"
    using group_two_turns [OF first(1) _ made(1) made2(1)] second by fastforce
  moreover have "groups_rep (new_group v cnt ?m2) (gs[cnt := [v]]) (addrs(cnt := [gm_brk ?m2]))"
    using made2(2) by simp
  moreover have "gm_cnt (new_group v cnt ?m2) = cnt" by (simp add: new_group_def)
  ultimately show ?thesis by blast
qed

lemma race_join:
  assumes "groups_rep m gs addrs" and "unat gid < length gs" and "gs ! unat gid = g" and "g \<noteq> []"
    and "u \<notin> set g" and "v \<notin> set g"
  shows "\<exists>schedule m'. run_schedule (group_step True junk) schedule [Test_Group u gid, Test_Group v gid] m =
      Inr ([Finished None, Finished None], m') \<and>
    gm_cnt m' = gm_cnt m \<and> (\<exists>addrs'. groups_rep m' (gs[unat gid := g @ [v]]) addrs')"
proof -
  let ?a = "last (addrs (unat gid))"
  let ?m1 = "append_node u ?a m"
  let ?m2 = "append_node v ?a ?m1"
  have link: "gets (group_step True junk) (Test_Group w gid) m (Link w ?a) m" if "w \<notin> set g" for w
    using join_gets [OF assms(1,2), of True junk w] assms(3,4) that by simp
  note app = append_node_gets [OF assms(1,2), unfolded assms(3), OF assms(4)]
  have c: "chain (gm_nodes m) (gm_heads m ! unat gid) (addrs (unat gid)) g" "set (addrs (unat gid)) \<subseteq> {..<gm_brk m}"
    using assms by (auto simp: groups_rep_def)
  then have a: "?a < gm_brk m" using assms(4) by (cases "addrs (unat gid)") (auto simp: subset_iff)
  have "gets (group_step True junk) (Link v ?a) ?m1 (Finished None) ?m2"
    by (rule link_gets) (use a in \<open>auto simp: append_node_def\<close>)
  with group_two_turns [OF link [OF assms(5)] link [OF assms(6)] app(1)] obtain schedule where
    "run_schedule (group_step True junk) schedule [Test_Group u gid, Test_Group v gid] m = Inr ([Finished None, Finished None], ?m2)"
    by blast
  moreover have "groups_rep ?m2 (gs[unat gid := g @ [v]]) (addrs(unat gid := addrs (unat gid) @ [gm_brk m + 1]))"
    using linked_rep [OF assms(1,2) _ refl, of ?m2 "gm_brk m + 1" v] a assms(3,4) by (auto simp: append_node_def)
  ultimately show ?thesis by (intro exI [of _ schedule] exI [of _ ?m2]) (auto simp: append_node_def)
qed

lemma race_same_user:
  assumes "groups_rep m gs addrs" and "unat gid < length gs" and "gs ! unat gid = g" and "g \<noteq> []"
    and "u \<notin> set g"
  shows "\<exists>schedule m'. run_schedule (group_step True junk) schedule [Test_Group u gid, Test_Group u gid] m =
      Inr ([Finished None, Finished None], m') \<and>
    gm_cnt m' = gm_cnt m \<and> (\<exists>addrs'. groups_rep m' (gs[unat gid := g @ [u, u]]) addrs')"
proof -
  let ?i = "unat gid"
  have look: "gets (group_step True junk) (Test_Group u gid) m (Load_Tail u gid) m"
    using look_group_gets [OF assms(1,2), of True junk u] assms(3-5) by simp
  have ne: "gs ! ?i \<noteq> []" using assms(3,4) by simp
  let ?m1 = "append_node u (last (addrs ?i)) m"
  let ?gs1 = "gs[?i := g @ [u]]" and ?addrs1 = "addrs(?i := addrs ?i @ [gm_brk m])"
  note app1 = append_node_gets(1) [OF assms(1,2) ne, of junk u]
    append_node_gets(2) [OF assms(1,2) ne, of u, unfolded assms(3)]
  have 1: "?i < length ?gs1" "?gs1 ! ?i \<noteq> []" using assms(2) by simp_all
  note app2 = append_node_gets(1) [OF app1(2) 1, of junk u] append_node_gets(2) [OF app1(2) 1, of u]
  have "gets (group_step True junk) (Load_Tail u gid) m (Finished None) ?m1"
    by (rule group_gets_trans [OF tail_gets [OF assms(1,2) ne] app1(1)])
  moreover have "gets (group_step True junk) (Load_Tail u gid) ?m1 (Finished None) (append_node u (last (?addrs1 ?i)) ?m1)"
    by (rule group_gets_trans [OF tail_gets [OF app1(2) 1] app2(1)])
  ultimately obtain schedule where "run_schedule (group_step True junk) schedule [Test_Group u gid, Test_Group u gid] m =
      Inr ([Finished None, Finished None], append_node u (last (?addrs1 ?i)) ?m1)"
    using group_two_turns [OF look look] by blast
  moreover have "?gs1[?i := ?gs1 ! ?i @ [u]] = gs[?i := g @ [u, u]]" using assms(2) by simp
  ultimately show ?thesis using app2(2) by (metis (no_types, lifting) append_node_def group_mem.select_convs(4)
      group_mem.surjective group_mem.update_convs(2,3))
qed

section \<open>Properties\<close>

text \<open>A memory for the groups of a server that has one group with one member.\<close>

definition sample_mem :: group_mem where
  "sample_mem = \<lparr>gm_heads = (replicate GROUP_NUM_MAX None)[0 := Some 0],
     gm_nodes = [0 \<mapsto> \<lparr>gn_uid = 1, gn_next = None\<rparr>], gm_brk = 1, gm_cnt = 0\<rparr>"

lemma sample_holds: "holds sample_mem sample_server"
proof -
  have "sv_groups sample_server = (replicate GROUP_NUM_MAX [])[0 := [1]]" by (simp add: sample_server_def)
  moreover have "groups_rep sample_mem ((replicate GROUP_NUM_MAX [])[0 := [1]]) (\<lambda>i. if i = 0 then [0] else [])"
    by (auto simp: groups_rep_def sample_mem_def nth_list_update GROUP_NUM_MAX_def)
  ultimately show ?thesis by (auto simp: holds_def) (simp add: sample_mem_def)
qed

text \<open>C12: A thread that runs CREATE_GROUP or a joining INVITE_RESP without being interrupted ends, and
  leaves in the linked nodes the groups that the handlers of theory \<open>Server\<close> compute; CREATE_GROUP
  ends with the number of the group that it made.\<close>

theorem uninterrupted_refines:
  assumes "sv_inv sv" and "holds m sv" and "handle_create_group env p recv sv = Inr created"
    and "hdr_uid recv \<noteq> 0" and "en_malloc env = (\<lambda>_. True)"
    and "unat (hdr_gid resp) < GROUP_NUM_MAX" and "hdr_payload resp = CHR ''a'' # t"
    and "check_header_invite resp = 0"
  shows "(\<exists>m'. gets (group_step True junk) (Find_Free (hdr_uid recv)) m
      (Finished (Some (of_nat (sv_group_cnt created)))) m' \<and> holds m' created) \<and>
    (\<exists>m' joined. handle_invite_resp env resp sv = Inr joined \<and>
      gets (group_step True junk) (Test_Group (hdr_uid resp) (hdr_gid resp)) m (Finished None) m' \<and> holds m' joined)"
proof
  obtain addrs where rep: "groups_rep m (sv_groups sv) addrs" "gm_cnt m = sv_group_cnt sv"
    using assms(2) by (auto simp: holds_def)
  have len: "length (sv_groups sv) = GROUP_NUM_MAX" "\<forall>i < sv_group_cnt sv. sv_groups sv ! i \<noteq> []"
    using assms(1) by (simp_all add: sv_inv_def groups_ok_def)
  obtain n where n: "free_group (sv_groups sv) (sv_group_cnt sv) = Inr n" "n < GROUP_NUM_MAX"
      "quiet (sv\<lparr>sv_group_cnt := n, sv_groups := (sv_groups sv)[n := [hdr_uid recv]]\<rparr>) created"
    using handle_create_group_made [OF assms(3,4) len(2,1)] by blast
  then have created: "sv_group_cnt created = n" "sv_groups created = (sv_groups sv)[n := [hdr_uid recv]]"
    by (simp_all add: quiet_def)
  obtain m' where "gets (group_step True junk) (Find_Free (hdr_uid recv)) m (Finished (Some (of_nat n))) m'"
      "gm_cnt m' = n" "\<exists>addrs'. groups_rep m' ((sv_groups sv)[n := [hdr_uid recv]]) addrs'"
    using create_gets [OF rep(1) n(1) [folded rep(2)] len(1)] by blast
  then show "\<exists>m'. gets (group_step True junk) (Find_Free (hdr_uid recv)) m
      (Finished (Some (of_nat (sv_group_cnt created)))) m' \<and> holds m' created"
    by (auto simp: holds_def created)
  show "\<exists>m' joined. handle_invite_resp env resp sv = Inr joined \<and>
      gets (group_step True junk) (Test_Group (hdr_uid resp) (hdr_gid resp)) m (Finished None) m' \<and> holds m' joined"
    using join_once [OF rep(1), of "hdr_gid resp" junk "hdr_uid resp"] handle_invite_resp_eq [of resp sv env]
      assms(2,5-8) check_header_invite_ok [of resp] len(1) rep(2)
    by (auto simp: Let_def holds_def split: if_splits)
qed

theorem uninterrupted_refines_witness:
  "\<exists>created. (\<exists>m'. gets (group_step True (\<lambda>_. \<lparr>gn_uid = 0, gn_next = None\<rparr>))
      (Find_Free (hdr_uid (sample_request CREATE_GROUP 0 2 []))) sample_mem
      (Finished (Some (of_nat (sv_group_cnt created)))) m' \<and> holds m' created) \<and>
    (\<exists>m' joined. handle_invite_resp sample_env (sample_request INVITE_RESP 0 2 ''accept'') (online_server []) =
        Inr joined \<and>
      gets (group_step True (\<lambda>_. \<lparr>gn_uid = 0, gn_next = None\<rparr>)) (Test_Group
        (hdr_uid (sample_request INVITE_RESP 0 2 ''accept'')) (hdr_gid (sample_request INVITE_RESP 0 2 ''accept'')))
        sample_mem (Finished None) m' \<and> holds m' joined)"
proof (rule exI, rule uninterrupted_refines [OF online_server_inv])
  show "holds sample_mem (online_server [])"
    using sample_holds by (simp add: holds_def online_server_def)
  show "handle_create_group sample_env 7 (sample_request CREATE_GROUP 0 2 []) (online_server []) = Inr
      ((online_server [])\<lparr>sv_group_cnt := 1,
        sv_groups := (sv_groups (online_server []))[1 := [hdr_uid (sample_request CREATE_GROUP 0 2 [])]],
        sv_socks := sent_on (online_server []) \<lparr>cl_connfd = 4, cl_message_queue = zero_queue, cl_uid = -1,
          cl_username = zero_name, cl_file_id = 0\<rparr>
          (answer CREATE_GROUP (of_nat 1) (hdr_uid (sample_request CREATE_GROUP 0 2 [])) 0)\<rparr>)"
    by (rule create_group_free [OF online_server_inv online_connected])
      (simp_all add: sample_env_def GROUP_NUM_MAX_def sample_request_def)
qed (simp_all add: sample_env_def sample_request_def GROUP_NUM_MAX_def check_header_invite_ok MAX_CHAR_USERID_def)

text \<open>C17: Without a lock, some schedules of two threads lose or double members. Two users who create a
  group at the same time can both be answered with the same group number, and only the second is a
  member of it. Of two users who accept an invitation at the same time, only the second may have
  joined. One user who accepts on two connections can be in the group twice, which no sequence of
  whole commands allows.\<close>

theorem unlocked_groups_race:
  assumes "sv_inv sv" and "holds m sv" and "free_group (sv_groups sv) (sv_group_cnt sv) = Inr n"
    and "group_at sv gid = Inr g" and "g \<noteq> []" and "u \<notin> set g" and "v \<notin> set g"
  shows "(\<exists>schedule m'. run_schedule (group_step True junk) schedule [Find_Free u, Find_Free v] m =
        Inr ([Finished (Some (of_nat n)), Finished (Some (of_nat n))], m') \<and>
      holds m' (sv\<lparr>sv_group_cnt := n, sv_groups := (sv_groups sv)[n := [v]]\<rparr>)) \<and>
    (\<exists>schedule m'. run_schedule (group_step True junk) schedule [Test_Group u gid, Test_Group v gid] m =
        Inr ([Finished None, Finished None], m') \<and>
      holds m' (sv\<lparr>sv_groups := (sv_groups sv)[unat gid := g @ [v]]\<rparr>)) \<and>
    (\<exists>schedule m'. run_schedule (group_step True junk) schedule [Test_Group u gid, Test_Group u gid] m =
        Inr ([Finished None, Finished None], m') \<and>
      holds m' (sv\<lparr>sv_groups := (sv_groups sv)[unat gid := g @ [u, u]]\<rparr>)) \<and>
    \<not> sv_inv (sv\<lparr>sv_groups := (sv_groups sv)[unat gid := g @ [u, u]]\<rparr>)"
proof (intro conjI)
  obtain addrs where rep: "groups_rep m (sv_groups sv) addrs" "gm_cnt m = sv_group_cnt sv"
    using assms(2) by (auto simp: holds_def)
  have len: "length (sv_groups sv) = GROUP_NUM_MAX" using assms(1) by (simp add: sv_inv_def groups_ok_def)
  have g: "unat gid < length (sv_groups sv)" "sv_groups sv ! unat gid = g"
    using assms(4) by (auto simp: group_at_Inr)
  show "\<exists>schedule m'. run_schedule (group_step True junk) schedule [Find_Free u, Find_Free v] m =
        Inr ([Finished (Some (of_nat n)), Finished (Some (of_nat n))], m') \<and>
      holds m' (sv\<lparr>sv_group_cnt := n, sv_groups := (sv_groups sv)[n := [v]]\<rparr>)"
    using race_create [OF rep(1) assms(3) [folded rep(2)] len] by (fastforce simp: holds_def)
  show "\<exists>schedule m'. run_schedule (group_step True junk) schedule [Test_Group u gid, Test_Group v gid] m =
        Inr ([Finished None, Finished None], m') \<and>
      holds m' (sv\<lparr>sv_groups := (sv_groups sv)[unat gid := g @ [v]]\<rparr>)"
    using race_join [OF rep(1) g assms(5-7)] rep(2) by (fastforce simp: holds_def)
  show "\<exists>schedule m'. run_schedule (group_step True junk) schedule [Test_Group u gid, Test_Group u gid] m =
        Inr ([Finished None, Finished None], m') \<and>
      holds m' (sv\<lparr>sv_groups := (sv_groups sv)[unat gid := g @ [u, u]]\<rparr>)"
    using race_same_user [OF rep(1) g assms(5,6)] rep(2) by (fastforce simp: holds_def)
  have "g @ [u, u] \<in> set ((sv_groups sv)[unat gid := g @ [u, u]])" using g(1) by (rule set_update_memI)
  then show "\<not> sv_inv (sv\<lparr>sv_groups := (sv_groups sv)[unat gid := g @ [u, u]]\<rparr>)"
    by (auto simp: sv_inv_def groups_ok_def dest!: bspec [where x = "g @ [u, u]"])
qed

theorem unlocked_groups_race_witness:
  "(\<exists>schedule m'. run_schedule (group_step True (\<lambda>_. \<lparr>gn_uid = 0, gn_next = None\<rparr>)) schedule
        [Find_Free 2, Find_Free 3] sample_mem = Inr ([Finished (Some (of_nat 1)), Finished (Some (of_nat 1))], m') \<and>
      holds m' (sample_server\<lparr>sv_group_cnt := 1, sv_groups := (sv_groups sample_server)[1 := [3]]\<rparr>)) \<and>
    (\<exists>schedule m'. run_schedule (group_step True (\<lambda>_. \<lparr>gn_uid = 0, gn_next = None\<rparr>)) schedule
        [Test_Group 2 0, Test_Group 3 0] sample_mem = Inr ([Finished None, Finished None], m') \<and>
      holds m' (sample_server\<lparr>sv_groups := (sv_groups sample_server)[unat (0 :: u8) := [1] @ [3]]\<rparr>)) \<and>
    (\<exists>schedule m'. run_schedule (group_step True (\<lambda>_. \<lparr>gn_uid = 0, gn_next = None\<rparr>)) schedule
        [Test_Group 2 0, Test_Group 2 0] sample_mem = Inr ([Finished None, Finished None], m') \<and>
      holds m' (sample_server\<lparr>sv_groups := (sv_groups sample_server)[unat (0 :: u8) := [1] @ [2, 2]]\<rparr>)) \<and>
    \<not> sv_inv (sample_server\<lparr>sv_groups := (sv_groups sample_server)[unat (0 :: u8) := [1] @ [2, 2]]\<rparr>)"
proof (rule unlocked_groups_race [OF sample_inv sample_holds])
  show "free_group (sv_groups sample_server) (sv_group_cnt sample_server) = Inr 1"
    by (rule free_group_least) (simp_all add: GROUP_NUM_MAX_def)
qed (simp_all add: group_at_Inr GROUP_NUM_MAX_def)

end
