(* ===== verification/Data_Races.thy ===== *)
theory Data_Races
  imports Server_Sessions Interleaving
begin

text \<open>
  The data of a client is allocated by \<open>main\<close>, found by other threads through the table of active
  users, and freed by the client's own thread when the connection ends (\<open>src/chat-server.c\<close>). The table
  has a mutex, but it protects each call on the table only: between finding the data of a user and
  using it, a thread can be interrupted. This theory splits forwarding, inviting and the end of a
  connection into the steps that are atomic, and shows which schedules read freed memory.
\<close>

section \<open>The threads\<close>

text \<open>
  \<open>Forward\<close>: \<open>forward_to_group\<close> with the members that are left (the group itself does not change
  here, and there is memory for the copies); \<open>Forward_Use\<close>: it has the pointer from the table. \<open>Invite\<close>: the part of INVITE from the search
  for the user with the key on. \<open>Close\<close>, \<open>Remove\<close> and \<open>Release\<close>: the three calls at the end of the
  thread of the client \<open>p\<close>.
\<close>

datatype data_thread =
    Forward mainhdr "u16 list" | Forward_Use mainhdr "nat option" "u16 list"
  | Invite mainhdr u64 | Invite_Use mainhdr "nat option"
  | Close nat | Remove nat | Release nat
  | Done

text \<open>The step that searches for a member, and the one that sends to the member found.\<close>

definition forward_find :: "mainhdr \<Rightarrow> u16 \<Rightarrow> u16 list \<Rightarrow> server \<Rightarrow> (data_thread \<times> server) outcome" where
  [simp]: "forward_find h u us sv =
     and_then (hashmap_get (sv_active sv) (ucast u)) (\<lambda>(status, data).
     Inr (if status \<noteq> MAP_OK then Forward h us else Forward_Use h data us, sv))"

definition forward_use :: "mainhdr \<Rightarrow> nat option \<Rightarrow> u16 list \<Rightarrow> server \<Rightarrow> (data_thread \<times> server) outcome" where
  [simp]: "forward_use h data us sv =
     and_then (deref data) (\<lambda>p. and_then (load_client sv p) (\<lambda>c.
     and_then (send_on (h\<lparr>hdr_payload := take (unat (hdr_len h)) (hdr_payload h)\<rparr>) (cl_connfd c) sv)
       (\<lambda>(_, sv). Inr (Forward h us, sv))))"

text \<open>The same two steps of INVITE, whose packet is \<open>h\<close>.\<close>

definition invite_find :: "mainhdr \<Rightarrow> u64 \<Rightarrow> server \<Rightarrow> (data_thread \<times> server) outcome" where
  [simp]: "invite_find h k sv =
     and_then (hashmap_get (sv_active sv) k) (\<lambda>(status, data).
     Inr (if status \<noteq> MAP_OK then Done else Invite_Use h data, sv))"

definition invite_use :: "mainhdr \<Rightarrow> nat option \<Rightarrow> server \<Rightarrow> (data_thread \<times> server) outcome" where
  [simp]: "invite_use h data sv = and_then (deref data) (\<lambda>p. and_then (reply p h sv) (\<lambda>sv. Inr (Done, sv)))"

text \<open>The three steps at the end of a connection.\<close>

definition close_client :: "nat \<Rightarrow> server \<Rightarrow> (data_thread \<times> server) outcome" where
  [simp]: "close_client p sv =
     and_then (load_client sv p) (\<lambda>data.
     Inr (Remove p, sv\<lparr>sv_socks := (sv_socks sv)(cl_connfd data := None)\<rparr>))"

definition remove_client :: "nat \<Rightarrow> server \<Rightarrow> (data_thread \<times> server) outcome" where
  [simp]: "remove_client p sv =
     and_then (load_client sv p) (\<lambda>data.
     and_then (if uint (cl_uid data) > 0
               then and_then (hashmap_remove (sv_active sv) (ucast (cl_uid data)))
                      (\<lambda>(_, active). Inr (sv\<lparr>sv_active := active\<rparr>))
               else Inr sv)
       (\<lambda>sv. Inr (Release p, sv)))"

definition release_client :: "nat \<Rightarrow> server \<Rightarrow> (data_thread \<times> server) outcome" where
  [simp]: "release_client p sv =
     and_then (load_client sv p) (\<lambda>_. Inr (Done, sv\<lparr>sv_data := (sv_data sv)(p := None)\<rparr>))"

fun data_step :: "data_thread \<Rightarrow> server \<Rightarrow> (data_thread \<times> server) outcome" where
  "data_step (Forward h []) sv = Inr (Done, sv)"
| "data_step (Forward h (u # us)) sv = forward_find h u us sv"
| "data_step (Forward_Use h data us) sv = forward_use h data us sv"
| "data_step (Invite h k) sv = invite_find h k sv"
| "data_step (Invite_Use h data) sv = invite_use h data sv"
| "data_step (Close p) sv = close_client p sv"
| "data_step (Remove p) sv = remove_client p sv"
| "data_step (Release p) sv = release_client p sv"
| "data_step Done sv = Inr (Done, sv)"

section \<open>A thread that is not interrupted\<close>

lemmas data_gets_step = gets_step [of data_step]

lemma forward_gets: "forward_loop ok h us sv = Inr sv' \<Longrightarrow> gets data_step (Forward h us) sv Done sv'"
proof (induction us arbitrary: sv)
  case Nil
  then show ?case by (auto intro: data_gets_step)
next
  case (Cons u us)
  obtain status data where g: "hashmap_get (sv_active sv) (ucast u) = Inr (status, data)"
    using Cons.prems by (auto elim!: and_then_InrE)
  show ?case
  proof (cases "status = MAP_OK")
    case False
    then have "forward_loop ok h us sv = Inr sv'" using Cons.prems g by simp
    moreover have "data_step (Forward h (u # us)) sv = Inr (Forward h us, sv)" using g False by simp
    ultimately show ?thesis using Cons.IH data_gets_step by blast
  next
    case True
    then obtain p c r sv1 where u: "data = Some p" "sv_data sv p = Some c"
        "send_on (h\<lparr>hdr_payload := take (unat (hdr_len h)) (hdr_payload h)\<rparr>) (cl_connfd c) sv = Inr (r, sv1)"
        "forward_loop ok h us sv1 = Inr sv'"
      using Cons.prems g True by (auto elim!: and_then_InrE split: if_splits)
    have "data_step (Forward h (u # us)) sv = Inr (Forward_Use h data us, sv)" using g True by simp
    moreover have "data_step (Forward_Use h data us) sv = Inr (Forward h us, sv1)"
      using u by (simp add: load_client_def)
    ultimately show ?thesis using Cons.IH [OF u(4)] data_gets_step by blast
  qed
qed

lemma exit_gets:
  assumes "exit_thread p sv = Inr sv'"
  shows "gets data_step (Close p) sv Done sv'"
proof -
  obtain c active where c: "sv_data sv p = Some c"
    and r: "(if uint (cl_uid c) > 0 then hashmap_remove (sv_active sv) (ucast (cl_uid c)) else Inr (0, sv_active sv)) =
      Inr active"
    and sv': "sv' = sv\<lparr>sv_socks := (sv_socks sv)(cl_connfd c := None), sv_active := snd active,
      sv_data := (sv_data sv)(p := None)\<rparr>"
    using assms by (fastforce simp: exit_thread_def Let_def elim!: and_then_InrE split: if_splits)
  let ?a = "sv\<lparr>sv_socks := (sv_socks sv)(cl_connfd c := None)\<rparr>"
  have "data_step (Close p) sv = Inr (Remove p, ?a)" using c by (simp add: load_client_def)
  moreover have "data_step (Remove p) ?a = Inr (Release p, ?a\<lparr>sv_active := snd active\<rparr>)"
    using c r by (auto simp: load_client_def split: if_splits prod.split)
  moreover have "data_step (Release p) (?a\<lparr>sv_active := snd active\<rparr>) = Inr (Done, sv')"
    using c by (simp add: load_client_def sv')
  ultimately show ?thesis using data_gets_step gets_refl by metis
qed

section \<open>Schedules that release no data in use\<close>

text \<open>The data that a thread is about to use, and the data whose client's thread is ending.\<close>

fun uses :: "data_thread \<Rightarrow> nat option option" where
  "uses (Forward_Use h data us) = Some data"
| "uses (Invite_Use h data) = Some data"
| "uses t = None"

fun ends :: "data_thread \<Rightarrow> nat option" where
  "ends (Close p) = Some p" | "ends (Remove p) = Some p" | "ends (Release p) = Some p"
| "ends t = None"

text \<open>The table leads from each user to the data of a client that is logged in as this user.\<close>

definition table_ok :: "server \<Rightarrow> bool" where
  "table_ok sv \<longleftrightarrow> hm_inv (sv_active sv) \<and> (\<forall>k. hm_copies (sv_active sv) k \<le> 1) \<and>
     (\<forall>k d. hm_lookup (sv_active sv) k = Some d \<longrightarrow>
       (\<exists>q c. d = Some q \<and> sv_data sv q = Some c \<and> cl_uid c \<noteq> 0 \<and> k = ucast (cl_uid c)))"

definition thread_ok :: "server \<Rightarrow> data_thread \<Rightarrow> bool" where
  "thread_ok sv t \<longleftrightarrow> (\<forall>d. uses t = Some d \<longrightarrow> (\<exists>q. d = Some q \<and> sv_data sv q \<noteq> None)) \<and>
     (\<forall>p. ends t = Some p \<longrightarrow> sv_data sv p \<noteq> None) \<and>
     (\<forall>p. t = Release p \<longrightarrow> (\<forall>k. hm_lookup (sv_active sv) k \<noteq> Some (Some p)))"

text \<open>Each client has one thread.\<close>

definition apart :: "data_thread list \<Rightarrow> bool" where
  "apart ts \<longleftrightarrow> (\<forall>i < length ts. \<forall>j < length ts. i \<noteq> j \<longrightarrow> ends (ts ! i) = ends (ts ! j) \<longrightarrow> ends (ts ! i) = None)"

text \<open>No data is released while another thread is about to use it.\<close>

fun guarded :: "nat list \<Rightarrow> data_thread list \<Rightarrow> server \<Rightarrow> bool" where
  "guarded [] ts sv \<longleftrightarrow> True"
| "guarded (i # is) ts sv \<longleftrightarrow> i < length ts \<and>
     (case ts ! i of Release p \<Rightarrow> \<forall>t \<in> set ts. uses t \<noteq> Some (Some p) | _ \<Rightarrow> True) \<and>
     (case data_step (ts ! i) sv of Inl _ \<Rightarrow> True | Inr (t, sv') \<Rightarrow> guarded is (ts[i := t]) sv')"

lemma step_ends: "data_step t sv = Inr (t', sv') \<Longrightarrow> ends t' = ends t \<or> ends t' = None"
  by (induction t sv rule: data_step.induct) (auto elim!: and_then_InrE split: if_splits)

lemma apart_step:
  assumes "apart ts" and "data_step (ts ! i) sv = Inr (t, sv')"
  shows "apart (ts[i := t])"
  using assms(1) step_ends [OF assms(2)] unfolding apart_def
  by (simp add: nth_upd) metis

lemma thread_ok_mono:
  assumes "thread_ok sv t" and "sv_data sv' = sv_data sv"
    and "\<And>k d. hm_lookup (sv_active sv') k = Some d \<Longrightarrow> hm_lookup (sv_active sv) k = Some d"
  shows "thread_ok sv' t"
  using assms unfolding thread_ok_def by metis

text \<open>Steps other than the release of data only take entries out of the table.\<close>

lemma table_shrinks:
  assumes "table_ok sv" and "data_step t sv = Inr (t', sv')" and "\<forall>p. t \<noteq> Release p"
  shows "sv_data sv' = sv_data sv \<and> table_ok sv' \<and>
    (\<forall>k d. hm_lookup (sv_active sv') k = Some d \<longrightarrow> hm_lookup (sv_active sv) k = Some d)"
proof (cases "\<exists>p. t = Remove p")
  case False
  with assms(2,3) have "sv_data sv' = sv_data sv" "sv_active sv' = sv_active sv"
    by (induction t sv rule: data_step.induct)
      (auto elim!: and_then_InrE split: if_splits simp: quiet_def dest!: send_on_quiet reply_quiet)
  with assms(1) show ?thesis by (simp add: table_ok_def)
next
  case True
  then obtain p where t: "t = Remove p" by blast
  then obtain c where c: "sv_data sv p = Some c"
    using assms(2) by (auto elim!: and_then_InrE)
  show ?thesis
  proof (cases "uint (cl_uid c) > 0")
    case False
    then have "sv' = sv" using assms(2) c t by (simp add: load_client_def)
    with assms(1) show ?thesis by simp
  next
    case True
    then obtain r active where rm: "hashmap_remove (sv_active sv) (ucast (cl_uid c)) = Inr (r, active)"
        "sv' = sv\<lparr>sv_active := active\<rparr>"
      using assms(2) c t by (auto simp: load_client_def elim!: and_then_InrE)
    have inv: "hm_inv (sv_active sv)" using assms(1) by (simp add: table_ok_def)
    have a: "hm_inv active" "\<And>k. k \<noteq> ucast (cl_uid c) \<Longrightarrow> hm_lookup active k = hm_lookup (sv_active sv) k"
        "hm_lookup active (ucast (cl_uid c)) = None"
      using hashmap_remove_correct [OF inv, of "ucast (cl_uid c)"] rm(1) assms(1) by (auto simp: table_ok_def)
    then have sub: "hm_lookup active k = Some d \<Longrightarrow> hm_lookup (sv_active sv) k = Some d" for k d
      by (cases "k = ucast (cl_uid c)") auto
    have "hm_copies active k \<le> 1" for k
      using hm_copies_remove [OF inv rm(1), of k] assms(1) by (auto simp: table_ok_def intro: le_trans)
    then show ?thesis using assms(1) a(1) sub rm(2) by (auto simp: table_ok_def)
  qed
qed

lemma stepped_thread_ok:
  assumes "table_ok sv" and "thread_ok sv t" and "data_step t sv = Inr (t', sv')" and "\<forall>p. t \<noteq> Release p"
  shows "thread_ok sv' t'"
proof -
  note shrink = table_shrinks [OF assms(1,3,4)]
  have inv: "hm_inv (sv_active sv)" using assms(1) by (simp add: table_ok_def)
  have found: "\<exists>q. d = Some q \<and> sv_data sv q \<noteq> None" if "hashmap_get (sv_active sv) k = Inr (0, d)" for k d
    using that assms(1) hashmap_get_lookup [OF inv, of k] by (fastforce simp: table_ok_def split: option.splits)
  have fin: "thread_ok sv'' Done" "thread_ok sv'' (Forward h us)" for sv'' h us by (simp_all add: thread_ok_def)
  show ?thesis
  proof (cases "(t, sv)" rule: data_step.cases)
    case (7 p sv0)
    then obtain c where c: "sv_data sv p = Some c" "t' = Release p"
      using assms(3) by (auto elim!: and_then_InrE split: if_splits)
    have "hm_lookup (sv_active sv') k \<noteq> Some (Some p)" for k
    proof
      assume k: "hm_lookup (sv_active sv') k = Some (Some p)"
      then have "hm_lookup (sv_active sv) k = Some (Some p)" using shrink by blast
      then have uid: "cl_uid c \<noteq> 0" "k = ucast (cl_uid c)" using assms(1) c(1) by (fastforce simp: table_ok_def)+
      then have "0 < uint (cl_uid c)" using uint_nonnegative [of "cl_uid c"] by (simp add: less_le uint_0_iff)
      then have "hm_lookup (sv_active sv') k = None"
        using hashmap_remove_correct [OF inv, of k] assms(1,3) c(1) uid(2) 7
        by (auto simp: load_client_def table_ok_def elim!: and_then_InrE)
      with k show False by simp
    qed
    then show ?thesis using c shrink by (simp add: thread_ok_def)
  qed (use assms(2-4) fin shrink found in
    \<open>auto simp: thread_ok_def elim!: and_then_InrE split: if_splits\<close>)
qed

lemma release_ok:
  assumes "table_ok sv" and "thread_ok sv (Release p)" and "data_step (Release p) sv = Inr (t', sv')"
  shows "t' = Done \<and> table_ok sv' \<and>
    (\<forall>t. thread_ok sv t \<and> ends t \<noteq> Some p \<and> uses t \<noteq> Some (Some p) \<longrightarrow> thread_ok sv' t)"
proof -
  have sv': "t' = Done" "sv' = sv\<lparr>sv_data := (sv_data sv)(p := None)\<rparr>"
    using assms(3) by (auto elim!: and_then_InrE)
  have "hm_lookup (sv_active sv) k \<noteq> Some (Some p)" for k using assms(2) by (simp add: thread_ok_def)
  then have "table_ok sv'" using assms(1) unfolding table_ok_def sv'(2) by fastforce
  moreover have "thread_ok sv' t" if "thread_ok sv t" "ends t \<noteq> Some p" "uses t \<noteq> Some (Some p)" for t
  proof -
    have "\<exists>q. d = Some q \<and> sv_data sv' q \<noteq> None" if d: "uses t = Some d" for d
    proof -
      obtain q where "d = Some q" "sv_data sv q \<noteq> None"
        using \<open>thread_ok sv t\<close> d by (auto simp: thread_ok_def)
      moreover from this have "q \<noteq> p" using \<open>uses t \<noteq> Some (Some p)\<close> d by auto
      ultimately show ?thesis by (simp add: sv'(2))
    qed
    with that show ?thesis by (auto simp: thread_ok_def sv'(2))
  qed
  ultimately show ?thesis using sv'(1) by blast
qed

lemma send_loop_fault: "send_loop s buff a n = Inl e \<Longrightarrow> e = Out_Of_Bounds"
proof (induction s buff a n rule: send_loop.induct)
  case (1 s buff a n)
  then show ?case
    by (subst (asm) (2) send_loop.simps)
      (auto simp: and_then_eq_Inl blit_def split: if_splits prod.splits)
qed

lemma send_on_fault: "send_on h fd sv = Inl e \<Longrightarrow> e = Out_Of_Bounds"
  by (auto simp: send_on_def send_main_header_def send_wrapper_def and_then_eq_Inl
      dest: send_loop_fault split: option.splits if_splits prod.splits)

lemma step_no_release_fault:
  assumes "table_ok sv" and "thread_ok sv t"
  shows "data_step t sv \<noteq> Inl Use_After_Free"
proof
  assume fault: "data_step t sv = Inl Use_After_Free"
  have inv: "hm_inv (sv_active sv)" using assms(1) by (simp add: table_ok_def)
  have "\<exists>x. hashmap_get (sv_active sv) k = Inr x" "\<exists>x. hashmap_remove (sv_active sv) k = Inr x" for k
    using hashmap_get_lookup [OF inv, of k] hashmap_remove_correct [OF inv, of k] by (auto split: option.split)
  then have never: "hashmap_get (sv_active sv) k \<noteq> Inl e" "hashmap_remove (sv_active sv) k \<noteq> Inl e" for k e
    by (metis sum.distinct(1))+
  have sent: "send_on g fd sv \<noteq> Inl Use_After_Free" for g fd using send_on_fault by fastforce
  show False
  proof (cases "(t, sv)" rule: data_step.cases)
    case (2 h u us sv0)
    then show ?thesis using fault never by (auto simp: and_then_eq_Inl)
  next
    case (4 h k sv0)
    then show ?thesis using fault never by (auto simp: and_then_eq_Inl)
  qed (use assms(2) fault never sent in
    \<open>auto simp: thread_ok_def and_then_eq_Inl deref_def reply_def load_client_def split: if_splits\<close>)
qed

lemma guarded_run:
  assumes "table_ok sv" and "\<forall>t \<in> set ts. thread_ok sv t" and "apart ts" and "guarded is ts sv"
  shows "run_schedule data_step is ts sv \<noteq> Inl Use_After_Free"
  using assms
proof (induction "is" arbitrary: ts sv)
  case Nil
  then show ?case by simp
next
  case (Cons i "is")
  have i: "i < length ts" "thread_ok sv (ts ! i)" using Cons.prems by auto
  show ?case
  proof (cases "data_step (ts ! i) sv")
    case (Inl e)
    then show ?thesis using step_no_release_fault [OF Cons.prems(1) i(2)] by simp
  next
    case (Inr r)
    then obtain t sv' where t: "data_step (ts ! i) sv = Inr (t, sv')" by (cases r) simp
    have g: "guarded is (ts[i := t]) sv'" using Cons.prems(4) t by simp
    have "table_ok sv' \<and> (\<forall>t \<in> set (ts[i := t]). thread_ok sv' t)"
    proof (cases "\<exists>p. ts ! i = Release p")
      case False
      then have "\<forall>p. ts ! i \<noteq> Release p" by simp
      note shrink = table_shrinks [OF Cons.prems(1) t this] stepped_thread_ok [OF Cons.prems(1) i(2) t this]
      have "thread_ok sv' x" if "x \<in> set ts" for x
        using thread_ok_mono [of sv x sv'] Cons.prems(2) that shrink by blast
      then show ?thesis using shrink set_update_subset_insert [of ts i t] by blast
    next
      case True
      then obtain p where p: "ts ! i = Release p" by blast
      note r = release_ok [OF Cons.prems(1) i(2) [unfolded p] t [unfolded p]]
      have "thread_ok sv' (ts[i := t] ! j)" if "j < length ts" for j
      proof (cases "j = i")
        case True
        then show ?thesis using r i(1) by (simp add: thread_ok_def)
      next
        case False
        then have "ends (ts ! j) \<noteq> Some p"
          using Cons.prems(3) that i(1) p unfolding apart_def by (metis ends.simps(3) option.distinct(1))
        moreover have "uses (ts ! j) \<noteq> Some (Some p)" using Cons.prems(4) p that by auto
        ultimately show ?thesis using r Cons.prems(2) that False by (metis nth_list_update_neq nth_mem)
      qed
      then show ?thesis using r by (auto simp: in_set_conv_nth)
    qed
    with Cons.IH [of sv' "ts[i := t]"] apart_step [OF Cons.prems(3) t] g show ?thesis by (simp add: t)
  qed
qed

section \<open>Properties\<close>

text \<open>The sample server, with its client marked as user 1.\<close>

definition logged_client :: client_thread_data where
  "logged_client = \<lparr>cl_connfd = 4, cl_message_queue = zero_queue, cl_uid = 1,
     cl_username = name_buf ''ann'', cl_file_id = 0\<rparr>"

definition logged_server :: server where
  "logged_server = (online_server [])\<lparr>sv_data := [7 \<mapsto> logged_client]\<rparr>"

lemma logged_server_facts:
  "sv_inv logged_server" "table_ok logged_server" "sv_data logged_server = [7 \<mapsto> logged_client]"
  "cl_uid logged_client = 1" "hm_lookup (sv_active logged_server) (ucast (1 :: u16)) = Some (Some 7)"
  "sv_active logged_server = online_map"
proof -
  show "sv_inv logged_server"
    using online_server_inv [of "[]"]
    by (simp add: sv_inv_def clients_ok_def logged_server_def logged_client_def name_buf_def
        MAX_CHAR_USERID_def online_server_def)
  show "table_ok logged_server"
    using online_map_facts online_map_copies
    by (auto simp: table_ok_def logged_server_def logged_client_def split: if_splits)
qed (use online_map_facts(2) in \<open>simp_all add: logged_server_def logged_client_def\<close>)

text \<open>C18: The data of a client is used after it was freed only if it is freed between the search in the
  table and the use. Any number of threads that forward, invite and end connections (one for each
  client), under any schedule in which no thread frees data that another one has just found, never
  read freed memory; the table is one in which every entry leads to a client that is logged in as
  this user.\<close>

theorem released_only_unused:
  assumes "table_ok sv" and "\<forall>t \<in> set ts. thread_ok sv t" and "apart ts" and "guarded schedule ts sv"
  shows "run_schedule data_step schedule ts sv \<noteq> Inl Use_After_Free"
  by (rule guarded_run [OF assms])

theorem released_only_unused_witness:
  "run_schedule data_step [0, 0, 1, 1, 1] [Forward sample_header [1], Close 7] logged_server \<noteq> Inl Use_After_Free"
proof (rule released_only_unused [OF logged_server_facts(2)])
  show "\<forall>t \<in> set [Forward sample_header [1], Close 7]. thread_ok logged_server t"
    by (simp add: thread_ok_def logged_server_facts)
  show "apart [Forward sample_header [1], Close 7]"
    by (auto simp: apart_def less_Suc_eq)
  have get: "hashmap_get (sv_active logged_server) (ucast (1 :: u16)) = Inr (0, Some 7)"
    using hashmap_get_lookup [OF online_map_facts(1), of "ucast (1 :: u16)"] logged_server_facts by simp
  have "sendable sample_header" by (simp add: sendable_def sample_header_def)
  from send_on_ok [OF sendable_cut(1) [OF this], of logged_server 4 "connection []"] obtain sv1 where
    "send_on (sample_header\<lparr>hdr_payload := take (unat (hdr_len sample_header)) (hdr_payload sample_header)\<rparr>) 4
      logged_server = Inr (0, sv1)"
    by (simp add: logged_server_def connection_def)
  with get show "guarded [0, 0, 1, 1, 1] [Forward sample_header [1], Close 7] logged_server"
    by (auto simp: load_client_def logged_server_facts(3) logged_client_def split: sum.split data_thread.split
        elim!: and_then_InrE)
qed

text \<open>C19: The code takes no care of that. A message to a group, or an invitation, for a user whose
  connection ends in the moment between the search and the use makes the server read the freed data;
  if the connection ends before the search, the user is passed over as one who is not online.\<close>

theorem released_in_use:
  assumes "sv_inv sv" and "sv_data sv p = Some c" and "cl_uid c \<noteq> 0"
    and "hm_lookup (sv_active sv) (ucast (cl_uid c)) = Some (Some p)"
    and "hm_copies (sv_active sv) (ucast (cl_uid c)) \<le> 1"
  shows "run_schedule data_step [0, 1, 1, 1, 0] [Forward h (cl_uid c # us), Close p] sv = Inl Use_After_Free \<and>
    run_schedule data_step [0, 1, 1, 1, 0] [Invite h (ucast (cl_uid c)), Close p] sv = Inl Use_After_Free \<and>
    (\<exists>sv'. run_schedule data_step [1, 1, 1, 0] [Forward h (cl_uid c # us), Close p] sv =
        Inr ([Forward h us, Done], sv') \<and>
      sv_socks sv' = (sv_socks sv)(cl_connfd c := None) \<and> sv_data sv' = (sv_data sv)(p := None))"
proof -
  have inv: "hm_inv (sv_active sv)" using assms(1) by (simp add: sv_inv_def)
  have "0 < uint (cl_uid c)" using assms(3) uint_nonnegative [of "cl_uid c"] by (simp add: less_le uint_0_iff)
  moreover obtain active where "hashmap_remove (sv_active sv) (ucast (cl_uid c)) = Inr (MAP_OK, active)"
      "hm_inv active" "hm_lookup active (ucast (cl_uid c)) = None"
    using hashmap_remove_correct [OF inv, of "ucast (cl_uid c)"] assms(4,5) by auto
  ultimately show ?thesis
    using assms(2,4) hashmap_get_lookup [OF inv, of "ucast (cl_uid c)"]
    by (simp add: load_client_def reply_def hashmap_get_lookup)
qed

theorem released_in_use_witness:
  "run_schedule data_step [0, 1, 1, 1, 0] [Forward sample_header (cl_uid logged_client # []), Close 7] logged_server =
      Inl Use_After_Free \<and>
    run_schedule data_step [0, 1, 1, 1, 0] [Invite sample_header (ucast (cl_uid logged_client)), Close 7]
      logged_server = Inl Use_After_Free \<and>
    (\<exists>sv'. run_schedule data_step [1, 1, 1, 0] [Forward sample_header (cl_uid logged_client # []), Close 7]
        logged_server = Inr ([Forward sample_header [], Done], sv') \<and>
      sv_socks sv' = (sv_socks logged_server)(cl_connfd logged_client := None) \<and>
      sv_data sv' = (sv_data logged_server)(7 := None))"
  by (rule released_in_use [OF logged_server_facts(1)])
    (use logged_server_facts online_map_copies [of 1] in simp_all)

end
