(* ===== verification/Keysyms.thy ===== *)
theory Keysyms
  imports Prelude
begin

text \<open>
  The key symbol library of \<open>src/keysyms.c\<close> that the chat window uses: the keyboard mapping that is
  fetched once from the X server, the symbol of a key in a column, the conversion between lower and
  upper case, and the classes of symbols. The X server is a parameter: \<open>xcb_connection\<close> holds what it
  answers.
\<close>

section \<open>Symbols\<close>

text \<open>The numbers of the symbols are those of \<open>X11/keysymdef.h\<close>.\<close>

abbreviation NoSymbol :: u32 where "NoSymbol \<equiv> 0"

abbreviation XK_KP_Space :: u32 where "XK_KP_Space \<equiv> 0xff80"
abbreviation XK_KP_Equal :: u32 where "XK_KP_Equal \<equiv> 0xffbd"
abbreviation XK_Home :: u32 where "XK_Home \<equiv> 0xff50"
abbreviation XK_Select :: u32 where "XK_Select \<equiv> 0xff60"
abbreviation XK_KP_F1 :: u32 where "XK_KP_F1 \<equiv> 0xff91"
abbreviation XK_KP_F4 :: u32 where "XK_KP_F4 \<equiv> 0xff94"
abbreviation XK_F1 :: u32 where "XK_F1 \<equiv> 0xffbe"
abbreviation XK_F35 :: u32 where "XK_F35 \<equiv> 0xffe0"
abbreviation XK_Break :: u32 where "XK_Break \<equiv> 0xff6b"
abbreviation XK_Shift_L :: u32 where "XK_Shift_L \<equiv> 0xffe1"
abbreviation XK_Hyper_R :: u32 where "XK_Hyper_R \<equiv> 0xffee"
abbreviation XK_ISO_Lock :: u32 where "XK_ISO_Lock \<equiv> 0xfe01"
abbreviation XK_ISO_Level5_Lock :: u32 where "XK_ISO_Level5_Lock \<equiv> 0xfe13"
abbreviation XK_Mode_switch :: u32 where "XK_Mode_switch \<equiv> 0xff7e"
abbreviation XK_Num_Lock :: u32 where "XK_Num_Lock \<equiv> 0xff7f"

abbreviation XK_A :: u32 where "XK_A \<equiv> 0x41"
abbreviation XK_Z :: u32 where "XK_Z \<equiv> 0x5a"
abbreviation XK_a :: u32 where "XK_a \<equiv> 0x61"
abbreviation XK_z :: u32 where "XK_z \<equiv> 0x7a"
abbreviation XK_Agrave :: u32 where "XK_Agrave \<equiv> 0xc0"
abbreviation XK_Odiaeresis :: u32 where "XK_Odiaeresis \<equiv> 0xd6"
abbreviation XK_agrave :: u32 where "XK_agrave \<equiv> 0xe0"
abbreviation XK_odiaeresis :: u32 where "XK_odiaeresis \<equiv> 0xf6"
abbreviation XK_Ooblique :: u32 where "XK_Ooblique \<equiv> 0xd8"
abbreviation XK_Thorn :: u32 where "XK_Thorn \<equiv> 0xde"
abbreviation XK_oslash :: u32 where "XK_oslash \<equiv> 0xf8"
abbreviation XK_thorn :: u32 where "XK_thorn \<equiv> 0xfe"

abbreviation XK_Aogonek :: u32 where "XK_Aogonek \<equiv> 0x1a1"
abbreviation XK_aogonek :: u32 where "XK_aogonek \<equiv> 0x1b1"
abbreviation XK_Lstroke :: u32 where "XK_Lstroke \<equiv> 0x1a3"
abbreviation XK_Sacute :: u32 where "XK_Sacute \<equiv> 0x1a6"
abbreviation XK_lstroke :: u32 where "XK_lstroke \<equiv> 0x1b3"
abbreviation XK_sacute :: u32 where "XK_sacute \<equiv> 0x1b6"
abbreviation XK_Scaron :: u32 where "XK_Scaron \<equiv> 0x1a9"
abbreviation XK_Zacute :: u32 where "XK_Zacute \<equiv> 0x1ac"
abbreviation XK_scaron :: u32 where "XK_scaron \<equiv> 0x1b9"
abbreviation XK_zacute :: u32 where "XK_zacute \<equiv> 0x1bc"
abbreviation XK_Zcaron :: u32 where "XK_Zcaron \<equiv> 0x1ae"
abbreviation XK_Zabovedot :: u32 where "XK_Zabovedot \<equiv> 0x1af"
abbreviation XK_zcaron :: u32 where "XK_zcaron \<equiv> 0x1be"
abbreviation XK_zabovedot :: u32 where "XK_zabovedot \<equiv> 0x1bf"
abbreviation XK_Racute :: u32 where "XK_Racute \<equiv> 0x1c0"
abbreviation XK_Tcedilla :: u32 where "XK_Tcedilla \<equiv> 0x1de"
abbreviation XK_racute :: u32 where "XK_racute \<equiv> 0x1e0"
abbreviation XK_tcedilla :: u32 where "XK_tcedilla \<equiv> 0x1fe"

abbreviation XK_Hstroke :: u32 where "XK_Hstroke \<equiv> 0x2a1"
abbreviation XK_Hcircumflex :: u32 where "XK_Hcircumflex \<equiv> 0x2a6"
abbreviation XK_Gbreve :: u32 where "XK_Gbreve \<equiv> 0x2ab"
abbreviation XK_Jcircumflex :: u32 where "XK_Jcircumflex \<equiv> 0x2ac"
abbreviation XK_hstroke :: u32 where "XK_hstroke \<equiv> 0x2b1"
abbreviation XK_hcircumflex :: u32 where "XK_hcircumflex \<equiv> 0x2b6"
abbreviation XK_gbreve :: u32 where "XK_gbreve \<equiv> 0x2bb"
abbreviation XK_jcircumflex :: u32 where "XK_jcircumflex \<equiv> 0x2bc"
abbreviation XK_Cabovedot :: u32 where "XK_Cabovedot \<equiv> 0x2c5"
abbreviation XK_Scircumflex :: u32 where "XK_Scircumflex \<equiv> 0x2de"
abbreviation XK_cabovedot :: u32 where "XK_cabovedot \<equiv> 0x2e5"
abbreviation XK_scircumflex :: u32 where "XK_scircumflex \<equiv> 0x2fe"

abbreviation XK_Rcedilla :: u32 where "XK_Rcedilla \<equiv> 0x3a3"
abbreviation XK_Tslash :: u32 where "XK_Tslash \<equiv> 0x3ac"
abbreviation XK_rcedilla :: u32 where "XK_rcedilla \<equiv> 0x3b3"
abbreviation XK_tslash :: u32 where "XK_tslash \<equiv> 0x3bc"
abbreviation XK_ENG :: u32 where "XK_ENG \<equiv> 0x3bd"
abbreviation XK_eng :: u32 where "XK_eng \<equiv> 0x3bf"
abbreviation XK_Amacron :: u32 where "XK_Amacron \<equiv> 0x3c0"
abbreviation XK_Umacron :: u32 where "XK_Umacron \<equiv> 0x3de"
abbreviation XK_amacron :: u32 where "XK_amacron \<equiv> 0x3e0"
abbreviation XK_umacron :: u32 where "XK_umacron \<equiv> 0x3fe"

abbreviation XK_Serbian_dje :: u32 where "XK_Serbian_dje \<equiv> 0x6a1"
abbreviation XK_Serbian_dze :: u32 where "XK_Serbian_dze \<equiv> 0x6af"
abbreviation XK_Serbian_DJE :: u32 where "XK_Serbian_DJE \<equiv> 0x6b1"
abbreviation XK_Serbian_DZE :: u32 where "XK_Serbian_DZE \<equiv> 0x6bf"
abbreviation XK_Cyrillic_yu :: u32 where "XK_Cyrillic_yu \<equiv> 0x6c0"
abbreviation XK_Cyrillic_hardsign :: u32 where "XK_Cyrillic_hardsign \<equiv> 0x6df"
abbreviation XK_Cyrillic_YU :: u32 where "XK_Cyrillic_YU \<equiv> 0x6e0"
abbreviation XK_Cyrillic_HARDSIGN :: u32 where "XK_Cyrillic_HARDSIGN \<equiv> 0x6ff"

abbreviation XK_Greek_ALPHAaccent :: u32 where "XK_Greek_ALPHAaccent \<equiv> 0x7a1"
abbreviation XK_Greek_OMEGAaccent :: u32 where "XK_Greek_OMEGAaccent \<equiv> 0x7ab"
abbreviation XK_Greek_alphaaccent :: u32 where "XK_Greek_alphaaccent \<equiv> 0x7b1"
abbreviation XK_Greek_omegaaccent :: u32 where "XK_Greek_omegaaccent \<equiv> 0x7bb"
abbreviation XK_Greek_iotaaccentdieresis :: u32 where "XK_Greek_iotaaccentdieresis \<equiv> 0x7b6"
abbreviation XK_Greek_upsilonaccentdieresis :: u32 where "XK_Greek_upsilonaccentdieresis \<equiv> 0x7ba"
abbreviation XK_Greek_ALPHA :: u32 where "XK_Greek_ALPHA \<equiv> 0x7c1"
abbreviation XK_Greek_OMEGA :: u32 where "XK_Greek_OMEGA \<equiv> 0x7d9"
abbreviation XK_Greek_alpha :: u32 where "XK_Greek_alpha \<equiv> 0x7e1"
abbreviation XK_Greek_omega :: u32 where "XK_Greek_omega \<equiv> 0x7f9"
abbreviation XK_Greek_finalsmallsigma :: u32 where "XK_Greek_finalsmallsigma \<equiv> 0x7f3"

abbreviation XK_Armenian_AYB :: u32 where "XK_Armenian_AYB \<equiv> 0x1000531"
abbreviation XK_Armenian_fe :: u32 where "XK_Armenian_fe \<equiv> 0x1000586"

section \<open>Upper and lower case\<close>

text \<open>The two out parameters: the lower and the upper case of a symbol.\<close>

definition xcb_convert_case :: "u32 \<Rightarrow> u32 \<times> u32" where
  "xcb_convert_case keysym =
     (let page = drop_bit 8 keysym in
      if page = 0 then
        (if keysym \<ge> XK_A \<and> keysym \<le> XK_Z then (keysym + (XK_a - XK_A), keysym)
         else if keysym \<ge> XK_a \<and> keysym \<le> XK_z then (keysym, keysym - (XK_a - XK_A))
         else if keysym \<ge> XK_Agrave \<and> keysym \<le> XK_Odiaeresis then
           (keysym + (XK_agrave - XK_Agrave), keysym)
         else if keysym \<ge> XK_agrave \<and> keysym \<le> XK_odiaeresis then
           (keysym, keysym - (XK_agrave - XK_Agrave))
         else if keysym \<ge> XK_Ooblique \<and> keysym \<le> XK_Thorn then
           (keysym + (XK_oslash - XK_Ooblique), keysym)
         else if keysym \<ge> XK_oslash \<and> keysym \<le> XK_thorn then
           (keysym, keysym - (XK_oslash - XK_Ooblique))
         else (keysym, keysym))
      else
      if page = 1 then
        (if keysym = XK_Aogonek then (XK_aogonek, keysym)
         else if keysym \<ge> XK_Lstroke \<and> keysym \<le> XK_Sacute then
           (keysym + (XK_lstroke - XK_Lstroke), keysym)
         else if keysym \<ge> XK_Scaron \<and> keysym \<le> XK_Zacute then
           (keysym + (XK_scaron - XK_Scaron), keysym)
         else if keysym \<ge> XK_Zcaron \<and> keysym \<le> XK_Zabovedot then
           (keysym + (XK_zcaron - XK_Zcaron), keysym)
         else if keysym = XK_aogonek then (keysym, XK_Aogonek)
         else if keysym \<ge> XK_lstroke \<and> keysym \<le> XK_sacute then
           (keysym, keysym - (XK_lstroke - XK_Lstroke))
         else if keysym \<ge> XK_scaron \<and> keysym \<le> XK_zacute then
           (keysym, keysym - (XK_scaron - XK_Scaron))
         else if keysym \<ge> XK_zcaron \<and> keysym \<le> XK_zabovedot then
           (keysym, keysym - (XK_zcaron - XK_Zcaron))
         else if keysym \<ge> XK_Racute \<and> keysym \<le> XK_Tcedilla then
           (keysym + (XK_racute - XK_Racute), keysym)
         else if keysym \<ge> XK_racute \<and> keysym \<le> XK_tcedilla then
           (keysym, keysym - (XK_racute - XK_Racute))
         else (keysym, keysym))
      else
      if page = 2 then
        (if keysym \<ge> XK_Hstroke \<and> keysym \<le> XK_Hcircumflex then
           (keysym + (XK_hstroke - XK_Hstroke), keysym)
         else if keysym \<ge> XK_Gbreve \<and> keysym \<le> XK_Jcircumflex then
           (keysym + (XK_gbreve - XK_Gbreve), keysym)
         else if keysym \<ge> XK_hstroke \<and> keysym \<le> XK_hcircumflex then
           (keysym, keysym - (XK_hstroke - XK_Hstroke))
         else if keysym \<ge> XK_gbreve \<and> keysym \<le> XK_jcircumflex then
           (keysym, keysym - (XK_gbreve - XK_Gbreve))
         else if keysym \<ge> XK_Cabovedot \<and> keysym \<le> XK_Scircumflex then
           (keysym + (XK_cabovedot - XK_Cabovedot), keysym)
         else if keysym \<ge> XK_cabovedot \<and> keysym \<le> XK_scircumflex then
           (keysym, keysym - (XK_cabovedot - XK_Cabovedot))
         else (keysym, keysym))
      else
      if page = 3 then
        (if keysym \<ge> XK_Rcedilla \<and> keysym \<le> XK_Tslash then
           (keysym + (XK_rcedilla - XK_Rcedilla), keysym)
         else if keysym \<ge> XK_rcedilla \<and> keysym \<le> XK_tslash then
           (keysym, keysym - (XK_rcedilla - XK_Rcedilla))
         else if keysym = XK_ENG then (XK_eng, keysym)
         else if keysym = XK_eng then (keysym, XK_ENG)
         else if keysym \<ge> XK_Amacron \<and> keysym \<le> XK_Umacron then
           (keysym + (XK_amacron - XK_Amacron), keysym)
         else if keysym \<ge> XK_amacron \<and> keysym \<le> XK_umacron then
           (keysym, keysym - (XK_amacron - XK_Amacron))
         else (keysym, keysym))
      else
      if page = 6 then
        (if keysym \<ge> XK_Serbian_DJE \<and> keysym \<le> XK_Serbian_DZE then
           (keysym - (XK_Serbian_DJE - XK_Serbian_dje), keysym)
         else if keysym \<ge> XK_Serbian_dje \<and> keysym \<le> XK_Serbian_dze then
           (keysym, keysym + (XK_Serbian_DJE - XK_Serbian_dje))
         else if keysym \<ge> XK_Cyrillic_YU \<and> keysym \<le> XK_Cyrillic_HARDSIGN then
           (keysym - (XK_Cyrillic_YU - XK_Cyrillic_yu), keysym)
         else if keysym \<ge> XK_Cyrillic_yu \<and> keysym \<le> XK_Cyrillic_hardsign then
           (keysym, keysym + (XK_Cyrillic_YU - XK_Cyrillic_yu))
         else (keysym, keysym))
      else
      if page = 7 then
        (if keysym \<ge> XK_Greek_ALPHAaccent \<and> keysym \<le> XK_Greek_OMEGAaccent then
           (keysym + (XK_Greek_alphaaccent - XK_Greek_ALPHAaccent), keysym)
         else if keysym \<ge> XK_Greek_alphaaccent \<and> keysym \<le> XK_Greek_omegaaccent \<and>
           keysym \<noteq> XK_Greek_iotaaccentdieresis \<and> keysym \<noteq> XK_Greek_upsilonaccentdieresis then
           (keysym, keysym - (XK_Greek_alphaaccent - XK_Greek_ALPHAaccent))
         else if keysym \<ge> XK_Greek_ALPHA \<and> keysym \<le> XK_Greek_OMEGA then
           (keysym + (XK_Greek_alpha - XK_Greek_ALPHA), keysym)
         else if keysym \<ge> XK_Greek_alpha \<and> keysym \<le> XK_Greek_omega \<and>
           keysym \<noteq> XK_Greek_finalsmallsigma then
           (keysym, keysym - (XK_Greek_alpha - XK_Greek_ALPHA))
         else (keysym, keysym))
      else
      if page = 0x14 then
        (if keysym \<ge> XK_Armenian_AYB \<and> keysym \<le> XK_Armenian_fe then
           (keysym OR 1, keysym AND NOT 1)
         else (keysym, keysym))
      else
      (keysym, keysym))"

section \<open>The keyboard mapping\<close>

record keyboard_mapping =
  km_per :: u8
  km_keysyms :: "u32 list"

text \<open>
  A connection: whether it has an error, the range of key codes of its set-up, and the answer to the
  request for the mapping (\<open>None\<close>: the request fails).
\<close>

record xcb_connection =
  xc_error :: bool
  xc_min :: u8
  xc_max :: u8
  xc_mapping :: "keyboard_mapping option"

datatype tag_t = TAG_COOKIE | TAG_VALUE

record key_symbols =
  ks_c :: xcb_connection
  ks_tag :: tag_t
  ks_reply :: "keyboard_mapping option"

definition xcb_key_symbols_alloc :: "bool \<Rightarrow> xcb_connection option \<Rightarrow> key_symbols option" where
  "xcb_key_symbols_alloc malloc_ok c =
     (case c of
        None \<Rightarrow> None
      | Some c \<Rightarrow>
          if xc_error c \<or> \<not> malloc_ok then None
          else Some \<lparr>ks_c = c, ks_tag = TAG_COOKIE, ks_reply = None\<rparr>)"

definition xcb_key_symbols_get_reply :: "key_symbols \<Rightarrow> key_symbols" where
  "xcb_key_symbols_get_reply syms =
     (if ks_tag syms = TAG_COOKIE
      then syms\<lparr>ks_tag := TAG_VALUE, ks_reply := xc_mapping (ks_c syms)\<rparr> else syms)"

text \<open>\<open>xcb_key_symbols_free\<close>: what it releases. A reply that was not fetched yet stays with the connection.\<close>

datatype ks_block = Reply_Block keyboard_mapping | Symbols_Block

definition xcb_key_symbols_free :: "key_symbols option \<Rightarrow> ks_block list" where
  "xcb_key_symbols_free syms =
     (case syms of
        None \<Rightarrow> []
      | Some syms \<Rightarrow>
          (if ks_tag syms = TAG_VALUE
           then (case ks_reply syms of None \<Rightarrow> [] | Some reply \<Rightarrow> [Reply_Block reply]) else []) @
          [Symbols_Block])"

lemma key_symbols_released:
  assumes "xcb_key_symbols_alloc malloc_ok c = Some syms"
  shows "xcb_key_symbols_free (Some syms) = [Symbols_Block]"
    and "xc_mapping (ks_c syms) = Some reply \<Longrightarrow>
      xcb_key_symbols_free (Some (xcb_key_symbols_get_reply syms)) = [Reply_Block reply, Symbols_Block]"
  using assms by (auto simp: xcb_key_symbols_alloc_def xcb_key_symbols_get_reply_def xcb_key_symbols_free_def
      split: option.splits if_splits)

section \<open>The symbol of a key\<close>

text \<open>\<open>keysyms[i]\<close>, relative to the row of the key.\<close>

definition keysym_at :: "u32 list \<Rightarrow> nat \<Rightarrow> int \<Rightarrow> u32 outcome" where
  "keysym_at keysyms off i =
     (let j = int off + i in
      if 0 \<le> j \<and> j < int (length keysyms) then Inr (keysyms ! nat j) else Inl Out_Of_Bounds)"

text \<open>\<open>while ((per > 2) && (keysyms[per - 1] == XCB_NO_SYMBOL)) per--\<close>\<close>

fun trim_per :: "u32 list \<Rightarrow> nat \<Rightarrow> nat \<Rightarrow> nat outcome" where
  "trim_per keysyms off per =
     (if per > 2 then
        and_then (keysym_at keysyms off (int per - 1)) (\<lambda>k.
        if k = NoSymbol then trim_per keysyms off (per - 1) else Inr per)
      else Inr per)"

declare trim_per.simps [simp del]

definition keysym_in_row :: "u32 list \<Rightarrow> nat \<Rightarrow> nat \<Rightarrow> int \<Rightarrow> u32 outcome" where
  "keysym_in_row keysyms off per col =
     (if col < 4 then
        and_then
          (if col > 1 then
             and_then (trim_per keysyms off per) (\<lambda>per.
             Inr (if per < 3 then (per, col - 2) else (per, col)))
           else Inr (per, col)) (\<lambda>(per, col).
        and_then
          (if int per \<le> col OR 1 then Inr True
           else and_then (keysym_at keysyms off (col OR 1)) (\<lambda>k. Inr (k = NoSymbol))) (\<lambda>single.
        if single then
          and_then (keysym_at keysyms off (col AND NOT 1)) (\<lambda>k.
          case xcb_convert_case k of (lsym, usym) \<Rightarrow>
            Inr (if col AND 1 = 0 then lsym else if usym = lsym then NoSymbol else usym))
        else keysym_at keysyms off col))
      else keysym_at keysyms off col)"

definition xcb_key_symbols_get_keysym ::
    "key_symbols option \<Rightarrow> u8 \<Rightarrow> int \<Rightarrow> (u32 \<times> key_symbols option) outcome" where
  "xcb_key_symbols_get_keysym syms keycode col =
     (case syms of
        None \<Rightarrow> Inr (NoSymbol, None)
      | Some syms \<Rightarrow>
          if xc_error (ks_c syms) then Inr (NoSymbol, Some syms)
          else
            (let syms = xcb_key_symbols_get_reply syms in
             case ks_reply syms of
               None \<Rightarrow> Inr (NoSymbol, Some syms)
             | Some reply \<Rightarrow>
                 (let keysyms = km_keysyms reply; per = unat (km_per reply);
                      min_keycode = xc_min (ks_c syms); max_keycode = xc_max (ks_c syms)
                  in if col < 0 \<or> (int per \<le> col \<and> col > 3) \<or> keycode < min_keycode \<or>
                        keycode > max_keycode
                     then Inr (NoSymbol, Some syms)
                     else
                       and_then
                         (keysym_in_row keysyms ((unat keycode - unat min_keycode) * per) per col)
                         (\<lambda>k. Inr (k, Some syms)))))"

text \<open>The key events are the same record; \<open>ev_detail\<close> is the code of the key, \<open>ev_state\<close> the modifiers.\<close>

record key_event =
  ev_detail :: u8
  ev_state :: u16

definition xcb_key_press_lookup_keysym ::
    "key_symbols option \<Rightarrow> key_event \<Rightarrow> int \<Rightarrow> (u32 \<times> key_symbols option) outcome" where
  "xcb_key_press_lookup_keysym syms event col = xcb_key_symbols_get_keysym syms (ev_detail event) col"

definition xcb_key_release_lookup_keysym ::
    "key_symbols option \<Rightarrow> key_event \<Rightarrow> int \<Rightarrow> (u32 \<times> key_symbols option) outcome" where
  "xcb_key_release_lookup_keysym syms event col = xcb_key_symbols_get_keysym syms (ev_detail event) col"

section \<open>The keys of a symbol\<close>

text \<open>The inner loop: does one of the columns hold the symbol?\<close>

fun keycode_has ::
    "key_symbols option \<Rightarrow> u8 \<Rightarrow> u32 \<Rightarrow> nat list \<Rightarrow> (bool \<times> key_symbols option) outcome" where
  "keycode_has syms i keysym [] = Inr (False, syms)"
| "keycode_has syms i keysym (j # js) =
     and_then (xcb_key_symbols_get_keysym syms i (int j)) (\<lambda>(ks, syms).
     if ks = keysym then Inr (True, syms) else keycode_has syms i keysym js)"

text \<open>
  The outer loop, \<open>for(i = min; i && i <= max; i++)\<close>. \<open>result\<close> is \<open>None\<close> for \<open>NULL\<close> or the codes so
  far without the terminator; \<open>realloc_ok\<close> says whether an array of so many codes can be had.
\<close>

definition codes_left :: "u8 \<Rightarrow> nat" where
  "codes_left i = (if i = 0 then 0 else 256 - unat i)"

lemma codes_left_decrease: "i \<noteq> 0 \<Longrightarrow> codes_left (i + 1) < codes_left i"
proof -
  assume "i \<noteq> 0"
  moreover have "unat (i + 1) = Suc (unat i) mod 256" by (simp add: unat_word_ariths)
  moreover have "unat i < 256" using unat_bound [of i] by simp
  moreover have "i + 1 \<noteq> 0 \<Longrightarrow> unat (i + 1) \<noteq> 0" by (simp add: unat_eq_zero)
  ultimately show ?thesis
    by (cases "unat i = 255") (auto simp: codes_left_def)
qed

function keycode_loop ::
    "(nat \<Rightarrow> bool) \<Rightarrow> key_symbols option \<Rightarrow> u8 \<Rightarrow> u8 \<Rightarrow> u32 \<Rightarrow> nat \<Rightarrow> u8 list option
      \<Rightarrow> (u8 list option \<times> key_symbols option) outcome" where
  "keycode_loop realloc_ok syms i max_keycode keysym per result =
     (if i = 0 \<or> i > max_keycode then Inr (map_option (\<lambda>codes. codes @ [0]) result, syms)
      else
        and_then (keycode_has syms i keysym [0..<per]) (\<lambda>(found, syms).
        if \<not> found then keycode_loop realloc_ok syms (i + 1) max_keycode keysym per result
        else
          (let codes = (case result of None \<Rightarrow> [] | Some codes \<Rightarrow> codes) @ [i] in
           if \<not> realloc_ok (length codes + 1) then Inr (None, syms)
           else keycode_loop realloc_ok syms (i + 1) max_keycode keysym per (Some codes))))"
  by pat_completeness auto
termination
  by (relation "measure (\<lambda>(r, s, i, m, k, p, x). codes_left i)")
    (simp_all add: codes_left_decrease)

declare keycode_loop.simps [simp del]

definition xcb_key_symbols_get_keycode ::
    "(nat \<Rightarrow> bool) \<Rightarrow> key_symbols option \<Rightarrow> u32 \<Rightarrow> (u8 list option \<times> key_symbols option) outcome" where
  "xcb_key_symbols_get_keycode realloc_ok syms keysym =
     (case syms of
        None \<Rightarrow> Inr (None, None)
      | Some syms \<Rightarrow>
          if xc_error (ks_c syms) then Inr (None, Some syms)
          else
            (let syms = xcb_key_symbols_get_reply syms in
             case ks_reply syms of
               None \<Rightarrow> Inr (None, Some syms)
             | Some reply \<Rightarrow>
                 keycode_loop realloc_ok (Some syms) (xc_min (ks_c syms)) (xc_max (ks_c syms)) keysym
                   (unat (km_per reply)) None))"

text \<open>\<open>mapping_changed\<close>: the event is a request \<open>XCB_MAPPING_KEYBOARD\<close>; \<open>c\<close> the connection from then on.\<close>

definition xcb_refresh_keyboard_mapping ::
    "key_symbols option \<Rightarrow> bool \<Rightarrow> int \<times> key_symbols option" where
  "xcb_refresh_keyboard_mapping syms mapping_changed =
     (case syms of
        None \<Rightarrow> (0, None)
      | Some syms \<Rightarrow>
          if mapping_changed \<and> \<not> xc_error (ks_c syms) then
            (1, Some (if ks_tag syms = TAG_VALUE
                      then syms\<lparr>ks_reply := None, ks_tag := TAG_COOKIE\<rparr> else syms))
          else (0, Some syms))"

section \<open>Classes of symbols\<close>

definition xcb_is_keypad_key :: "u32 \<Rightarrow> bool" where
  "xcb_is_keypad_key keysym \<longleftrightarrow> keysym \<ge> XK_KP_Space \<and> keysym \<le> XK_KP_Equal"

definition xcb_is_private_keypad_key :: "u32 \<Rightarrow> bool" where
  "xcb_is_private_keypad_key keysym \<longleftrightarrow> keysym \<ge> 0x11000000 \<and> keysym \<le> 0x1100FFFF"

definition xcb_is_cursor_key :: "u32 \<Rightarrow> bool" where
  "xcb_is_cursor_key keysym \<longleftrightarrow> keysym \<ge> XK_Home \<and> keysym \<le> XK_Select"

definition xcb_is_pf_key :: "u32 \<Rightarrow> bool" where
  "xcb_is_pf_key keysym \<longleftrightarrow> keysym \<ge> XK_KP_F1 \<and> keysym \<le> XK_KP_F4"

definition xcb_is_function_key :: "u32 \<Rightarrow> bool" where
  "xcb_is_function_key keysym \<longleftrightarrow> keysym \<ge> XK_F1 \<and> keysym \<le> XK_F35"

definition xcb_is_misc_function_key :: "u32 \<Rightarrow> bool" where
  "xcb_is_misc_function_key keysym \<longleftrightarrow> keysym \<ge> XK_Select \<and> keysym \<le> XK_Break"

definition xcb_is_modifier_key :: "u32 \<Rightarrow> bool" where
  "xcb_is_modifier_key keysym \<longleftrightarrow>
     (keysym \<ge> XK_Shift_L \<and> keysym \<le> XK_Hyper_R) \<or>
     (keysym \<ge> XK_ISO_Lock \<and> keysym \<le> XK_ISO_Level5_Lock) \<or>
     keysym = XK_Mode_switch \<or> keysym = XK_Num_Lock"

section \<open>The documented meaning of a column\<close>

text \<open>
  The comment of the source: the list of a key, without trailing \<open>NoSymbol\<close>, is completed to four
  symbols, the first two for group 1 and the last two for group 2; a group without a second symbol
  has the two cases of an alphabetic first symbol, or the first symbol twice.
\<close>

fun completed :: "u32 list \<Rightarrow> u32 list" where
  "completed [] = [NoSymbol, NoSymbol, NoSymbol, NoSymbol]"
| "completed [k] = [k, NoSymbol, k, NoSymbol]"
| "completed [k1, k2] = [k1, k2, k1, k2]"
| "completed [k1, k2, k3] = [k1, k2, k3, NoSymbol]"
| "completed (k1 # k2 # k3 # k4 # ks) = [k1, k2, k3, k4]"

definition documented_list :: "u32 list \<Rightarrow> u32 list" where
  "documented_list row = completed (rev (dropWhile (\<lambda>k. k = NoSymbol) (rev row)))"

definition cased :: "u32 \<Rightarrow> bool" where
  "cased k \<longleftrightarrow> fst (xcb_convert_case k) \<noteq> snd (xcb_convert_case k)"

definition documented_symbol :: "u32 list \<Rightarrow> nat \<Rightarrow> u32" where
  "documented_symbol row col =
     (let list = documented_list row; first = list ! (2 * (col div 2));
          second = list ! (2 * (col div 2) + 1)
      in if second = NoSymbol then
           (if cased first
            then (if even col then fst else snd) (xcb_convert_case first)
            else first)
         else if even col then first else second)"

section \<open>Lemmas\<close>

text \<open>A conversion whose two results agree is the symbol itself; by the leaves of the function.\<close>

definition unchanged_if_equal :: "u32 \<Rightarrow> u32 \<times> u32 \<Rightarrow> bool" where
  "unchanged_if_equal k r \<longleftrightarrow> (fst r = snd r \<longrightarrow> r = (k, k))"

lemma unchanged_if_equal_leaf:
  "unchanged_if_equal k (c, k)" "unchanged_if_equal k (k, c)"
  "unchanged_if_equal k (k OR 1, k AND NOT 1)"
proof -
  have "bit (k OR 1) 0" "\<not> bit (k AND NOT 1) 0" by (simp_all add: bit_simps)
  then have "k OR 1 \<noteq> k AND NOT 1" by metis
  then show "unchanged_if_equal k (k OR 1, k AND NOT 1)" by (simp add: unchanged_if_equal_def)
qed (simp_all add: unchanged_if_equal_def)

lemma unchanged_if_equal_if:
  "unchanged_if_equal k a \<Longrightarrow> unchanged_if_equal k b \<Longrightarrow> unchanged_if_equal k (if P then a else b)"
  by simp

lemma not_cased: "\<not> cased k \<Longrightarrow> xcb_convert_case k = (k, k)"
proof -
  have "unchanged_if_equal k (xcb_convert_case k)"
    unfolding xcb_convert_case_def Let_def
    by (intro unchanged_if_equal_if unchanged_if_equal_leaf)
  then show "\<not> cased k \<Longrightarrow> ?thesis" by (simp add: cased_def unchanged_if_equal_def)
qed

definition strip :: "u32 list \<Rightarrow> u32 list" where
  "strip row = rev (dropWhile (\<lambda>k. k = NoSymbol) (rev row))"

lemma strip_snoc: "strip (row @ [k]) = (if k = NoSymbol then strip row else row @ [k])"
  by (simp add: strip_def)

lemma strip_length: "length (strip row) \<le> length row"
  using length_dropWhile_le [of "\<lambda>k. k = NoSymbol" "rev row"] by (simp add: strip_def)

lemma strip_nth: "i < length row \<Longrightarrow> row ! i = (if i < length (strip row) then strip row ! i else NoSymbol)"
proof (induction row rule: rev_induct)
  case Nil
  then show ?case by simp
next
  case (snoc k row)
  then show ?case
    using strip_length [of row] by (auto simp: strip_snoc nth_append)
qed

lemma keysym_at_row:
  assumes "off + per \<le> length keysyms" and "i < per"
  shows "keysym_at keysyms off (int i) = Inr (take per (drop off keysyms) ! i)"
  using assms by (simp add: keysym_at_def Let_def nat_add_distrib)

text \<open>The loop that drops trailing symbols leaves at least two columns.\<close>

lemma trim_per_strip:
  assumes "off + per \<le> length keysyms"
  shows "trim_per keysyms off per =
    Inr (max (length (strip (take per (drop off keysyms)))) (min per 2))"
  using assms
proof (induction per)
  case 0
  then show ?case by (simp add: trim_per.simps strip_def)
next
  case (Suc per)
  let ?row = "take per (drop off keysyms)"
  let ?k = "keysyms ! (off + per)"
  have row: "take (Suc per) (drop off keysyms) = ?row @ [?k]"
    using Suc.prems by (simp add: take_Suc_conv_app_nth)
  have at: "keysym_at keysyms off (int per) = Inr ?k"
    using Suc.prems by (simp add: keysym_at_def Let_def nat_add_distrib)
  have len: "length ?row = per" "length (strip ?row) \<le> per"
    using Suc.prems strip_length [of ?row] by simp_all
  show ?case
  proof (cases "2 < Suc per")
    case True
    then show ?thesis
      using Suc.IH Suc.prems at len
      by (simp add: numeral_2_eq_2 trim_per.simps [of keysyms off "Suc per"] row strip_snoc)
  next
    case False
    then show ?thesis
      using len by (simp add: trim_per.simps [of keysyms off "Suc per"] row strip_snoc)
  qed
qed

text \<open>A symbol of a row, \<open>NoSymbol\<close> beyond its end.\<close>

definition nth_sym :: "u32 list \<Rightarrow> nat \<Rightarrow> u32" where
  "nth_sym row i = (if i < length row then row ! i else NoSymbol)"

lemma nth_sym_strip: "nth_sym (strip row) i = nth_sym row i"
  using strip_nth [of i row] strip_length [of row] by (auto simp: nth_sym_def)

lemma completed_nth:
  "completed s ! 0 = nth_sym s 0" "completed s ! 1 = nth_sym s 1"
  "completed s ! 2 = nth_sym s (if length s \<le> 2 then 0 else 2)"
  "completed s ! 3 = nth_sym s (if length s \<le> 2 then 1 else 3)"
  by (cases s rule: completed.cases; simp add: nth_sym_def numeral_eq_Suc)+

lemma documented_list_nth:
  "documented_list row ! 0 = nth_sym row 0" "documented_list row ! Suc 0 = nth_sym row (Suc 0)"
  "documented_list row ! 2 = nth_sym row (if length (strip row) \<le> 2 then 0 else 2)"
  "documented_list row ! 3 = nth_sym row (if length (strip row) \<le> 2 then Suc 0 else 3)"
  using completed_nth [of "strip row"]
  by (simp_all add: documented_list_def strip_def [symmetric] nth_sym_strip)

text \<open>What a group shows: its two columns, or the two cases of the first.\<close>

definition group_symbol :: "u32 \<Rightarrow> u32 \<Rightarrow> bool \<Rightarrow> u32" where
  "group_symbol first second odd_col =
     (if second = NoSymbol then
        (if \<not> odd_col then fst (xcb_convert_case first)
         else if cased first then snd (xcb_convert_case first) else NoSymbol)
      else if odd_col then second else first)"

text \<open>The second half of \<open>keysym_in_row\<close>, on a group that starts in column \<open>b\<close>.\<close>

definition group_code :: "u32 list \<Rightarrow> nat \<Rightarrow> nat \<Rightarrow> int \<Rightarrow> u32 outcome" where
  "group_code keysyms off per col =
     and_then
       (if int per \<le> col OR 1 then Inr True
        else and_then (keysym_at keysyms off (col OR 1)) (\<lambda>k. Inr (k = NoSymbol))) (\<lambda>single.
     if single then
       and_then (keysym_at keysyms off (col AND NOT 1)) (\<lambda>k.
       case xcb_convert_case k of (lsym, usym) \<Rightarrow>
         Inr (if col AND 1 = 0 then lsym else if usym = lsym then NoSymbol else usym))
     else keysym_at keysyms off col)"

lemma group_code_symbol:
  assumes "off + n \<le> length keysyms" and "row = take n (drop off keysyms)" and "b < per" and "per \<le> n"
    and "nth_sym row (Suc b) = NoSymbol \<or> Suc b < per"
    and "col = int (if odd_col then Suc b else b)" and "b = 0 \<or> b = 2"
  shows "group_code keysyms off per col =
    Inr (group_symbol (nth_sym row b) (nth_sym row (Suc b)) odd_col)"
proof -
  have at: "i < n \<Longrightarrow> keysym_at keysyms off (int i) = Inr (nth_sym row i)" for i
    using keysym_at_row [OF assms(1), of i] assms(1,2) by (simp add: nth_sym_def)
  have bits: "col OR 1 = int (Suc b)" "col AND NOT 1 = int b" "(col AND 1 = 0) = (\<not> odd_col)"
    using assms(6,7) by (auto split: if_splits)
  show ?thesis
  proof (cases "Suc b < per \<and> nth_sym row (Suc b) \<noteq> NoSymbol")
    case True
    then have "int per \<le> int (Suc b) \<longleftrightarrow> False" "Suc b < n" "b < n" using assms(4) by auto
    with at have "keysym_at keysyms off (int (Suc b)) = Inr (nth_sym row (Suc b))"
      "keysym_at keysyms off (int b) = Inr (nth_sym row b)" "int per \<le> int (Suc b) \<longleftrightarrow> False"
      by blast+
    then show ?thesis
      using True unfolding group_code_def bits unfolding assms(6) by (simp add: group_symbol_def del: of_nat_Suc)
  next
    case False
    then have none: "nth_sym row (Suc b) = NoSymbol" using assms(5) by blast
    have b: "keysym_at keysyms off (int b) = Inr (nth_sym row b)"
      using assms(3,4) by (simp only: at)
    have "(if int per \<le> int (Suc b) then Inr True
        else and_then (keysym_at keysyms off (int (Suc b))) (\<lambda>k. Inr (k = NoSymbol))) = Inr True"
      using at [of "Suc b"] assms(4) none by auto
    then show ?thesis
      using b none unfolding group_code_def bits
      by (auto simp: group_symbol_def cased_def split: prod.split)
  qed
qed

lemma keysym_in_row_groups:
  "keysym_in_row keysyms off per 0 = group_code keysyms off per 0"
  "keysym_in_row keysyms off per 1 = group_code keysyms off per 1"
  "trim_per keysyms off per = Inr p \<Longrightarrow>
    keysym_in_row keysyms off per 2 = group_code keysyms off p (if p < 3 then 0 else 2)"
  "trim_per keysyms off per = Inr p \<Longrightarrow>
    keysym_in_row keysyms off per 3 = group_code keysyms off p (if p < 3 then 1 else 3)"
  by (simp_all add: keysym_in_row_def group_code_def)

lemma keysym_in_row_code:
  assumes "off + per \<le> length keysyms" and "row = take per (drop off keysyms)" and "0 < per"
    and "col < 4"
  shows "keysym_in_row keysyms off per (int col) = Inr (group_symbol
    (documented_list row ! (2 * (col div 2))) (documented_list row ! (2 * (col div 2) + 1)) (odd col))"
proof -
  have s: "length (strip row) \<le> per" using strip_length [of row] assms(1,2) by simp
  let ?p = "max (length (strip row)) (min per 2)"
  have trim: "trim_per keysyms off per = Inr ?p"
    using trim_per_strip [OF assms(1)] by (simp add: assms(2))
  have beyond: "nth_sym row i = NoSymbol \<or> i < length (strip row)" for i
    using strip_nth [of i row] by (auto simp: nth_sym_def)
  have group: "group_code keysyms off p (int (if x then Suc b else b)) =
      Inr (group_symbol (nth_sym row b) (nth_sym row (Suc b)) x)"
    if "b < p" "p \<le> per" "length (strip row) \<le> p \<or> Suc b < p" "b = 0 \<or> b = 2" for b p x
  proof -
    have "nth_sym row (Suc b) = NoSymbol \<or> Suc b < p" using that(3) beyond [of "Suc b"] by auto
    then show ?thesis by (rule group_code_symbol [OF assms(1,2) that(1,2) _ refl that(4)])
  qed
  have first: "group_code keysyms off p (int (if x then Suc 0 else 0)) =
      Inr (group_symbol (nth_sym row 0) (nth_sym row 1) x)"
    if "0 < p" "p \<le> per" "length (strip row) \<le> p \<or> 1 < p" for p x
    using group [of 0 p x] that by simp
  have second: "group_code keysyms off ?p (int (if x then 3 else 2)) =
      Inr (group_symbol (nth_sym row 2) (nth_sym row 3) x)" if "\<not> length (strip row) \<le> 2" for x
  proof -
    have "(if x then 3 else 2) = (if x then Suc 2 else 2)" "(3 :: nat) = Suc 2" by simp_all
    then show ?thesis using group [of 2 ?p x] that s by (simp only:) simp
  qed
  have p: "?p < 3 \<longleftrightarrow> length (strip row) \<le> 2" by auto
  have p0: "0 < ?p" "?p \<le> per" "length (strip row) \<le> ?p \<or> 1 < ?p"
    using s assms(3) by auto
  consider "col = 0" | "col = 1" | "col = 2" | "col = 3" using assms(4) by linarith
  then show ?thesis
  proof cases
    case 1
    then show ?thesis
      using first [of per False] s assms(3) by (simp add: keysym_in_row_groups documented_list_nth)
  next
    case 2
    then show ?thesis
      using first [of per True] s assms(3) by (simp add: keysym_in_row_groups documented_list_nth)
  next
    case 3
    then show ?thesis
      using keysym_in_row_groups(3) [OF trim] first [OF p0, of False] second [of False] p
      by (cases "length (strip row) \<le> 2") (simp_all add: documented_list_nth)
  next
    case 4
    then show ?thesis
      using keysym_in_row_groups(4) [OF trim] first [OF p0, of True] second [of True] p
      by (cases "length (strip row) \<le> 2") (simp_all add: documented_list_nth)
  qed
qed

text \<open>A mapping with at least one symbol per key and a row for every key of the set-up.\<close>

definition mapping_ok :: "xcb_connection \<Rightarrow> keyboard_mapping \<Rightarrow> bool" where
  "mapping_ok c reply \<longleftrightarrow> 0 < km_per reply \<and> xc_min c \<le> xc_max c \<and>
     length (km_keysyms reply) = (unat (xc_max c) - unat (xc_min c) + 1) * unat (km_per reply)"

definition key_row :: "xcb_connection \<Rightarrow> keyboard_mapping \<Rightarrow> u8 \<Rightarrow> u32 list" where
  "key_row c reply keycode = take (unat (km_per reply))
     (drop ((unat keycode - unat (xc_min c)) * unat (km_per reply)) (km_keysyms reply))"

lemma key_row_fits:
  assumes "mapping_ok c reply" and "xc_min c \<le> keycode" and "keycode \<le> xc_max c"
  shows "(unat keycode - unat (xc_min c)) * unat (km_per reply) + unat (km_per reply) \<le>
    length (km_keysyms reply)"
proof -
  have "unat keycode - unat (xc_min c) + 1 \<le> unat (xc_max c) - unat (xc_min c) + 1"
    using assms(2,3) by (simp add: word_le_nat_alt diff_le_mono)
  from mult_le_mono1 [OF this, of "unat (km_per reply)"] show ?thesis
    using assms(1) by (simp add: mapping_ok_def)
qed

text \<open>What a new \<open>key_symbols\<close> finds.\<close>

definition key_symbol :: "xcb_connection \<Rightarrow> keyboard_mapping \<Rightarrow> u8 \<Rightarrow> nat \<Rightarrow> u32" where
  "key_symbol c reply keycode col =
     (let list = documented_list (key_row c reply keycode)
      in group_symbol (list ! (2 * (col div 2))) (list ! (2 * (col div 2) + 1)) (odd col))"

lemma get_keysym_code:
  assumes "xc_mapping c = Some reply" and "mapping_ok c reply" and "\<not> xc_error c"
    and "xc_min c \<le> keycode" and "keycode \<le> xc_max c" and "col < 4"
  shows "\<exists>syms. xcb_key_symbols_get_keysym (xcb_key_symbols_alloc True (Some c)) keycode (int col) =
    Inr (key_symbol c reply keycode col, syms)"
proof -
  have "0 < unat (km_per reply)" using assms(2) by (simp add: mapping_ok_def word_less_nat_alt)
  note row = keysym_in_row_code [OF key_row_fits [OF assms(2,4,5)] refl this assms(6),
      folded key_row_def]
  then show ?thesis
    using assms(1,3,6)
    by (simp add: leD [OF assms(4)] leD [OF assms(5)] xcb_key_symbols_get_keysym_def xcb_key_symbols_alloc_def
        xcb_key_symbols_get_reply_def key_symbol_def Let_def not_less)
qed

lemma group_symbol_documented:
  "group_symbol (documented_list row ! (2 * (col div 2))) (documented_list row ! (2 * (col div 2) + 1))
      (odd col) =
    (if odd col \<and> documented_list row ! col = NoSymbol \<and> \<not> cased (documented_list row ! (col - 1))
     then NoSymbol else documented_symbol row col)"
proof -
  have "2 * (col div 2) + 1 = col" "2 * (col div 2) = col - 1" if "odd col"
    using that by (simp_all add: odd_two_times_div_two_succ)
  then show ?thesis
    by (auto simp: group_symbol_def documented_symbol_def Let_def not_cased)
qed

section \<open>Properties\<close>

text \<open>A mapping of two keys: a letter with one symbol, and a digit with its shifted sign and a third.\<close>

definition sample_connection :: xcb_connection where
  "sample_connection = \<lparr>xc_error = False, xc_min = 8, xc_max = 9,
     xc_mapping = Some \<lparr>km_per = 4, km_keysyms = [XK_a, 0, 0, 0, 0x31, 0x21, 0xb9, 0]\<rparr>\<rparr>"

text \<open>C25: The symbol of a key in the first four columns is the one the comment of the code describes,
  whatever the length of the key's list, and no lookup reads outside the mapping; with one exception:
  in the second column of a group that has only one symbol, without two cases, the code answers
  \<open>NoSymbol\<close> where the comment says the first symbol.\<close>

theorem get_keysym_documented:
  assumes "xc_mapping c = Some reply" and "mapping_ok c reply" and "\<not> xc_error c"
    and "xc_min c \<le> keycode" and "keycode \<le> xc_max c" and "col < 4"
  shows "\<exists>syms. xcb_key_symbols_get_keysym (xcb_key_symbols_alloc True (Some c)) keycode (int col) =
    Inr (let row = key_row c reply keycode in
      if odd col \<and> documented_list row ! col = NoSymbol \<and> \<not> cased (documented_list row ! (col - 1))
      then NoSymbol else documented_symbol row col, syms)"
  using get_keysym_code [OF assms]
  unfolding key_symbol_def Let_def group_symbol_documented .

theorem get_keysym_documented_witness:
  "\<exists>syms. xcb_key_symbols_get_keysym (xcb_key_symbols_alloc True (Some sample_connection)) 9 (int 3) =
    Inr (let row = key_row sample_connection (the (xc_mapping sample_connection)) 9 in
      if odd (3 :: nat) \<and> documented_list row ! 3 = NoSymbol \<and> \<not> cased (documented_list row ! (3 - 1))
      then NoSymbol else documented_symbol row 3, syms)"
  by (rule get_keysym_documented) (simp_all add: sample_connection_def mapping_ok_def)

end
