(* ===== verification/Chatbox.thy ===== *)
theory Chatbox
  imports Wire Keysyms
begin

text \<open>
  The chat window of \<open>src/gui.c\<close>: the input line that \<open>chatbox_read_input\<close> edits key by key, the
  history of ten messages that \<open>roll_messages\<close> shifts, and the texts that are drawn. The calls of the
  X library are parameters: the event that is pending, the keyboard of the connection, and what the server
  answers when the window is opened.
\<close>

section \<open>State\<close>

definition MAX_MSG_SIZE :: nat where "MAX_MSG_SIZE = 256"
definition NUMBER_OF_MSGS :: nat where "NUMBER_OF_MSGS = 10"
definition HEIGHT :: int where "HEIGHT = 500"

text \<open>
  \<open>cb_connected\<close> is the connection to the X server, which the escape key closes and frees;
  \<open>cb_draw\<close> which of the requests of drawing a text the server can do; \<open>cb_screen\<close> the texts drawn so
  far, with their height in the window.
\<close>

record draw_answers =
  da_open_font :: bool
  da_create_gc :: bool
  da_close_font :: bool
  da_text :: bool
  da_free_gc :: bool

record chatbox =
  cb_buffer_len :: u8
  cb_input_buffer :: "char list"
  cb_msgs :: "char list list"
  cb_connected :: bool
  cb_draw :: draw_answers
  cb_screen :: "(int \<times> string) list"

definition all_drawn :: draw_answers where
  "all_drawn = \<lparr>da_open_font = True, da_create_gc = True, da_close_font = True, da_text = True,
     da_free_gc = True\<rparr>"

text \<open>A window that has just been opened.\<close>

definition new_chatbox :: chatbox where
  "new_chatbox = \<lparr>cb_buffer_len = 0, cb_input_buffer = replicate MAX_MSG_SIZE nul,
     cb_msgs = replicate NUMBER_OF_MSGS (replicate MAX_MSG_SIZE nul), cb_connected = True,
     cb_draw = all_drawn, cb_screen = []\<rparr>"

abbreviation cb_works :: "chatbox \<Rightarrow> bool" where
  "cb_works cb \<equiv> cb_connected cb \<and> cb_draw cb = all_drawn"

text \<open>The events that \<open>xcb_poll_for_event\<close> can deliver; \<open>None\<close> below is that none is pending.\<close>

datatype xcb_event = Expose | Key_Release key_event | Other_Event

abbreviation XK_Escape :: u32 where "XK_Escape \<equiv> 0xff1b"
abbreviation XK_BackSpace :: u32 where "XK_BackSpace \<equiv> 0xff08"
abbreviation XK_Return :: u32 where "XK_Return \<equiv> 0xff0d"

section \<open>Drawing\<close>

definition blankbuffer :: "char list" where
  "blankbuffer = replicate (MAX_MSG_SIZE - 1) space @ [nul]"

text \<open>
  \<open>gc_font_get\<close> opens the font, creates a graphics context and closes the font. A failure disconnects;
  for the font the function then returns, for the others the program exits.
\<close>

definition gc_font_get :: "chatbox \<Rightarrow> chatbox outcome" where
  "gc_font_get cb =
     (if \<not> da_open_font (cb_draw cb) then Inr (cb\<lparr>cb_connected := False\<rparr>)
      else if \<not> da_create_gc (cb_draw cb) then Inl Program_Exit
      else if \<not> da_close_font (cb_draw cb) then Inl Program_Exit
      else Inr cb)"

text \<open>The length of a text is a \<open>uint8_t\<close>.\<close>

definition text_draw :: "int \<Rightarrow> char list \<Rightarrow> chatbox \<Rightarrow> chatbox outcome" where
  "text_draw y1 label cb =
     and_then (c_str label) (\<lambda>s.
     let len = of_nat (length s) :: u8 in
     if \<not> cb_connected cb then Inl Use_After_Free
     else
       and_then (gc_font_get cb) (\<lambda>cb.
       if \<not> cb_connected cb then Inl Use_After_Free
       else if \<not> da_text (cb_draw cb) then Inl Program_Exit
       else if \<not> da_free_gc (cb_draw cb) then Inl Program_Exit
       else Inr (cb\<lparr>cb_screen := cb_screen cb @ [(y1, take (unat len) s)]\<rparr>)))"

text \<open>Where the server does everything, a text is drawn; without the font it is not.\<close>

lemma text_draw_works:
  "cb_works cb \<Longrightarrow> text_draw y label cb =
    and_then (c_str label) (\<lambda>s. Inr (cb\<lparr>cb_screen := cb_screen cb @ [(y, take (unat (of_nat (length s) :: u8)) s)]\<rparr>))"
  by (simp add: text_draw_def gc_font_get_def all_drawn_def Let_def)

lemma text_draw_no_font: "\<not> da_open_font (cb_draw cb) \<Longrightarrow> text_draw y label cb \<noteq> Inr r"
  by (cases "c_str label") (simp_all add: text_draw_def gc_font_get_def)

definition text_clear_helper :: "chatbox \<Rightarrow> int \<Rightarrow> nat \<Rightarrow> chatbox outcome" where
  "text_clear_helper cb height boxnum = text_draw height blankbuffer cb"

text \<open>A row is read as a string, which goes on in the next rows if it has no terminator.\<close>

definition text_draw_helper :: "chatbox \<Rightarrow> int \<Rightarrow> nat \<Rightarrow> chatbox outcome" where
  "text_draw_helper cb height boxnum = text_draw height (concat (drop boxnum (cb_msgs cb))) cb"

definition input_draw_helper :: "char list \<Rightarrow> chatbox \<Rightarrow> chatbox outcome" where
  "input_draw_helper buffer cb = text_draw (HEIGHT - 25) buffer cb"

text \<open>\<open>update_messages\<close> of the client draws the rows from the bottom up.\<close>

fun update_rows :: "nat list \<Rightarrow> chatbox \<Rightarrow> chatbox outcome" where
  "update_rows [] cb = Inr cb"
| "update_rows (i # is) cb =
     and_then (text_clear_helper cb (HEIGHT - 20 * int i - 100) i) (\<lambda>cb.
     and_then (text_draw_helper cb (HEIGHT - 20 * int i - 100) i) (update_rows is))"

definition update_messages :: "chatbox \<Rightarrow> chatbox outcome" where
  "update_messages cb = update_rows [0..<NUMBER_OF_MSGS] cb"

section \<open>Operations\<close>

definition store_char :: "char list \<Rightarrow> nat \<Rightarrow> char \<Rightarrow> char list outcome" where
  "store_char buf i c = (if i < length buf then Inr (buf[i := c]) else Inl Out_Of_Bounds)"

text \<open>The symbol of a released key; shift and lock choose the second column.\<close>

definition released_keysym :: "bool \<Rightarrow> xcb_connection \<Rightarrow> key_event \<Rightarrow> u32 outcome" where
  "released_keysym malloc_ok c ev =
     and_then (xcb_key_release_lookup_keysym (xcb_key_symbols_alloc malloc_ok (Some c)) ev
       (if ev_state ev AND 1 \<noteq> 0 \<or> ev_state ev AND 2 \<noteq> 0 then 1 else 0)) (\<lambda>(k, _). Inr k)"

text \<open>
  The result, the window, and the caller's buffer, into which the return key copies the line with
  \<open>strncpy\<close>. A key symbol is cast to a signed \<open>char\<close>.
\<close>

definition chatbox_read_input ::
    "bool \<Rightarrow> xcb_connection \<Rightarrow> chatbox \<Rightarrow> xcb_event option \<Rightarrow> char list
      \<Rightarrow> (int \<times> chatbox \<times> char list) outcome" where
  "chatbox_read_input malloc_ok c cb e msg_to_send =
     (if \<not> cb_connected cb then Inl Use_After_Free
      else
      case e of
        Some Expose \<Rightarrow>
          and_then (text_draw (HEIGHT - 10) (''Press ESC key to exit...'' @ [nul]) cb) (\<lambda>cb.
          and_then (text_draw (HEIGHT - 25) (cb_input_buffer cb) cb) (\<lambda>cb.
          Inr (0, cb, msg_to_send)))
      | Some (Key_Release ev) \<Rightarrow>
          and_then (released_keysym malloc_ok c ev) (\<lambda>keysymbol.
          if keysymbol = XK_Escape then Inr (0, cb\<lparr>cb_connected := False\<rparr>, msg_to_send)
          else if keysymbol = XK_BackSpace then
            and_then
              (if uint (cb_buffer_len cb) > 0 then
                 and_then (store_char (cb_input_buffer cb) (unat (cb_buffer_len cb - 1)) nul) (\<lambda>buf.
                 Inr (cb\<lparr>cb_buffer_len := cb_buffer_len cb - 1, cb_input_buffer := buf\<rparr>))
               else Inr cb) (\<lambda>cb.
            and_then (input_draw_helper blankbuffer cb) (\<lambda>cb.
            and_then (input_draw_helper (cb_input_buffer cb) cb) (\<lambda>cb. Inr (0, cb, msg_to_send))))
          else if keysymbol = XK_Return then
            and_then (strncpy msg_to_send (cb_input_buffer cb) (unat (cb_buffer_len cb))) (\<lambda>msg_to_send.
            and_then (input_draw_helper blankbuffer
              (cb\<lparr>cb_input_buffer := replicate MAX_MSG_SIZE nul\<rparr>)) (\<lambda>cb'.
            Inr (int (unat (cb_buffer_len cb)), cb'\<lparr>cb_buffer_len := 0\<rparr>, msg_to_send)))
          else
            (let ascii = ucast keysymbol :: u8 in
             and_then
               (if uint (cb_buffer_len cb) < 255 \<and> sint ascii > 0 then
                  and_then (store_char (cb_input_buffer cb) (unat (cb_buffer_len cb))
                      (byte_of (unat ascii))) (\<lambda>buf.
                  input_draw_helper buf
                    (cb\<lparr>cb_buffer_len := cb_buffer_len cb + 1, cb_input_buffer := buf\<rparr>))
                else Inr cb)
               (\<lambda>cb.
                 and_then (store_char (cb_input_buffer cb) (unat (cb_buffer_len cb)) nul) (\<lambda>buf.
                 Inr (0, cb\<lparr>cb_input_buffer := buf\<rparr>, msg_to_send)))))
      | _ \<Rightarrow> Inr (0, cb, msg_to_send))"

text \<open>
  What the X server answers when a window is opened: whether there is a connection, the number of the
  default screen and how many screens there are, and whether the window can be created and mapped.
\<close>

record display =
  dp_connects :: bool
  dp_screen :: int
  dp_screens :: nat
  dp_window :: bool
  dp_map :: bool
  dp_draw :: draw_answers

text \<open>The loop over the screens that are left.\<close>

fun find_screen :: "nat \<Rightarrow> int \<Rightarrow> bool" where
  "find_screen 0 screen_number = False"
| "find_screen (Suc rem) screen_number =
     (if screen_number = 0 then True else find_screen rem (screen_number - 1))"

definition setupWindow :: "display \<Rightarrow> chatbox \<Rightarrow> int \<times> chatbox" where
  "setupWindow d cb =
     (if \<not> dp_connects d then (-1, cb)
      else if \<not> find_screen (dp_screens d) (dp_screen d) then (-1, cb\<lparr>cb_connected := False\<rparr>)
      else if \<not> dp_window d then (-1, cb\<lparr>cb_connected := False\<rparr>)
      else if \<not> dp_map d then (-1, cb\<lparr>cb_connected := False\<rparr>)
      else (0, cb\<lparr>cb_connected := True, cb_draw := dp_draw d\<rparr>))"

text \<open>The result of \<open>setupWindow\<close> is ignored, and the connection flushed.\<close>

definition chatbox_init :: "bool \<Rightarrow> display \<Rightarrow> chatbox outcome" where
  "chatbox_init malloc_ok d =
     (if \<not> malloc_ok then Inl Null_Pointer
      else
        (case setupWindow d \<lparr>cb_buffer_len = 0, cb_input_buffer = replicate MAX_MSG_SIZE nul,
            cb_msgs = replicate NUMBER_OF_MSGS (replicate MAX_MSG_SIZE nul), cb_connected = False,
            cb_draw = dp_draw d, cb_screen = []\<rparr> of (_, cb) \<Rightarrow>
          if cb_connected cb then Inr cb
          else Inl (if dp_connects d then Use_After_Free else Null_Pointer)))"

text \<open>The loop of \<open>roll_messages\<close> from row \<open>i\<close> down to row 1.\<close>

fun roll_loop :: "nat \<Rightarrow> char list list \<Rightarrow> char list list outcome" where
  "roll_loop 0 msgs = Inr msgs"
| "roll_loop (Suc i) msgs =
     (if Suc i < length msgs
      then and_then (blit (msgs ! Suc i) 0 (take MAX_MSG_SIZE (msgs ! i)))
             (\<lambda>row. roll_loop i (msgs[Suc i := row]))
      else Inl Out_Of_Bounds)"

definition roll_messages :: "chatbox \<Rightarrow> char list \<Rightarrow> int \<Rightarrow> chatbox outcome" where
  "roll_messages cb payload len =
     and_then (roll_loop (NUMBER_OF_MSGS - 1) (cb_msgs cb)) (\<lambda>msgs.
     if length payload < size_t len then Inl Out_Of_Bounds
     else
       and_then (blit (replicate MAX_MSG_SIZE nul) 0 (take (size_t len) payload)) (\<lambda>row.
       Inr (cb\<lparr>cb_msgs := msgs[0 := row]\<rparr>)))"

section \<open>The input line as an editor\<close>

text \<open>The line that a window holds, and the rows of its history, newest first.\<close>

definition shows_line :: "chatbox \<Rightarrow> string \<Rightarrow> bool" where
  "shows_line cb s \<longleftrightarrow> length s < MAX_MSG_SIZE \<and> nul \<notin> set s \<and> unat (cb_buffer_len cb) = length s \<and>
     cb_input_buffer cb = s @ replicate (MAX_MSG_SIZE - length s) nul"

text \<open>What a key does to the line: the line after it, and the message it sends.\<close>

definition typed :: "u32 \<Rightarrow> char option" where
  "typed k = (let a = ucast k :: u8 in if 0 < sint a then Some (byte_of (unat a)) else None)"

definition edit :: "u32 \<Rightarrow> string \<Rightarrow> string \<times> string option" where
  "edit k s =
     (if k = XK_Escape then (s, None)
      else if k = XK_BackSpace then (butlast s, None)
      else if k = XK_Return then ([], Some s)
      else (case typed k of
              Some c \<Rightarrow> (if length s < 255 then s @ [c] else s, None)
            | None \<Rightarrow> (s, None)))"

lemma find_screen_iff: "find_screen rem n \<longleftrightarrow> 0 \<le> n \<and> n < int rem"
  by (induction rem n rule: find_screen.induct) auto

text \<open>A window opens when every step of \<open>setupWindow\<close> succeeds, and the program faults otherwise.\<close>

lemma chatbox_init_eq:
  "chatbox_init malloc_ok d =
    (if malloc_ok \<and> dp_connects d \<and> 0 \<le> dp_screen d \<and> dp_screen d < int (dp_screens d) \<and>
        dp_window d \<and> dp_map d
     then Inr (new_chatbox\<lparr>cb_draw := dp_draw d\<rparr>)
     else Inl (if malloc_ok \<and> dp_connects d then Use_After_Free else Null_Pointer))"
  by (simp add: chatbox_init_def setupWindow_def find_screen_iff new_chatbox_def)

lemma shows_line_init: "shows_line new_chatbox []"
  by (simp add: shows_line_def new_chatbox_def MAX_MSG_SIZE_def)

lemma store_char_end:
  "length s < n \<Longrightarrow> store_char (s @ replicate (n - length s) nul) (length s) c =
    Inr (s @ c # replicate (n - Suc (length s)) nul)"
  by (cases "n - length s") (auto simp: store_char_def list_update_append Suc_diff_Suc)

lemma typed_not_nul: "typed k = Some c \<Longrightarrow> c \<noteq> nul"
proof -
  assume t: "typed k = Some c"
  let ?a = "ucast k :: u8"
  have a: "0 < sint ?a" "c = byte_of (unat ?a)" using t by (auto simp: typed_def Let_def split: if_splits)
  have "unat ?a \<noteq> 0"
  proof
    assume "unat ?a = 0"
    then have "?a = 0" by (simp add: unat_eq_zero)
    with a(1) show False by simp
  qed
  moreover have "unat ?a < 256" using unat_bound [of ?a] by simp
  ultimately have "(of_char c :: nat) \<noteq> 0" using a(2) of_byte_of [of "unat ?a"] by simp
  then show "c \<noteq> nul" by (auto simp: nul_def)
qed

lemma u8_step:
  fixes b :: u8
  shows "unat b < 255 \<Longrightarrow> unat (b + 1) = Suc (unat b)" "0 < unat b \<Longrightarrow> unat (b - 1) = unat b - 1"
    "(uint b < 255) = (unat b < 255)" "(0 < uint b) = (0 < unat b)"
proof -
  show "unat b < 255 \<Longrightarrow> unat (b + 1) = Suc (unat b)" by (simp add: unat_word_ariths)
  show "unat (b - 1) = unat b - 1" if "0 < unat b"
  proof -
    have "b \<noteq> 0" using that by auto
    then show ?thesis by (simp add: unat_minus_one)
  qed
  have "uint b = int (unat b)" by (rule uint_nat)
  then show "(uint b < 255) = (unat b < 255)" "(0 < uint b) = (0 < unat b)" by presburger+
qed

lemma shows_line_screen [simp]: "shows_line (cb\<lparr>cb_screen := log\<rparr>) s = shows_line cb s"
  by (simp add: shows_line_def)

lemma text_draw_ok:
  assumes "cb_works cb" and "nul \<in> set label"
  shows "\<exists>log. text_draw y label cb = Inr (cb\<lparr>cb_screen := log\<rparr>)"
  using assms by (simp add: text_draw_works c_str_def) blast

lemma input_draw_ok:
  assumes "cb_works cb"
  shows "\<exists>log. input_draw_helper blankbuffer cb = Inr (cb\<lparr>cb_screen := log\<rparr>)"
    "shows_line cb' s \<Longrightarrow> cb' = cb \<Longrightarrow>
      \<exists>log. input_draw_helper (cb_input_buffer cb') cb = Inr (cb\<lparr>cb_screen := log\<rparr>)"
  unfolding input_draw_helper_def
  by (intro text_draw_ok [OF assms], simp add: blankbuffer_def)
    (intro text_draw_ok [OF assms], auto simp: shows_line_def)

lemma escape_code:
  assumes "cb_works cb" and "released_keysym m c ev = Inr XK_Escape"
  shows "chatbox_read_input m c cb (Some (Key_Release ev)) msg =
    Inr (0, cb\<lparr>cb_connected := False\<rparr>, msg)"
  using assms by (simp add: chatbox_read_input_def)

text \<open>Backspace removes the last character and draws the line.\<close>

lemma backspace_code:
  assumes "shows_line cb s" and "cb_works cb" and "released_keysym m c ev = Inr XK_BackSpace"
  shows "\<exists>cb'. chatbox_read_input m c cb (Some (Key_Release ev)) msg = Inr (0, cb', msg) \<and>
    shows_line cb' (butlast s) \<and> cb_msgs cb' = cb_msgs cb \<and> cb_works cb'"
proof -
  have S: "length s < MAX_MSG_SIZE" "nul \<notin> set s" "unat (cb_buffer_len cb) = length s"
    "cb_input_buffer cb = s @ replicate (MAX_MSG_SIZE - length s) nul"
    using assms(1) by (auto simp: shows_line_def)
  let ?shrink = "if uint (cb_buffer_len cb) > 0 then
      and_then (store_char (cb_input_buffer cb) (unat (cb_buffer_len cb - 1)) nul) (\<lambda>buf.
      Inr (cb\<lparr>cb_buffer_len := cb_buffer_len cb - 1, cb_input_buffer := buf\<rparr>))
    else Inr cb"
  have "\<exists>cb1. ?shrink = Inr cb1 \<and> shows_line cb1 (butlast s) \<and> cb_msgs cb1 = cb_msgs cb \<and>
      cb_works cb1"
  proof (cases s rule: rev_cases)
    case Nil
    with assms S show ?thesis by (simp add: u8_step)
  next
    case (snoc t x)
    have "store_char (cb_input_buffer cb) (length t) nul = Inr (t @ replicate (MAX_MSG_SIZE - length t) nul)"
      using S(1) by (simp add: S(4) snoc store_char_def list_update_append
          replicate_Suc [symmetric] Suc_diff_Suc del: replicate.simps)
    with snoc S assms(2) show ?thesis by (simp add: u8_step shows_line_def)
  qed
  then obtain cb1 where cb1: "?shrink = Inr cb1" "shows_line cb1 (butlast s)"
      "cb_msgs cb1 = cb_msgs cb" "cb_works cb1" by blast
  obtain l1 where l1: "input_draw_helper blankbuffer cb1 = Inr (cb1\<lparr>cb_screen := l1\<rparr>)"
    using input_draw_ok(1) [OF cb1(4)] by blast
  have "cb_works (cb1\<lparr>cb_screen := l1\<rparr>)" using cb1(4) by simp
  from input_draw_ok(2) [OF this _ refl, of "butlast s"] cb1(2) obtain l2 where
    "input_draw_helper (cb_input_buffer cb1) (cb1\<lparr>cb_screen := l1\<rparr>) = Inr (cb1\<lparr>cb_screen := l2\<rparr>)"
    by auto
  with cb1 l1 assms(2,3) show ?thesis unfolding chatbox_read_input_def by simp
qed

text \<open>Return hands the line over.\<close>

lemma return_code:
  assumes "shows_line cb s" and "cb_works cb" and "released_keysym m c ev = Inr XK_Return"
    and "length msg = MAX_MSG_SIZE"
  shows "\<exists>cb'. chatbox_read_input m c cb (Some (Key_Release ev)) msg =
      Inr (int (length s), cb', s @ drop (length s) msg) \<and>
    shows_line cb' [] \<and> cb_msgs cb' = cb_msgs cb \<and> cb_works cb'"
proof -
  have S: "length s < MAX_MSG_SIZE" "nul \<notin> set s" "unat (cb_buffer_len cb) = length s"
    "cb_input_buffer cb = s @ replicate (MAX_MSG_SIZE - length s) nul"
    using assms(1) by (auto simp: shows_line_def)
  have "strncpy msg (cb_input_buffer cb) (length s) = Inr (s @ drop (length s) msg)"
    unfolding S(4) using S(1,2) assms(4) by (intro strncpy_exact) simp_all
  moreover have "cb_works (cb\<lparr>cb_input_buffer := replicate MAX_MSG_SIZE nul\<rparr>)"
    using assms(2) by simp
  from input_draw_ok(1) [OF this] obtain log where
    "input_draw_helper blankbuffer (cb\<lparr>cb_input_buffer := replicate MAX_MSG_SIZE nul\<rparr>) =
      Inr (cb\<lparr>cb_input_buffer := replicate MAX_MSG_SIZE nul, cb_screen := log\<rparr>)" by auto
  ultimately show ?thesis
    using S assms(2,3) by (simp add: chatbox_read_input_def shows_line_def MAX_MSG_SIZE_def)
qed

text \<open>Any other key appends its character, if it has one and there is room.\<close>

lemma store_end_nul:
  assumes "length s < n"
  shows "store_char (s @ replicate (n - length s) nul) (length s) nul = Inr (s @ replicate (n - length s) nul)"
  using store_char_end [OF assms, of nul] assms
  by (simp add: replicate_Suc [symmetric] Suc_diff_Suc del: replicate.simps)

lemma other_code:
  assumes "shows_line cb s" and "cb_works cb" and "released_keysym m c ev = Inr k"
    and "k \<noteq> XK_Escape" "k \<noteq> XK_BackSpace" "k \<noteq> XK_Return"
  shows "\<exists>cb'. chatbox_read_input m c cb (Some (Key_Release ev)) msg = Inr (0, cb', msg) \<and>
    shows_line cb' (fst (edit k s)) \<and> cb_msgs cb' = cb_msgs cb \<and> cb_works cb'"
proof -
  let ?b = "cb_buffer_len cb"
  have S: "length s < MAX_MSG_SIZE" "nul \<notin> set s" "unat ?b = length s"
    "cb_input_buffer cb = s @ replicate (MAX_MSG_SIZE - length s) nul"
    using assms(1) by (auto simp: shows_line_def)
  show ?thesis
  proof (cases "length s < 255 \<and> typed k \<noteq> None")
    case False
    then have "\<not> (uint ?b < 255 \<and> 0 < sint (ucast k :: u8))"
      using S(3) by (auto simp: u8_step typed_def Let_def)
    moreover have "fst (edit k s) = s" using False assms(4-6) by (auto simp: edit_def split: option.splits)
    ultimately show ?thesis
      using assms store_end_nul [OF S(1)] S(3) unfolding S(4) [symmetric]
      by (auto simp: chatbox_read_input_def Let_def)
  next
    case True
    then obtain x where x: "typed k = Some x" "length s < 255" by auto
    then have a: "0 < sint (ucast k :: u8)" "x = byte_of (unat (ucast k :: u8))"
      by (auto simp: typed_def Let_def split: if_splits)
    define t where "t = s @ [x]"
    define buf where "buf = t @ replicate (MAX_MSG_SIZE - length t) nul"
    have st: "store_char (cb_input_buffer cb) (length s) x = Inr buf"
      using store_char_end [OF S(1), of x] by (simp add: S(4) buf_def t_def)
    have l: "length t < MAX_MSG_SIZE" using x(2) by (simp add: MAX_MSG_SIZE_def t_def)
    have fin: "store_char buf (length t) nul = Inr buf" unfolding buf_def by (rule store_end_nul [OF l])
    have len: "unat (?b + 1) = length t" "uint ?b < 255" using S(3) x(2) by (simp_all add: u8_step t_def)
    let ?cb = "cb\<lparr>cb_buffer_len := ?b + 1, cb_input_buffer := buf\<rparr>"
    have line: "shows_line ?cb t"
      using S l len typed_not_nul [OF x(1)] by (simp add: shows_line_def buf_def) (simp add: t_def)
    have "cb_works ?cb" using assms(2) by simp
    from input_draw_ok(2) [OF this line refl] obtain log where
      draw: "input_draw_helper buf ?cb = Inr (?cb\<lparr>cb_screen := log\<rparr>)" by auto
    have "shows_line (?cb\<lparr>cb_screen := log, cb_input_buffer := buf\<rparr>) t"
      using line by (simp add: shows_line_def)
    moreover have "fst (edit k s) = t" using assms(4-6) x by (simp add: edit_def t_def)
    ultimately show ?thesis
      using assms st fin draw a S(3) len by (simp add: chatbox_read_input_def Let_def)
  qed
qed

lemma read_key_edits:
  assumes "shows_line cb s" and "cb_works cb" and "length msg = MAX_MSG_SIZE"
    and "released_keysym m c ev = Inr k" and "k \<noteq> XK_Escape"
  shows "\<exists>r cb' msg'. chatbox_read_input m c cb (Some (Key_Release ev)) msg = Inr (r, cb', msg') \<and>
    shows_line cb' (fst (edit k s)) \<and> cb_msgs cb' = cb_msgs cb \<and> cb_works cb' \<and>
    length msg' = MAX_MSG_SIZE \<and>
    (case snd (edit k s) of
       None \<Rightarrow> r = 0 \<and> msg' = msg
     | Some t \<Rightarrow> r = int (length t) \<and> msg' = t @ drop (length t) msg)"
proof -
  consider "k = XK_BackSpace" | "k = XK_Return" | (other) "k \<noteq> XK_BackSpace" "k \<noteq> XK_Return" by blast
  then show ?thesis
  proof cases
    case 1
    with backspace_code [OF assms(1,2), of m c ev msg] assms(3,4) show ?thesis
      by (auto simp: edit_def)
  next
    case 2
    with return_code [OF assms(1,2) _ assms(3), of m c ev] assms(1,3,4) show ?thesis
      by (auto simp: edit_def shows_line_def)
  next
    case other
    moreover from this have "snd (edit k s) = None" using assms(5) by (simp add: edit_def split: option.split)
    ultimately show ?thesis
      using other_code [OF assms(1,2,4,5) other, of msg] assms(3) by auto
  qed
qed

text \<open>
  A typing session: the messages that the caller sees, a result other than 0 being the length of
  one, and the same for the editor.
\<close>

fun run_keys ::
    "bool \<Rightarrow> xcb_connection \<Rightarrow> key_event list \<Rightarrow> chatbox \<Rightarrow> char list
      \<Rightarrow> (string list \<times> chatbox \<times> char list) outcome" where
  "run_keys m c [] cb msg = Inr ([], cb, msg)"
| "run_keys m c (ev # evs) cb msg =
     and_then (chatbox_read_input m c cb (Some (Key_Release ev)) msg) (\<lambda>(r, cb, msg).
     and_then (run_keys m c evs cb msg) (\<lambda>(ms, cb', msg').
     Inr (if r \<noteq> 0 then take (nat r) msg # ms else ms, cb', msg')))"

fun edit_all :: "u32 list \<Rightarrow> string \<Rightarrow> string list \<times> string" where
  "edit_all [] s = ([], s)"
| "edit_all (k # ks) s =
     (case edit k s of (s', sent) \<Rightarrow>
      case edit_all ks s' of (ms, s'') \<Rightarrow>
        (case sent of Some m \<Rightarrow> (if m = [] then ms else m # ms) | None \<Rightarrow> ms, s''))"

lemma run_keys_edit:
  assumes "shows_line cb s" and "cb_works cb" and "length msg = MAX_MSG_SIZE"
    and "\<And>ev. ev \<in> set evs \<Longrightarrow> released_keysym m c ev = Inr (f ev)"
    and "XK_Escape \<notin> f ` set evs"
  shows "\<exists>cb' msg'. run_keys m c (evs @ evs') cb msg =
      and_then (run_keys m c evs' cb' msg') (\<lambda>(ms, cb, msg).
        Inr (fst (edit_all (map f evs) s) @ ms, cb, msg)) \<and>
    shows_line cb' (snd (edit_all (map f evs) s)) \<and> cb_msgs cb' = cb_msgs cb \<and>
    cb_works cb' \<and> length msg' = MAX_MSG_SIZE"
  using assms
proof (induction evs arbitrary: cb s msg)
  case Nil
  then show ?case
    by (intro exI [of _ cb] exI [of _ msg]) (auto simp: and_then_def split: sum.split)
next
  case (Cons ev evs)
  let ?k = "f ev"
  obtain s' sent where e: "edit ?k s = (s', sent)" by (cases "edit ?k s")
  have "released_keysym m c ev = Inr ?k" "?k \<noteq> XK_Escape" using Cons.prems(4,5) by auto
  from read_key_edits [OF Cons.prems(1-3) this] e obtain r cb1 msg1 where
      r: "chatbox_read_input m c cb (Some (Key_Release ev)) msg = Inr (r, cb1, msg1)"
      "shows_line cb1 s'" "cb_msgs cb1 = cb_msgs cb" "cb_works cb1" "length msg1 = MAX_MSG_SIZE"
      "case sent of None \<Rightarrow> r = 0 \<and> msg1 = msg
       | Some t \<Rightarrow> r = int (length t) \<and> msg1 = t @ drop (length t) msg"
    by auto
  have "\<exists>cb' msg'. run_keys m c (evs @ evs') cb1 msg1 =
      and_then (run_keys m c evs' cb' msg') (\<lambda>(ms, cb, msg).
        Inr (fst (edit_all (map f evs) s') @ ms, cb, msg)) \<and>
    shows_line cb' (snd (edit_all (map f evs) s')) \<and> cb_msgs cb' = cb_msgs cb1 \<and>
    cb_works cb' \<and> length msg' = MAX_MSG_SIZE"
    by (rule Cons.IH [OF r(2,4,5)]) (use Cons.prems(4,5) in auto)
  then obtain cb' msg' where
    ih: "run_keys m c (evs @ evs') cb1 msg1 =
      and_then (run_keys m c evs' cb' msg') (\<lambda>(ms, cb, msg).
        Inr (fst (edit_all (map f evs) s') @ ms, cb, msg))"
    "shows_line cb' (snd (edit_all (map f evs) s'))" "cb_msgs cb' = cb_msgs cb1"
    "cb_works cb'" "length msg' = MAX_MSG_SIZE" by blast
  obtain ms s'' where t: "edit_all (map f evs) s' = (ms, s'')" by (cases "edit_all (map f evs) s'")
  show ?case
    using ih r(1,3,6) e t
    by (intro exI [of _ cb'] exI [of _ msg'])
      (auto simp: and_then_assoc and_then_def split: sum.split option.splits)
qed

text \<open>The symbols of the keys, on a working connection; the columns are those of one group.\<close>

definition pressed :: "xcb_connection \<Rightarrow> keyboard_mapping \<Rightarrow> key_event \<Rightarrow> u32" where
  "pressed c reply ev =
     (if ev_detail ev < xc_min c \<or> xc_max c < ev_detail ev then NoSymbol
      else key_symbol c reply (ev_detail ev) (if ev_state ev AND 1 \<noteq> 0 \<or> ev_state ev AND 2 \<noteq> 0 then 1 else 0))"

lemma released_keysym_pressed:
  assumes "xc_mapping c = Some reply" and "mapping_ok c reply" and "\<not> xc_error c"
  shows "released_keysym True c ev = Inr (pressed c reply ev)"
proof (cases "ev_detail ev < xc_min c \<or> xc_max c < ev_detail ev")
  case True
  then show ?thesis
    using assms by (auto simp: released_keysym_def xcb_key_release_lookup_keysym_def pressed_def
        xcb_key_symbols_get_keysym_def xcb_key_symbols_alloc_def xcb_key_symbols_get_reply_def Let_def)
next
  case False
  then have range: "xc_min c \<le> ev_detail ev" "ev_detail ev \<le> xc_max c" by (auto simp: not_less)
  note get = get_keysym_code [OF assms range]
  show ?thesis
    using get [of 0] get [of 1] False
    by (auto simp: released_keysym_def xcb_key_release_lookup_keysym_def pressed_def)
qed

text \<open>
  Where the server does not have the font, whatever draws uses the freed connection: the first event
  to show the window, and the return and backspace keys.
\<close>

lemma no_font_faults:
  assumes "\<not> da_open_font (cb_draw cb)"
    and "e = Expose \<or> (\<exists>ev. e = Key_Release ev \<and> released_keysym m c ev \<in> {Inr XK_Return, Inr XK_BackSpace})"
  shows "chatbox_read_input m c cb (Some e) msg \<noteq> Inr r"
proof -
  have "input_draw_helper b cb' \<noteq> Inr r" if "\<not> da_open_font (cb_draw cb')" for b cb' r
    using that text_draw_no_font by (simp add: input_draw_helper_def)
  then show ?thesis
    using assms text_draw_no_font [OF assms(1)]
    by (auto simp: chatbox_read_input_def elim!: and_then_InrE split: if_splits)
qed

section \<open>The history\<close>

definition history_ok :: "chatbox \<Rightarrow> bool" where
  "history_ok cb \<longleftrightarrow> length (cb_msgs cb) = NUMBER_OF_MSGS \<and>
     (\<forall>row \<in> set (cb_msgs cb). length row = MAX_MSG_SIZE)"

lemma roll_loop_shift:
  assumes "i < length msgs" and "\<forall>row \<in> set msgs. length row = MAX_MSG_SIZE"
  shows "roll_loop i msgs = Inr (hd msgs # take i msgs @ drop (Suc i) msgs)"
  using assms
proof (induction i arbitrary: msgs)
  case 0
  then show ?case by (cases msgs) auto
next
  case (Suc i)
  have row: "blit (msgs ! Suc i) 0 (take MAX_MSG_SIZE (msgs ! i)) = Inr (msgs ! i)"
    using Suc.prems by (simp add: blit_def)
  let ?m = "msgs[Suc i := msgs ! i]"
  have ok: "\<forall>row \<in> set ?m. length row = MAX_MSG_SIZE"
    using Suc.prems set_update_subset_insert [of msgs "Suc i" "msgs ! i"] by auto
  from Suc.IH [OF _ ok] Suc.prems have "roll_loop (Suc i) msgs = Inr (hd ?m # take i ?m @ drop (Suc i) ?m)"
    using row by simp
  moreover have "hd ?m = hd msgs" using Suc.prems by (cases msgs) auto
  moreover have "drop (Suc i) ?m = msgs ! i # drop (Suc (Suc i)) msgs"
    using Suc.prems Cons_nth_drop_Suc [of "Suc i" ?m] by simp
  moreover have "take (Suc i) msgs = take i msgs @ [msgs ! i]"
    using Suc.prems by (simp add: take_Suc_conv_app_nth)
  ultimately show ?case by simp
qed

lemma roll_messages_eq:
  assumes "history_ok cb" and "len < 2 ^ 31" and "len \<le> length payload"
  shows "roll_messages cb payload (int len) =
    (if len \<le> MAX_MSG_SIZE
     then Inr (cb\<lparr>cb_msgs := (take len payload @ replicate (MAX_MSG_SIZE - len) nul) # butlast (cb_msgs cb)\<rparr>)
     else Inl Out_Of_Bounds)"
proof -
  have msgs: "length (cb_msgs cb) = 10" "\<forall>row \<in> set (cb_msgs cb). length row = MAX_MSG_SIZE"
    using assms(1) by (simp_all add: history_ok_def NUMBER_OF_MSGS_def)
  have "roll_loop 9 (cb_msgs cb) = Inr (hd (cb_msgs cb) # butlast (cb_msgs cb))"
    using roll_loop_shift [OF _ msgs(2), of 9] msgs(1) by (simp add: butlast_conv_take)
  moreover have "size_t (int len) = len" using assms(2) by (simp add: size_t_def)
  ultimately show ?thesis
    using assms(3) by (simp add: roll_messages_def NUMBER_OF_MSGS_def blit_def)
qed

text \<open>The texts of the rows, and what drawing them leaves on the screen.\<close>

definition row_text :: "char list \<Rightarrow> string" where
  "row_text row = takeWhile (\<lambda>c. c \<noteq> nul) row"

definition drawn_row :: "char list list \<Rightarrow> nat \<Rightarrow> (int \<times> string) list" where
  "drawn_row msgs i = [(HEIGHT - 20 * int i - 100, replicate 255 space),
     (HEIGHT - 20 * int i - 100, row_text (msgs ! i))]"

lemma row_text_short: "nul \<in> set row \<Longrightarrow> length (row_text row) < length row"
  unfolding row_text_def by (induction row) auto

lemma take_u8: "length s < 256 \<Longrightarrow> take (unat (of_nat (length s) :: u8)) s = s"
  by (simp add: unat_of_nat)

lemma update_rows_ok:
  assumes "cb_works cb" and "\<forall>row \<in> set (cb_msgs cb). length row = MAX_MSG_SIZE \<and> nul \<in> set row"
    and "\<forall>i \<in> set is. i < length (cb_msgs cb)"
  shows "update_rows is cb =
    Inr (cb\<lparr>cb_screen := cb_screen cb @ concat (map (drawn_row (cb_msgs cb)) is)\<rparr>)"
  using assms
proof (induction "is" arbitrary: cb)
  case Nil
  then show ?case by simp
next
  case (Cons i "is")
  let ?y = "HEIGHT - 20 * int i - 100"
  let ?row = "cb_msgs cb ! i"
  have row: "length ?row = MAX_MSG_SIZE" "nul \<in> set ?row" using Cons.prems by simp_all
  have "blankbuffer = replicate 255 space @ nul # []" by (simp add: blankbuffer_def MAX_MSG_SIZE_def)
  moreover have "nul \<notin> set (replicate 255 space)" by (simp add: nul_def)
  note c_str_terminated [OF this, of "[]"]
  ultimately have "c_str blankbuffer = Inr (replicate 255 space)" by (simp only:)
  then have 1: "text_clear_helper cb ?y i = Inr (cb\<lparr>cb_screen := cb_screen cb @ [(?y, replicate 255 space)]\<rparr>)"
    using Cons.prems(1) by (simp add: text_clear_helper_def text_draw_works del: replicate.simps)
  let ?cb = "cb\<lparr>cb_screen := cb_screen cb @ [(?y, replicate 255 space)]\<rparr>"
  have "drop i (cb_msgs cb) = ?row # drop (Suc i) (cb_msgs cb)"
    using Cons.prems(3) by (simp add: Cons_nth_drop_Suc)
  then have "c_str (concat (drop i (cb_msgs cb))) = Inr (row_text ?row)"
    using row(2) by (simp add: c_str_def row_text_def)
  moreover have "length (row_text ?row) < 256" using row_text_short [OF row(2)] row(1) by (simp add: MAX_MSG_SIZE_def)
  ultimately have 2: "text_draw_helper ?cb ?y i = Inr (cb\<lparr>cb_screen := cb_screen cb @ drawn_row (cb_msgs cb) i\<rparr>)"
    using Cons.prems(1) by (simp add: text_draw_helper_def text_draw_works Let_def take_u8 drawn_row_def)
  let ?cb' = "cb\<lparr>cb_screen := cb_screen cb @ drawn_row (cb_msgs cb) i\<rparr>"
  have "update_rows is ?cb' =
      Inr (?cb'\<lparr>cb_screen := cb_screen ?cb' @ concat (map (drawn_row (cb_msgs ?cb')) is)\<rparr>)"
    by (rule Cons.IH) (use Cons.prems in auto)
  then show ?case using 1 2 by simp
qed

lemma update_messages_ok:
  assumes "history_ok cb" and "cb_works cb" and "\<forall>row \<in> set (cb_msgs cb). nul \<in> set row"
  shows "update_messages cb = Inr (cb\<lparr>cb_screen := cb_screen cb @
    concat (map (drawn_row (cb_msgs cb)) [0..<NUMBER_OF_MSGS])\<rparr>)"
  using assms unfolding update_messages_def history_ok_def by (intro update_rows_ok) auto

section \<open>Properties\<close>

text \<open>A window that is typed in: \<open>a\<close>, shift and \<open>a\<close>, return, on a small keyboard.\<close>

definition typing_connection :: xcb_connection where
  "typing_connection = \<lparr>xc_error = False, xc_min = 8, xc_max = 11,
     xc_mapping = Some \<lparr>km_per = 2, km_keysyms = [XK_a, 0, 0x31, 0x21, XK_Return, 0, XK_Escape, 0]\<rparr>\<rparr>"

definition sample_display :: display where
  "sample_display = \<lparr>dp_connects = True, dp_screen = 0, dp_screens = 1, dp_window = True,
     dp_map = True, dp_draw = all_drawn\<rparr>"

text \<open>C26: \<open>chatbox_read_input\<close> is a line editor on a working keyboard: whatever keys other than escape
  are released in a window that \<open>chatbox_init\<close> has opened, no call faults, the messages handed over are those of the abstract
  editor on the symbols of the keys (printable ones append up to 255 characters, backspace deletes
  the last one, return hands the line over and empties it), and the window goes on showing the
  editor's line. After escape, which frees the connection, the next call uses freed memory.\<close>

theorem typing_session:
  assumes "chatbox_init malloc_ok d = Inr box" and "dp_draw d = all_drawn"
    and "length msg = MAX_MSG_SIZE" and "xc_mapping c = Some reply" and "mapping_ok c reply"
    and "\<not> xc_error c" and "XK_Escape \<notin> pressed c reply ` set evs" and "pressed c reply esc = XK_Escape"
  shows "(\<exists>cb' msg'. run_keys True c evs box msg =
      Inr (fst (edit_all (map (pressed c reply) evs) []), cb', msg') \<and>
    shows_line cb' (snd (edit_all (map (pressed c reply) evs) [])) \<and>
    cb_msgs cb' = cb_msgs box) \<and>
    run_keys True c (evs @ esc # ev # evs') box msg = Inl Use_After_Free"
proof -
  have box: "box = new_chatbox" using assms(1,2) by (auto simp: chatbox_init_eq new_chatbox_def split: if_splits)
  have init: "cb_works box" "shows_line box []" using shows_line_init by (simp_all add: box new_chatbox_def)
  note keys = released_keysym_pressed [OF assms(4-6)]
  note run = run_keys_edit [OF init(2,1) assms(3) keys assms(7)]
  obtain cb msg1 where esc: "run_keys True c (evs @ esc # ev # evs') box msg =
      and_then (run_keys True c (esc # ev # evs') cb msg1) (\<lambda>(ms, cb, msg).
        Inr (fst (edit_all (map (pressed c reply) evs) []) @ ms, cb, msg))" "cb_works cb"
    using run [of "esc # ev # evs'"] by blast
  have "released_keysym True c esc = Inr XK_Escape" using keys [of esc] assms(8) by simp
  then have "run_keys True c (esc # ev # evs') cb msg1 = Inl Use_After_Free"
    using escape_code [OF esc(2)] by (simp add: chatbox_read_input_def [of _ _ "cb\<lparr>cb_connected := False\<rparr>"])
  with esc(1) run [of "[]"] show ?thesis by auto
qed

theorem typing_session_witness:
  "(\<exists>cb' msg'. run_keys True typing_connection [\<lparr>ev_detail = 8, ev_state = 0\<rparr>,
        \<lparr>ev_detail = 8, ev_state = 1\<rparr>, \<lparr>ev_detail = 10, ev_state = 0\<rparr>] new_chatbox (replicate MAX_MSG_SIZE space) =
      Inr (fst (edit_all (map (pressed typing_connection (the (xc_mapping typing_connection)))
        [\<lparr>ev_detail = 8, ev_state = 0\<rparr>, \<lparr>ev_detail = 8, ev_state = 1\<rparr>, \<lparr>ev_detail = 10, ev_state = 0\<rparr>]) []),
        cb', msg') \<and>
    shows_line cb' (snd (edit_all (map (pressed typing_connection (the (xc_mapping typing_connection)))
        [\<lparr>ev_detail = 8, ev_state = 0\<rparr>, \<lparr>ev_detail = 8, ev_state = 1\<rparr>, \<lparr>ev_detail = 10, ev_state = 0\<rparr>]) [])) \<and>
    cb_msgs cb' = cb_msgs new_chatbox) \<and>
    run_keys True typing_connection ([\<lparr>ev_detail = 8, ev_state = 0\<rparr>, \<lparr>ev_detail = 8, ev_state = 1\<rparr>,
        \<lparr>ev_detail = 10, ev_state = 0\<rparr>] @ \<lparr>ev_detail = 11, ev_state = 0\<rparr> # \<lparr>ev_detail = 8, ev_state = 0\<rparr> # [])
      new_chatbox (replicate MAX_MSG_SIZE space) = Inl Use_After_Free"
  by (rule typing_session [where malloc_ok = True and d = sample_display])
    (simp_all add: chatbox_init_eq sample_display_def new_chatbox_def typing_connection_def mapping_ok_def pressed_def key_symbol_def key_row_def
      documented_list_def group_symbol_def xcb_convert_case_def cased_def Let_def)

text \<open>C40: \<open>roll_messages\<close> puts a message of at most 256 bytes on top of the history, moves the others
  down by one row and drops the oldest; a longer message overruns its row. The server sends up to
  263 bytes, a name of 7 characters and a colon before a line of 255.\<close>

theorem roll_messages_shifts:
  assumes "history_ok cb" and "len < 2 ^ 31" and "len \<le> length payload"
  shows "roll_messages cb payload (int len) =
    (if len \<le> MAX_MSG_SIZE
     then Inr (cb\<lparr>cb_msgs := (take len payload @ replicate (MAX_MSG_SIZE - len) nul) # butlast (cb_msgs cb)\<rparr>)
     else Inl Out_Of_Bounds)"
  by (rule roll_messages_eq [OF assms])

theorem roll_messages_shifts_witness:
  "roll_messages new_chatbox ''bob:hi'' (int 6) =
    (if 6 \<le> MAX_MSG_SIZE
     then Inr (new_chatbox\<lparr>cb_msgs := (take 6 ''bob:hi'' @ replicate (MAX_MSG_SIZE - 6) nul) #
       butlast (cb_msgs new_chatbox)\<rparr>)
     else Inl Out_Of_Bounds)"
  by (rule roll_messages_shifts) (simp_all add: history_ok_def new_chatbox_def)

end
