(* ===== verification/Client.thy ===== *)
theory Client
  imports Hashmap Thread_Queue Wire Chatbox
begin

text \<open>
  The client of \<open>src/chat-client.c\<close>: the queues between its threads, the thread that reads from the
  server, the thread that writes to it, the windows of the groups, the commands of the terminal and
  the login dialogue. Each definition is one turn of a thread's loop; what the terminal and the
  windows deliver are arguments.
\<close>

section \<open>State\<close>

text \<open>What the queues carry behind their \<open>void\<close> pointers: packets, and group numbers of invitations.\<close>

datatype message = Packet mainhdr | Gid u8

text \<open>
  \<open>ct_queues\<close> are the queues of the groups by pointer, \<open>ct_windows\<close> the group threads started, each
  with the group number and the descriptor it read from its argument.
\<close>

record client =
  ct_heap :: "message heap"
  ct_outgoing :: threadqueue
  ct_requests :: threadqueue
  ct_queues :: "nat \<rightharpoonup> threadqueue"
  ct_queue_brk :: nat
  ct_mapping :: "nat hashmap_map"
  ct_windows :: "(u8 \<times> nat) list"
  ct_my_uid :: u16
  ct_sockfd :: nat
  ct_sock :: socket
  ct_files :: "string \<rightharpoonup> char list"

text \<open>
  What the environment decides in a turn; \<open>ce_cond\<close>, \<open>ce_mutex\<close> and \<open>ce_thread\<close> are the results of
  \<open>pthread_cond_init\<close>, \<open>pthread_mutex_init\<close> and \<open>pthread_create\<close> when a group is opened.
\<close>

record client_env =
  ce_malloc :: "nat \<Rightarrow> bool"
  ce_x :: xcb_connection
  ce_calloc :: "nat \<Rightarrow> bool"
  ce_fopen :: bool
  ce_stack :: "char list"
  ce_junk :: "nat \<Rightarrow> char"
  ce_split :: "nat \<Rightarrow> nat \<Rightarrow> char"
  ce_int :: int
  ce_cond :: int
  ce_mutex :: int
  ce_thread :: int

section \<open>Queues\<close>

definition queue_outgoing :: "mainhdr \<Rightarrow> int \<Rightarrow> client \<Rightarrow> client outcome" where
  "queue_outgoing h t cl =
     and_then (thread_queue_add (ct_heap cl) (Some (ct_outgoing cl)) (Some (Packet h)) t)
       (\<lambda>(rc, bc, heap, q). Inr (cl\<lparr>ct_heap := heap, ct_outgoing := q\<rparr>))"

definition queue_request :: "u8 \<Rightarrow> client \<Rightarrow> client outcome" where
  "queue_request gid cl =
     and_then (thread_queue_add (ct_heap cl) (Some (ct_requests cl)) (Some (Gid gid)) 0)
       (\<lambda>(rc, bc, heap, q). Inr (cl\<lparr>ct_heap := heap, ct_requests := q\<rparr>))"

definition queue_group :: "nat \<Rightarrow> mainhdr \<Rightarrow> int \<Rightarrow> client \<Rightarrow> client outcome" where
  "queue_group p h t cl =
     and_then (case ct_queues cl p of None \<Rightarrow> Inl Use_After_Free | Some q \<Rightarrow> Inr q) (\<lambda>q.
     and_then (thread_queue_add (ct_heap cl) (Some q) (Some (Packet h)) t)
       (\<lambda>(rc, bc, heap, q). Inr (cl\<lparr>ct_heap := heap, ct_queues := (ct_queues cl)(p \<mapsto> q)\<rparr>)))"

definition make_packet :: "client_env \<Rightarrow> u8 \<Rightarrow> u8 \<Rightarrow> u16 \<Rightarrow> u32 \<Rightarrow> mainhdr outcome" where
  "make_packet ce cmd gid uid len =
     deref (create_and_fill_hdr (ce_malloc ce (HDR_SIZE + unat len + 1)) cmd gid uid len (ce_junk ce))"

section \<open>Groups and their windows\<close>

text \<open>
  The argument of a group thread: 16 bytes of which the code sets two, through a pointer to bytes.
  The thread reads the group number from the first and a \<open>long int\<close> from the eight after it.
\<close>

definition thread_args :: "(nat \<Rightarrow> char) \<Rightarrow> u8 \<Rightarrow> nat \<Rightarrow> char list" where
  "thread_args junk gid sockfd = (uninit junk 16)[0 := byte_of (unat gid), 1 := byte_of sockfd]"

fun from_le :: "char list \<Rightarrow> nat" where
  "from_le [] = 0"
| "from_le (b # bs) = of_char b + 256 * from_le bs"

definition args_gid :: "char list \<Rightarrow> u8" where
  "args_gid args = of_nat (from_le (take 8 args))"

definition args_sockfd :: "char list \<Rightarrow> nat" where
  "args_sockfd args = from_le (take 8 (drop 1 args))"

abbreviation THREADQUEUE_SIZE :: nat where "THREADQUEUE_SIZE \<equiv> 128"

definition create_new_group :: "client_env \<Rightarrow> u8 \<Rightarrow> client \<Rightarrow> (int \<times> client) outcome" where
  "create_new_group ce gid cl =
     (case thread_queue_init (ce_cond ce) (ce_mutex ce)
             (if ce_malloc ce THREADQUEUE_SIZE then Some zero_queue else None) of (rc, queue) \<Rightarrow>
       if rc \<noteq> 0 then Inr (-1, cl)
       else
         (let p = ct_queue_brk cl;
              cl = cl\<lparr>ct_queues := (ct_queues cl)(p := queue), ct_queue_brk := p + 1\<rparr>
          in and_then (hashmap_put (ce_calloc ce) (ct_mapping cl) (ucast gid) (Some p))
            (\<lambda>(_, mapping).
             let cl = cl\<lparr>ct_mapping := mapping\<rparr>;
                 args = thread_args (ce_junk ce) gid (ct_sockfd cl)
             in if \<not> ce_malloc ce 16 then Inl Null_Pointer
                else if ce_thread ce \<noteq> 0 then Inr (-1, cl)
                else Inr (0, cl\<lparr>ct_windows := ct_windows cl @ [(args_gid args, args_sockfd args)]\<rparr>))))"

section \<open>The thread that reads from the server\<close>

definition cfile_name :: "u16 \<Rightarrow> u8 \<Rightarrow> u16 \<Rightarrow> string" where
  "cfile_name my_uid gid file_id = take 99 (''uid'' @ print_nat (unat my_uid) @ ''_'' @
     print_nat (unat gid) @ ''_'' @ print_nat (unat file_id) @ ''.file'')"

text \<open>One packet from the server; \<open>None\<close>: the download never ends.\<close>

definition handle_server_packet ::
    "client_env \<Rightarrow> mainhdr \<Rightarrow> client \<Rightarrow> client outcome option" where
  "handle_server_packet ce recv cl =
     (if hdr_cmd recv = SEND_CHAT then Some (
        and_then (c_str (hdr_payload recv)) (\<lambda>_.
        and_then (hashmap_get (ct_mapping cl) (ucast (hdr_gid recv))) (\<lambda>(status, queue).
        if status = MAP_OK then
          and_then (deref queue) (\<lambda>p. queue_group p recv (uint SEND_CHAT) cl)
        else Inr cl)))
      else if hdr_cmd recv = INVITE then
        Some (if ce_malloc ce 1 then queue_request (hdr_gid recv) cl else Inl Null_Pointer)
      else if hdr_cmd recv = ACTIVE_LIST then
        Some (and_then (c_str (hdr_payload recv)) (\<lambda>_. Inr cl))
      else if hdr_cmd recv = CREATE_GROUP then
        Some (case hdr_payload recv of
            [] \<Rightarrow> Inl Out_Of_Bounds
          | c # _ \<Rightarrow>
              if c = nul then and_then (create_new_group ce (hdr_gid recv) cl) (\<lambda>(_, cl). Inr cl)
              else Inr cl)
      else if hdr_cmd recv = SEND_FILE then
        map_option (\<lambda>res. and_then res (\<lambda>(_, content, s').
            let filename = cfile_name (ct_my_uid cl) (hdr_gid recv) (hdr_uid recv);
                cl = cl\<lparr>ct_sock := s'\<rparr>
            in Inr (case content of None \<Rightarrow> cl
                    | Some _ \<Rightarrow> cl\<lparr>ct_files := (ct_files cl)(filename := content)\<rparr>)))
          (receive_to_file (ct_sock cl) (sint (hdr_len recv)) (ce_fopen ce))
      else Some (Inr cl))"

text \<open>One turn of \<open>server_read_function\<close>: whether the thread goes on, and the state.\<close>

definition server_read_turn :: "client_env \<Rightarrow> client \<Rightarrow> (bool \<times> client) outcome option" where
  "server_read_turn ce cl =
     (case read_main_header (ce_malloc ce) (ce_stack ce) (ce_junk ce) (ct_sock cl) of
        Inl e \<Rightarrow> Some (Inl e)
      | Inr (None, s) \<Rightarrow> Some (Inr (False, cl\<lparr>ct_sock := s\<rparr>))
      | Inr (Some recv, s) \<Rightarrow>
          map_option (\<lambda>res. and_then res (\<lambda>cl. Inr (True, cl)))
            (handle_server_packet ce recv (cl\<lparr>ct_sock := s\<rparr>)))"

section \<open>The thread that writes to the server\<close>

text \<open>\<open>None\<close>: the queue is empty and the thread sleeps.\<close>

definition server_write_turn :: "client \<Rightarrow> client outcome option" where
  "server_write_turn cl =
     (case thread_queue_get (ct_heap cl) (Some (ct_outgoing cl)) False True [] of
        Inl e \<Rightarrow> Some (Inl e)
      | Inr Blocked \<Rightarrow> None
      | Inr (Returned rc msg heap q) \<Rightarrow> Some (
          and_then (deref msg) (\<lambda>msg. and_then (deref (tm_data msg)) (\<lambda>data.
          case data of
            Gid g \<Rightarrow> Inl Out_Of_Bounds
          | Packet h \<Rightarrow>
              and_then (send_main_header h (ct_sock cl)) (\<lambda>(_, s).
              Inr (cl\<lparr>ct_heap := heap, ct_outgoing := the q, ct_sock := s\<rparr>))))))"

section \<open>The window of a group\<close>

text \<open>\<open>strcmp\<close> and \<open>strncmp\<close> of a buffer with a literal.\<close>

definition strcmp_eq :: "char list \<Rightarrow> string \<Rightarrow> bool outcome" where
  "strcmp_eq buf lit = strncmp_eq buf (lit @ [nul]) (length lit + 1)"

text \<open>\<open>inputs[i]\<close> of a split line.\<close>

definition input :: "char list list \<Rightarrow> nat \<Rightarrow> char list outcome" where
  "input inputs i = (if i < length inputs then Inr (inputs ! i) else Inl Out_Of_Bounds)"

definition packet_with :: "mainhdr \<Rightarrow> char list \<Rightarrow> nat \<Rightarrow> mainhdr outcome" where
  "packet_with h src n =
     and_then (strncpy (hdr_payload h) src n) (\<lambda>payload. Inr (h\<lparr>hdr_payload := payload\<rparr>))"

text \<open>
  What a line entered in the window of a group does. The boolean says that the loop goes on to the
  queue, and not with \<open>continue\<close>. The descriptor is the one the thread read from its argument: a
  file goes to the server only if that is the right one.
\<close>

definition handle_window_line ::
    "client_env \<Rightarrow> u8 \<Rightarrow> nat \<Rightarrow> char list \<Rightarrow> int \<Rightarrow> client \<Rightarrow> (bool \<times> client) outcome" where
  "handle_window_line ce gid sockfd msg_to_send msg_size cl =
     (case msg_to_send of
        [] \<Rightarrow> Inl Out_Of_Bounds
      | c # _ \<Rightarrow>
        if c = CHR ''/'' \<and> msg_size \<ge> 8 then
          and_then (split (ce_split ce) msg_to_send space) (\<lambda>(num_inputs, inputs).
          and_then (strncmp_eq msg_to_send ''/invite '' 8) (\<lambda>is_invite.
          and_then (if is_invite then Inr False
                    else if msg_size \<ge> 10 then strncmp_eq msg_to_send ''/download '' 10
                    else Inr False) (\<lambda>is_download.
          and_then (if is_invite \<or> is_download then Inr False
                    else if msg_size \<ge> 11 then strncmp_eq msg_to_send ''/send_file '' 11
                    else Inr False) (\<lambda>is_send_file.
          if is_invite then
            (if num_inputs \<noteq> 2 then Inr (False, cl)
             else
               and_then (make_packet ce INVITE gid (ct_my_uid cl) (of_int (msg_size - 8))) (\<lambda>h.
               and_then (input inputs 1) (\<lambda>arg.
               and_then (packet_with h arg (unat (hdr_len h))) (\<lambda>h.
               and_then (queue_outgoing h (uint INVITE) cl) (\<lambda>cl. Inr (True, cl))))))
          else if is_download then
            (if num_inputs < 2 then Inr (False, cl)
             else
               and_then (input inputs 1) (\<lambda>arg.
               and_then (strncpy (replicate 100 nul) arg (size_t (msg_size - 10))) (\<lambda>filename.
               and_then (c_str filename) (\<lambda>s.
               and_then (make_packet ce DOWNLOAD_FILE gid (ct_my_uid cl) (of_nat (length s))) (\<lambda>h.
               and_then (packet_with h filename (length s)) (\<lambda>h.
               and_then (queue_outgoing h (uint DOWNLOAD_FILE) cl) (\<lambda>cl. Inr (True, cl))))))))
          else if is_send_file then
            and_then (c_str msg_to_send) (\<lambda>_.
            if num_inputs < 2 then Inr (False, cl)
            else
              and_then (input inputs 1) (\<lambda>arg.
              and_then (strncpy (replicate 100 nul) arg (size_t (msg_size - 11))) (\<lambda>filename.
              and_then (c_str filename) (\<lambda>s.
              if sockfd = ct_sockfd cl
              then Inr (True, cl\<lparr>ct_sock := snd (send_file (ct_sock cl) gid (ct_my_uid cl) (ct_files cl s))\<rparr>)
              else Inr (True, cl)))))
          else Inr (True, cl)))))
        else if \<not> ce_malloc ce (HDR_SIZE + size_t msg_size) then Inl Null_Pointer
        else
          and_then (strncpy (uninit (ce_junk ce) (size_t msg_size)) msg_to_send (size_t msg_size))
            (\<lambda>payload.
          and_then (queue_outgoing \<lparr>hdr_cmd = SEND_CHAT, hdr_gid = gid, hdr_uid = ct_my_uid cl,
              hdr_len = of_int msg_size, hdr_payload = payload\<rparr> 0 cl) (\<lambda>cl. Inr (True, cl))))"

text \<open>
  The end of a turn: wait a moment for a message to the group and show it. \<open>queue\<close> is the pointer
  that the thread looked up when it started, \<open>None\<close> if it found nothing; \<open>wakes\<close> the wake-ups of
  the timed wait.
\<close>

definition show_message ::
    "nat option \<Rightarrow> message wakeup list \<Rightarrow> chatbox \<Rightarrow> client \<Rightarrow> (chatbox \<times> client) outcome" where
  "show_message queue wakes cb cl =
     (case queue of
        None \<Rightarrow> Inr (cb, cl)
      | Some p \<Rightarrow>
          and_then (case ct_queues cl p of None \<Rightarrow> Inl Use_After_Free | Some q \<Rightarrow> Inr q) (\<lambda>q.
          and_then (thread_queue_get (ct_heap cl) (Some q) True True wakes) (\<lambda>res.
          case res of
            Blocked \<Rightarrow> Inr (cb, cl)
          | Returned rc msg heap q' \<Rightarrow>
              (let cl = cl\<lparr>ct_heap := heap, ct_queues := (ct_queues cl)(p := q')\<rparr> in
               if rc \<noteq> 0 then Inr (cb, cl)
               else
                 and_then (deref msg) (\<lambda>msg. and_then (deref (tm_data msg)) (\<lambda>data.
                 case data of
                   Gid g \<Rightarrow> Inl Out_Of_Bounds
                 | Packet h \<Rightarrow>
                     and_then (roll_messages cb (hdr_payload h) (sint (hdr_len h))) (\<lambda>cb.
                     and_then (update_messages cb) (\<lambda>cb. Inr (cb, cl)))))))))"

text \<open>One turn of \<open>gui_group_function\<close>; \<open>ce_x\<close> is the connection to the X server.\<close>

abbreviation KEY_SYMBOLS_SIZE :: nat where "KEY_SYMBOLS_SIZE \<equiv> 24"

definition gui_turn ::
    "client_env \<Rightarrow> u8 \<Rightarrow> nat \<Rightarrow> nat option \<Rightarrow> xcb_event option \<Rightarrow> message wakeup list \<Rightarrow>
      chatbox \<Rightarrow> char list \<Rightarrow> client \<Rightarrow> (chatbox \<times> char list \<times> client) outcome" where
  "gui_turn ce gid sockfd queue e wakes cb msg_to_send cl =
     and_then (chatbox_read_input (ce_malloc ce KEY_SYMBOLS_SIZE) (ce_x ce) cb e msg_to_send) (\<lambda>(msg_size, cb, msg_to_send).
     and_then (if msg_size \<noteq> 0 then handle_window_line ce gid sockfd msg_to_send msg_size cl
               else Inr (True, cl)) (\<lambda>(go_on, cl).
     if go_on then and_then (show_message queue wakes cb cl) (\<lambda>(cb, cl). Inr (cb, msg_to_send, cl))
     else Inr (cb, msg_to_send, cl)))"

abbreviation CHATBOX_SIZE :: nat where "CHATBOX_SIZE \<equiv> 2904"

text \<open>
  How a group's thread starts: what it reads from its argument, the queue it looks up, and the window
  that it opens.
\<close>

definition gui_start ::
    "client_env \<Rightarrow> display \<Rightarrow> char list \<Rightarrow> client \<Rightarrow> (u8 \<times> nat \<times> nat option \<times> chatbox) outcome" where
  "gui_start ce d args cl =
     and_then (hashmap_get (ct_mapping cl) (ucast (args_gid args))) (\<lambda>(_, gid_queue).
     and_then (chatbox_init (ce_malloc ce CHATBOX_SIZE) d) (\<lambda>chatbox.
     Inr (args_gid args, args_sockfd args, gid_queue, chatbox)))"

section \<open>Commands of the terminal\<close>

text \<open>\<open>tolower\<close> on the answers that matter.\<close>

definition tolower :: "char \<Rightarrow> char" where
  "tolower c = (if c = CHR ''Y'' then CHR ''y'' else if c = CHR ''N'' then CHR ''n'' else c)"

text \<open>One pending invitation and the answer typed to it.\<close>

definition answer_invitation :: "client_env \<Rightarrow> char \<Rightarrow> client \<Rightarrow> client outcome" where
  "answer_invitation ce answer cl =
     and_then (thread_queue_get (ct_heap cl) (Some (ct_requests cl)) False True []) (\<lambda>res.
     case res of
       Blocked \<Rightarrow> Inr cl
     | Returned rc msg heap q \<Rightarrow>
         (let cl = cl\<lparr>ct_heap := heap, ct_requests := the q\<rparr> in
          and_then (deref msg) (\<lambda>msg. and_then (deref (tm_data msg)) (\<lambda>data.
          case data of
            Packet h \<Rightarrow> Inl Out_Of_Bounds
          | Gid gid \<Rightarrow>
              if tolower answer = CHR ''y'' then
                and_then (make_packet ce INVITE_RESP gid (ct_my_uid cl) 1) (\<lambda>h.
                and_then (queue_outgoing (h\<lparr>hdr_payload := (hdr_payload h)[0 := CHR ''a'']\<rparr>)
                  (uint INVITE_RESP) cl) (\<lambda>cl.
                and_then (create_new_group ce gid cl) (\<lambda>(_, cl). Inr cl)))
              else if tolower answer = CHR ''n'' then
                and_then (make_packet ce INVITE_RESP gid (ct_my_uid cl) 1) (\<lambda>h.
                queue_outgoing (h\<lparr>hdr_payload := (hdr_payload h)[0 := CHR ''d'']\<rparr>)
                  (uint INVITE_RESP) cl)
              else Inr cl))))"

text \<open>All pending invitations, with the characters typed; \<open>None\<close>: waiting for more.\<close>

fun answer_invitations :: "client_env \<Rightarrow> string \<Rightarrow> client \<Rightarrow> client outcome option" where
  "answer_invitations ce answers cl =
     (case thread_queue_length (Some (ct_requests cl)) of
        Inl e \<Rightarrow> Some (Inl e)
      | Inr n \<Rightarrow>
          if n > 0 then
            (case answers of
               [] \<Rightarrow> None
             | a # as \<Rightarrow>
                 (case answer_invitation ce a cl of
                    Inl e \<Rightarrow> Some (Inl e)
                  | Inr cl \<Rightarrow> answer_invitations ce as cl))
          else Some (Inr cl))"

declare answer_invitations.simps [simp del]

text \<open>A command word, with or without the end of the line.\<close>

definition is_command :: "char list \<Rightarrow> string \<Rightarrow> bool outcome" where
  "is_command command lit =
     and_then (strcmp_eq command (lit @ [newline])) (\<lambda>b. if b then Inr True else strcmp_eq command lit)"

text \<open>\<open>sscanf("%d")\<close> into an uninitialised \<open>int\<close>, whose value \<open>ce_int\<close> then remains.\<close>

definition arg_gid :: "client_env \<Rightarrow> char list list \<Rightarrow> u8 outcome" where
  "arg_gid ce inputs =
     and_then (input inputs 1) (\<lambda>b. and_then (c_str b) (\<lambda>s.
     Inr (of_int (case scan_int s of Some v \<Rightarrow> v | None \<Rightarrow> ce_int ce))))"

text \<open>The text after the second space of the line.\<close>

definition after_space :: "string \<Rightarrow> string outcome" where
  "after_space s = and_then (deref (strchr s space)) (\<lambda>i. Inr (drop (i + 1) s))"

text \<open>The file name that \<open>send_file\<close> and \<open>download\<close> copy: the third word without its last character.\<close>

definition arg_filename :: "char list list \<Rightarrow> char list outcome" where
  "arg_filename inputs =
     and_then (input inputs 2) (\<lambda>b. and_then (c_str b) (\<lambda>s.
     strncpy (replicate 100 nul) b (size_t (int (length s) - 1))))"

definition handle_user_command :: "client_env \<Rightarrow> string \<Rightarrow> client \<Rightarrow> client outcome" where
  "handle_user_command ce line cl =
     and_then (split (ce_split ce) (line @ [nul]) space) (\<lambda>(num_inputs, inputs).
     and_then (input inputs 0) (\<lambda>command.
     and_then (is_command command ''new_group'') (\<lambda>is_new_group.
     if is_new_group then
       and_then (make_packet ce CREATE_GROUP 0 (ct_my_uid cl) 0) (\<lambda>h.
       queue_outgoing h (uint CREATE_GROUP) cl)
     else
     and_then (is_command command ''active_list'') (\<lambda>is_active_list.
     if is_active_list then
       and_then (make_packet ce ACTIVE_LIST 0 (ct_my_uid cl) 0) (\<lambda>h.
       queue_outgoing h (uint ACTIVE_LIST) cl)
     else
     and_then (is_command command ''invite'') (\<lambda>is_invite.
     if is_invite then
       (if num_inputs \<noteq> 3 then Inr cl
        else
          and_then (arg_gid ce inputs) (\<lambda>gid.
          and_then (input inputs 2) (\<lambda>b. and_then (c_str b) (\<lambda>s.
          and_then (make_packet ce INVITE gid (ct_my_uid cl) (of_int (int (length s) - 1))) (\<lambda>h.
          and_then (packet_with h b (unat (hdr_len h))) (\<lambda>h.
          queue_outgoing h (uint INVITE) cl))))))
     else
     and_then (is_command command ''send'') (\<lambda>is_send.
     if is_send then
       (if num_inputs < 3 then Inr cl
        else
          and_then (arg_gid ce inputs) (\<lambda>gid.
          and_then (after_space line) (\<lambda>rest. and_then (after_space rest) (\<lambda>text.
          and_then (make_packet ce SEND_CHAT gid (ct_my_uid cl) (of_int (int (length text) - 1))) (\<lambda>h.
          and_then (packet_with h (text @ [nul]) (size_t (int (length text) - 1))) (\<lambda>h.
          queue_outgoing h (uint SEND_CHAT) cl))))))
     else
     and_then (is_command command ''send_file'') (\<lambda>is_send_file.
     if is_send_file then
       (if num_inputs < 3 then Inr cl
        else
          and_then (arg_filename inputs) (\<lambda>filename.
          and_then (arg_gid ce inputs) (\<lambda>gid.
          and_then (c_str filename) (\<lambda>s.
          Inr (cl\<lparr>ct_sock := snd (send_file (ct_sock cl) gid (ct_my_uid cl) (ct_files cl s))\<rparr>)))))
     else
     and_then (is_command command ''download'') (\<lambda>is_download.
     if is_download then
       (if num_inputs < 3 then Inr cl
        else
          and_then (arg_filename inputs) (\<lambda>filename.
          and_then (arg_gid ce inputs) (\<lambda>gid.
          and_then (c_str filename) (\<lambda>s.
          and_then (make_packet ce DOWNLOAD_FILE gid (ct_my_uid cl) (of_nat (length s))) (\<lambda>h.
          and_then (packet_with h filename (length s)) (\<lambda>h.
          queue_outgoing h (uint DOWNLOAD_FILE) cl))))))
     else Inr cl))))))))"

text \<open>One turn of \<open>handle_user_input\<close>; a line of length 0 is the end of the input.\<close>

definition user_turn :: "client_env \<Rightarrow> string \<Rightarrow> string \<Rightarrow> client \<Rightarrow> client outcome option" where
  "user_turn ce answers line cl =
     map_option (\<lambda>r. and_then r (\<lambda>cl.
       if line = [] then Inr cl else handle_user_command ce line cl))
     (answer_invitations ce answers cl)"

section \<open>The login dialogue\<close>

text \<open>
  Sending credentials and reading the answer; a failed read gives \<open>NULL\<close>, which the code
  dereferences. The names come from \<open>scanf("%7s")\<close> and \<open>scanf("%127s")\<close>, and \<open>junk\<close> is the header
  that \<open>malloc\<close> returns.
\<close>

definition exchange ::
    "client_env \<Rightarrow> u8 \<Rightarrow> mainhdr \<Rightarrow> string \<Rightarrow> string \<Rightarrow> client \<Rightarrow> (mainhdr \<times> client) outcome" where
  "exchange ce cmd junk username password cl =
     and_then (send_main_header ((fill_username_password junk username password)\<lparr>hdr_cmd := cmd\<rparr>)
       (ct_sock cl)) (\<lambda>(_, s).
     and_then (read_main_header (ce_malloc ce) (ce_stack ce) (ce_junk ce) s) (\<lambda>(response, s).
     and_then (deref response) (\<lambda>response. Inr (response, cl\<lparr>ct_sock := s\<rparr>))))"

definition answer_code :: "mainhdr \<Rightarrow> nat outcome" where
  "answer_code h = (case hdr_payload h of [] \<Rightarrow> Inl Out_Of_Bounds | c # _ \<Rightarrow> Inr (of_char c))"

text \<open>One turn of the dialogue: whether the user is logged in.\<close>

definition login_turn ::
    "client_env \<Rightarrow> char \<Rightarrow> mainhdr \<Rightarrow> string \<Rightarrow> string \<Rightarrow> client \<Rightarrow> (bool \<times> client) outcome" where
  "login_turn ce answer junk username password cl =
     (if tolower answer = CHR ''y'' then
        and_then (exchange ce USR_LOGIN junk username password cl) (\<lambda>(response, cl).
        if hdr_cmd response = USR_LOGIN then
          and_then (answer_code response) (\<lambda>code.
          if code = 0 then Inr (True, cl\<lparr>ct_my_uid := hdr_uid response\<rparr>) else Inr (False, cl))
        else Inr (False, cl))
      else if tolower answer = CHR ''n'' then
        and_then (exchange ce USR_CREATE junk username password cl) (\<lambda>(response, cl).
        if hdr_cmd response = USR_CREATE then
          and_then (answer_code response) (\<lambda>code.
          if code = 0 then
            and_then (exchange ce USR_LOGIN junk username password cl) (\<lambda>(response, cl).
            and_then (answer_code response) (\<lambda>code.
            if code = 0 then Inr (True, cl\<lparr>ct_my_uid := hdr_uid response\<rparr>) else Inr (False, cl)))
          else Inr (False, cl))
        else Inr (False, cl))
      else Inr (False, cl))"

text \<open>The state in which \<open>main\<close> starts the dialogue, connected to the server.\<close>

definition init_client ::
    "nat hashmap_map \<Rightarrow> message heap \<Rightarrow> nat \<Rightarrow> socket \<Rightarrow> (string \<rightharpoonup> char list) \<Rightarrow> client" where
  "init_client mapping heap fd s files =
     \<lparr>ct_heap = heap, ct_outgoing = zero_queue, ct_requests = zero_queue, ct_queues = Map.empty,
      ct_queue_brk = 0, ct_mapping = mapping, ct_windows = [], ct_my_uid = 0, ct_sockfd = fd,
      ct_sock = s, ct_files = files\<rparr>"

section \<open>The main function\<close>

text \<open>
  What the calls of \<open>main\<close> return: the address that \<open>inet_pton\<close> finds, the connection behind the
  descriptor if \<open>connect\<close> succeeds, the two results in each \<open>thread_queue_init\<close>, those of
  \<open>pthread_create\<close>, and how many nodes \<open>malloc\<close> can give to the queues.
\<close>

record client_calls =
  cc_socket :: int
  cc_pton :: "string \<Rightarrow> char list option"
  cc_connect :: "int \<Rightarrow> char list \<Rightarrow> socket option"
  cc_malloc :: bool
  cc_calloc :: bool
  cc_init :: "nat \<Rightarrow> int \<times> int"
  cc_create :: "nat \<Rightarrow> int"
  cc_nodes :: nat

text \<open>
  \<open>main\<close> up to the login. The state is \<open>None\<close> if there was no memory for the map of groups; nothing
  tests that null pointer before the first group uses it.
\<close>

definition client_setup ::
    "client_calls \<Rightarrow> string list \<Rightarrow> (string \<rightharpoonup> char list) \<Rightarrow> client option started" where
  "client_setup cc argv files =
     (if length argv \<noteq> 3 then Returns (-1)
      else let sockfd = cc_socket cc in
        if sockfd < 0 then Returns (-1)
        else case cc_pton cc (argv ! 1) of
          None \<Rightarrow> Returns (-1)
        | Some addr \<Rightarrow>
            (case cc_connect cc sockfd (sockaddr_in nul (atoi (argv ! 2)) addr) of
               None \<Rightarrow> Returns (-1)
             | Some s \<Rightarrow>
                 let mapping = hashmap_new (cc_malloc cc) (cc_calloc cc) in
                 if fst (thread_queue_init (fst (cc_init cc 0)) (snd (cc_init cc 0)) (Some zero_queue)) \<noteq> 0
                 then Returns (-1)
                 else if fst (thread_queue_init (fst (cc_init cc 1)) (snd (cc_init cc 1)) (Some zero_queue)) \<noteq> 0
                 then Returns (-1)
                 else Running (map_option (\<lambda>mapping.
                   init_client mapping (empty_heap (cc_nodes cc)) (nat sockfd) s files) mapping)))"

text \<open>The loop of the dialogue over the answers typed; \<open>None\<close>: waiting for more.\<close>

type_synonym dialogue = "client_env \<times> char \<times> mainhdr \<times> string \<times> string"

fun login_loop :: "dialogue list \<Rightarrow> client \<Rightarrow> client outcome option" where
  "login_loop [] cl = None"
| "login_loop ((ce, answer, junk, username, password) # ds) cl =
     (case login_turn ce answer junk username password cl of
        Inl e \<Rightarrow> Some (Inl e)
      | Inr (logged_in, cl) \<Rightarrow> if logged_in then Some (Inr cl) else login_loop ds cl)"

text \<open>The two threads that \<open>main\<close> creates after the login.\<close>

definition client_threads :: "client_calls \<Rightarrow> client \<Rightarrow> client started" where
  "client_threads cc cl =
     (if cc_create cc 0 \<noteq> 0 then Returns (-1)
      else if cc_create cc 1 \<noteq> 0 then Returns (-1)
      else Running cl)"

section \<open>Lemmas\<close>

lemma thread_queue_init_rc:
  "fst (thread_queue_init a b (Some q)) = 0 \<longleftrightarrow> a = 0 \<and> b = 0"
  by (simp add: thread_queue_init_def)

lemma client_setup_running:
  "client_setup cc argv files = Running cl \<longleftrightarrow> length argv = 3 \<and> 0 \<le> cc_socket cc \<and>
     cc_init cc 0 = (0, 0) \<and> cc_init cc 1 = (0, 0) \<and>
     (\<exists>addr s. cc_pton cc (argv ! 1) = Some addr \<and>
       cc_connect cc (cc_socket cc) (sockaddr_in nul (atoi (argv ! 2)) addr) = Some s \<and>
       cl = map_option (\<lambda>mapping. init_client mapping (empty_heap (cc_nodes cc)) (nat (cc_socket cc)) s files)
         (hashmap_new (cc_malloc cc) (cc_calloc cc)))"
  by (cases "cc_init cc 0"; cases "cc_init cc 1")
    (auto simp: client_setup_def Let_def thread_queue_init_rc split: option.splits)

lemma queue_outgoing_ok:
  assumes "tq_inv (ct_heap cl, ct_outgoing cl)" and "h_left (ct_heap cl) \<noteq> 0"
  shows "\<exists>heap q. queue_outgoing h t cl = Inr (cl\<lparr>ct_heap := heap, ct_outgoing := q\<rparr>) \<and>
    tq_inv (heap, q) \<and>
    tq_contents (heap, q) = tq_contents (ct_heap cl, ct_outgoing cl) @ [(Some (Packet h), t)]"
proof -
  obtain heap q where "thread_queue_add (ct_heap cl) (Some (ct_outgoing cl)) (Some (Packet h)) t =
      Inr (0, tq_contents (ct_heap cl, ct_outgoing cl) = [], heap, q)" "tq_inv (heap, q)"
      "tq_contents (heap, q) = tq_contents (ct_heap cl, ct_outgoing cl) @ [(Some (Packet h), t)]"
    using add_appends_contents [OF assms(1), of "Some (Packet h)" t] assms(2) by blast
  then show ?thesis by (intro exI [of _ heap] exI [of _ q]) (simp add: queue_outgoing_def)
qed

lemma queue_group_ok:
  assumes "ct_queues cl p = Some q" and "tq_inv (ct_heap cl, q)" and "h_left (ct_heap cl) \<noteq> 0"
  shows "\<exists>heap q'. queue_group p h t cl =
      Inr (cl\<lparr>ct_heap := heap, ct_queues := (ct_queues cl)(p \<mapsto> q')\<rparr>) \<and> tq_inv (heap, q') \<and>
    tq_contents (heap, q') = tq_contents (ct_heap cl, q) @ [(Some (Packet h), t)]"
proof -
  obtain heap q' where "thread_queue_add (ct_heap cl) (Some q) (Some (Packet h)) t =
      Inr (0, tq_contents (ct_heap cl, q) = [], heap, q')" "tq_inv (heap, q')"
      "tq_contents (heap, q') = tq_contents (ct_heap cl, q) @ [(Some (Packet h), t)]"
    using add_appends_contents [OF assms(2), of "Some (Packet h)" t] assms(3) by blast
  then show ?thesis
    using assms(1) by (intro exI [of _ heap] exI [of _ q']) (simp add: queue_group_def)
qed

lemma server_write_turn_ok:
  assumes "tq_inv (ct_heap cl, ct_outgoing cl)"
    and "tq_contents (ct_heap cl, ct_outgoing cl) = (Some (Packet h), t) # rest"
    and "sendable h" and "sk_accept (ct_sock cl) = []"
  shows "\<exists>heap q. server_write_turn cl = Some (Inr (cl\<lparr>ct_heap := heap, ct_outgoing := q,
      ct_sock := (ct_sock cl)\<lparr>sk_sent := sk_sent (ct_sock cl) @ packet h\<rparr>\<rparr>)) \<and>
    tq_inv (heap, q) \<and> tq_contents (heap, q) = rest"
proof -
  obtain heap q where "thread_queue_get (ct_heap cl) (Some (ct_outgoing cl)) False True [] =
      Inr (Returned 0 (Some \<lparr>tm_data = Some (Packet h), tm_msgtype = t,
        tm_qlength = int (length rest)\<rparr>) heap (Some q))" "tq_inv (heap, q)"
      "tq_contents (heap, q) = rest"
    using get_takes_first [OF assms(1,2), of False "[]"] by blast
  then show ?thesis
    using send_main_header_ok [OF assms(3,4)]
    by (intro exI [of _ heap] exI [of _ q]) (simp add: server_write_turn_def)
qed

text \<open>A line that is not a command becomes a chat packet with exactly that text.\<close>

lemma handle_window_line_chat:
  assumes "nul \<notin> set line" and "line \<noteq> []" and "hd line \<noteq> CHR ''/''" and "length line < 2 ^ 31"
    and "\<And>n. ce_malloc ce n"
  shows "handle_window_line ce gid sockfd (line @ tail) (int (length line)) cl =
    and_then (queue_outgoing \<lparr>hdr_cmd = SEND_CHAT, hdr_gid = gid, hdr_uid = ct_my_uid cl,
        hdr_len = of_nat (length line), hdr_payload = line\<rparr> 0 cl) (\<lambda>cl. Inr (True, cl))"
proof -
  obtain c cs where c: "line = c # cs" "c \<noteq> CHR ''/''" using assms(2,3) by (cases line) auto
  have sz: "size_t (int (length line)) = length line" using assms(4) by (simp add: size_t_def)
  have "strncpy (uninit (ce_junk ce) (length line)) (line @ tail) (length line) = Inr line"
    using strncpy_exact [of line "uninit (ce_junk ce) (length line)" tail] assms(1) by simp
  then show ?thesis
    using c(2) assms(5) sz unfolding c(1) by (simp add: handle_window_line_def)
qed

lemma server_read_chat:
  assumes "clean (ct_sock cl)" and "stream (ct_sock cl) = packet h @ rest" and "sendable h"
    and "hdr_cmd h = SEND_CHAT" and "length (ce_stack ce) = HDR_SIZE" and "\<And>n. ce_malloc ce n"
    and "hm_inv (ct_mapping cl)" and "hm_lookup (ct_mapping cl) (ucast (hdr_gid h)) = Some (Some p)"
    and "ct_queues cl p = Some q" and "tq_inv (ct_heap cl, q)" and "h_left (ct_heap cl) \<noteq> 0"
  shows "\<exists>s heap q' h'. server_read_turn ce cl = Some (Inr (True,
      cl\<lparr>ct_sock := s, ct_heap := heap, ct_queues := (ct_queues cl)(p \<mapsto> q')\<rparr>)) \<and>
    clean s \<and> stream s = rest \<and> tq_inv (heap, q') \<and>
    tq_contents (heap, q') = tq_contents (ct_heap cl, q) @ [(Some (Packet h'), uint SEND_CHAT)] \<and>
    h' = h\<lparr>hdr_payload := take (unat (hdr_len h)) (hdr_payload h) @ [nul]\<rparr>"
proof -
  let ?h = "h\<lparr>hdr_payload := take (unat (hdr_len h)) (hdr_payload h) @ [nul]\<rparr>"
  obtain s where s: "read_main_header (ce_malloc ce) (ce_stack ce) (ce_junk ce) (ct_sock cl) =
      Inr (Some ?h, s)" "clean s" "stream s = rest"
    using read_main_header_ok [OF assms(1-3) _ assms(5), of "ce_malloc ce" "ce_junk ce"] assms(4,6)
    by auto
  have str: "\<exists>t. c_str (hdr_payload ?h) = Inr t" by (simp add: c_str_def)
  let ?cl = "cl\<lparr>ct_sock := s\<rparr>"
  obtain heap q' where q: "queue_group p ?h (uint SEND_CHAT) ?cl =
      Inr (?cl\<lparr>ct_heap := heap, ct_queues := (ct_queues cl)(p \<mapsto> q')\<rparr>)" "tq_inv (heap, q')"
      "tq_contents (heap, q') = tq_contents (ct_heap cl, q) @ [(Some (Packet ?h), uint SEND_CHAT)]"
    using queue_group_ok [of ?cl p q ?h "uint SEND_CHAT"] assms(9-11) by auto
  have "server_read_turn ce cl = Some (Inr (True,
      cl\<lparr>ct_sock := s, ct_heap := heap, ct_queues := (ct_queues cl)(p \<mapsto> q')\<rparr>))"
    using s(1) str q(1) assms(4,7,8)
    by (auto simp: server_read_turn_def handle_server_packet_def hashmap_get_lookup)
  with s q show ?thesis by blast
qed

lemma show_message_ok:
  assumes "ct_queues cl p = Some q" and "tq_inv (ct_heap cl, q)"
    and "tq_contents (ct_heap cl, q) = (Some (Packet h), t) # rest"
    and "roll_messages cb (hdr_payload h) (sint (hdr_len h)) = Inr cb1" and "update_messages cb1 = Inr cb'"
  shows "\<exists>cl'. show_message (Some p) wakes cb cl = Inr (cb', cl')"
  using get_takes_first [OF assms(2,3), of True wakes] assms(1,4,5)
  by (auto simp: show_message_def Let_def)

text \<open>What the thread of a group reads from its argument.\<close>

lemma thread_args_eq:
  "thread_args junk gid fd = byte_of (unat gid) # byte_of fd # map junk [2..<16]"
  by (simp add: thread_args_def uninit_def upt_rec numeral_eq_Suc)

section \<open>Properties\<close>

text \<open>The argument of a group's thread: the group number arrives, but of the descriptor only the
  lowest byte is written and the other seven are what \<open>malloc\<close> left there, so that the descriptor
  arrives exactly when those bytes happen to be the right ones.\<close>

lemma thread_args_descriptor:
  "args_gid (thread_args junk gid fd) = gid \<and>
    (args_sockfd (thread_args junk gid fd) = fd \<longleftrightarrow> from_le (map junk [2..<9]) = fd div 256)"
proof
  have le: "from_le (byte_of n # bs) = n mod 256 + 256 * from_le bs" for n bs by simp
  have "take 8 (thread_args junk gid fd) = byte_of (unat gid) # byte_of fd # map junk [2..<8]"
    by (simp add: thread_args_eq take_map numeral_eq_Suc)
  moreover have "(256 :: u8) = 0" by simp
  then have "(of_nat (256 * k) :: u8) = 0" for k by (simp only: of_nat_mult of_nat_numeral) simp
  moreover have "unat gid mod 256 = unat gid" using unat_bound [of gid] by simp
  ultimately show "args_gid (thread_args junk gid fd) = gid"
    unfolding args_gid_def by (simp only: le of_nat_add) simp
  have "take 8 (drop 1 (thread_args junk gid fd)) = byte_of fd # map junk [2..<9]"
    by (simp add: thread_args_eq take_map numeral_eq_Suc)
  then have "args_sockfd (thread_args junk gid fd) = fd mod 256 + 256 * from_le (map junk [2..<9])"
    by (simp only: args_sockfd_def le)
  moreover have "256 * (fd div 256) + fd mod 256 = fd" by (rule mult_div_mod_eq)
  ultimately show "args_sockfd (thread_args junk gid fd) = fd \<longleftrightarrow>
      from_le (map junk [2..<9]) = fd div 256"
    by linarith
qed

end
