(* ===== verification/Client_Invariant.thy ===== *)
theory Client_Invariant
  imports Client Queue_Family
begin

text \<open>
  What holds in every state of the client of \<open>src/chat-client.c\<close>: its queues are well-formed and share
  no nodes, the \<open>void\<close> pointers in each of them point to what its reader takes them for, and the map
  of groups points to queues that exist.
\<close>

section \<open>The queues of a client\<close>

datatype channel = Outgoing | Requests | Window nat

definition chan :: "client \<Rightarrow> channel \<Rightarrow> threadqueue option" where
  "chan cl k = (case k of Outgoing \<Rightarrow> Some (ct_outgoing cl) | Requests \<Rightarrow> Some (ct_requests cl)
     | Window p \<Rightarrow> ct_queues cl p)"

lemma chan_simps [simp]:
  "chan cl Outgoing = Some (ct_outgoing cl)" "chan cl Requests = Some (ct_requests cl)"
  "chan cl (Window p) = ct_queues cl p"
  by (simp_all add: chan_def)

lemma chan_upd [simp]:
  "chan (cl\<lparr>ct_heap := h, ct_outgoing := q\<rparr>) = (chan cl)(Outgoing \<mapsto> q)"
  "chan (cl\<lparr>ct_heap := h, ct_requests := q\<rparr>) = (chan cl)(Requests \<mapsto> q)"
  "chan (cl\<lparr>ct_heap := h, ct_queues := (ct_queues cl)(p \<mapsto> q)\<rparr>) = (chan cl)(Window p \<mapsto> q)"
  "chan (cl\<lparr>ct_heap := h, ct_queues := (ct_queues cl)(p \<mapsto> q), ct_queue_brk := n\<rparr>) = (chan cl)(Window p \<mapsto> q)"
  "chan (cl\<lparr>ct_queues := (ct_queues cl)(p \<mapsto> q), ct_queue_brk := n\<rparr>) = (chan cl)(Window p \<mapsto> q)"
  by (auto simp: chan_def fun_eq_iff split: channel.split)

lemma chan_same [simp]:
  "chan (cl\<lparr>ct_sock := s\<rparr>) = chan cl" "chan (cl\<lparr>ct_files := f\<rparr>) = chan cl"
  "chan (cl\<lparr>ct_my_uid := u\<rparr>) = chan cl"
  "chan (cl\<lparr>ct_mapping := m, ct_windows := w\<rparr>) = chan cl"
  by (auto simp: chan_def fun_eq_iff split: channel.split)

definition pending :: "client \<Rightarrow> channel \<Rightarrow> (message option \<times> int) list option" where
  "pending cl = family_contents (ct_heap cl, chan cl)"

text \<open>What the reader of a channel casts the pointer of a message to.\<close>

definition carries :: "channel \<Rightarrow> message option \<times> int \<Rightarrow> bool" where
  "carries k x = (case k of Requests \<Rightarrow> (\<exists>g. fst x = Some (Gid g)) | _ \<Rightarrow> (\<exists>h. fst x = Some (Packet h)))"

lemma carries_simps [simp]:
  "carries Requests (d, t) \<longleftrightarrow> (\<exists>g. d = Some (Gid g))"
  "carries Outgoing (d, t) \<longleftrightarrow> (\<exists>h. d = Some (Packet h))"
  "carries (Window p) (d, t) \<longleftrightarrow> (\<exists>h. d = Some (Packet h))"
  by (simp_all add: carries_def)

definition groups_known :: "client \<Rightarrow> bool" where
  "groups_known cl \<longleftrightarrow> hm_inv (ct_mapping cl) \<and>
     (\<forall>g v. hm_lookup (ct_mapping cl) g = Some v \<longrightarrow> (\<exists>p \<in> dom (ct_queues cl). v = Some p)) \<and>
     (\<forall>p \<in> dom (ct_queues cl). p < ct_queue_brk cl)"

lemma groups_known_window:
  "groups_known cl \<Longrightarrow> ct_queues cl p = Some q \<Longrightarrow>
    groups_known (cl\<lparr>ct_heap := h, ct_queues := (ct_queues cl)(p \<mapsto> q')\<rparr>)"
  unfolding groups_known_def by (simp add: domI insert_absorb)

definition client_inv :: "client \<Rightarrow> bool" where
  "client_inv cl \<longleftrightarrow> family.all_pending carries (ct_heap cl, chan cl) \<and> groups_known cl"

lemma client_inv_same:
  assumes "client_inv cl" and "chan cl' = chan cl" and "ct_heap cl' = ct_heap cl"
    and "ct_mapping cl' = ct_mapping cl" and "ct_queues cl' = ct_queues cl" and "ct_queue_brk cl' = ct_queue_brk cl"
  shows "client_inv cl'"
  using assms by (simp add: client_inv_def groups_known_def)

section \<open>Operations on one queue\<close>

text \<open>A message of the right kind on the channel \<open>k\<close>; it may be dropped for lack of memory.\<close>

lemma add_typed:
  assumes "client_inv cl" and "chan cl k = Some q" and "carries k (d, t)"
  shows "\<exists>rc b h' q'. thread_queue_add (ct_heap cl) (Some q) d t = Inr (rc, b, h', q') \<and>
    family.all_pending carries (h', (chan cl)(k \<mapsto> q')) \<and>
    (family_contents (h', (chan cl)(k \<mapsto> q')) = (pending cl)(k \<mapsto> tq_contents (ct_heap cl, q) @ [(d, t)]) \<or>
      h_left (ct_heap cl) = 0 \<and> family_contents (h', (chan cl)(k \<mapsto> q')) = pending cl)"
proof -
  have all: "family.all_pending carries (ct_heap cl, chan cl)" using assms(1) by (simp add: client_inv_def)
  then have fam: "family_inv (ct_heap cl, chan cl)" by (simp add: family.all_pending_def)
  have c: "pending cl k = Some (tq_contents (ct_heap cl, q))" using assms(2) by (simp add: pending_def family_contents_def)
  from family_add [OF fam assms(2), of d t] show ?thesis
  proof
    assume "thread_queue_add (ct_heap cl) (Some q) d t = Inr (ENOMEM, False, ct_heap cl, q) \<and> h_left (ct_heap cl) = 0"
    moreover have "(chan cl)(k \<mapsto> q) = chan cl" using assms(2) by (simp add: fun_upd_idem)
    ultimately show ?thesis using all by (auto simp: pending_def)
  next
    assume "\<exists>h' q'. thread_queue_add (ct_heap cl) (Some q) d t =
        Inr (0, tq_contents (ct_heap cl, q) = [], h', q') \<and> family_inv (h', (chan cl)(k \<mapsto> q')) \<and>
      family_contents (h', (chan cl)(k \<mapsto> q')) =
        (family_contents (ct_heap cl, chan cl))(k \<mapsto> tq_contents (ct_heap cl, q) @ [(d, t)])"
    then obtain h' q' where a: "thread_queue_add (ct_heap cl) (Some q) d t =
        Inr (0, tq_contents (ct_heap cl, q) = [], h', q')" "family_inv (h', (chan cl)(k \<mapsto> q'))"
      "family_contents (h', (chan cl)(k \<mapsto> q')) = (pending cl)(k \<mapsto> tq_contents (ct_heap cl, q) @ [(d, t)])"
      by (auto simp: pending_def)
    have "family.all_pending carries (h', (chan cl)(k \<mapsto> q'))"
      using all a(2) assms(3) c by (auto simp: family.all_pending_def a(3) pending_def split: if_splits)
    with a show ?thesis by blast
  qed
qed

text \<open>Taking from a channel without waiting for other threads.\<close>

lemma get_typed:
  assumes "client_inv cl" and "chan cl k = Some q"
  shows "thread_queue_get (ct_heap cl) (Some q) timed True [] = Inr Blocked \<and> pending cl k = Some [] \<or>
    (\<exists>d t xs h' q'. thread_queue_get (ct_heap cl) (Some q) timed True [] =
        Inr (Returned 0 (Some \<lparr>tm_data = d, tm_msgtype = t, tm_qlength = int (length xs)\<rparr>) h' (Some q')) \<and>
      carries k (d, t) \<and> pending cl k = Some ((d, t) # xs) \<and>
      family.all_pending carries (h', (chan cl)(k \<mapsto> q')) \<and>
      family_contents (h', (chan cl)(k \<mapsto> q')) = (pending cl)(k \<mapsto> xs))"
proof -
  have all: "family.all_pending carries (ct_heap cl, chan cl)" using assms(1) by (simp add: client_inv_def)
  then have fam: "family_inv (ct_heap cl, chan cl)" by (simp add: family.all_pending_def)
  have c: "pending cl k = Some (tq_contents (ct_heap cl, q))" using assms(2) by (simp add: pending_def family_contents_def)
  have typed: "x \<in> set xs \<Longrightarrow> pending cl l = Some xs \<Longrightarrow> carries l x" for l x xs
    using all by (auto simp: family.all_pending_def pending_def)
  show ?thesis
  proof (cases "tq_contents (ct_heap cl, q)")
    case Nil
    have "tq_inv (ct_heap cl, q)" using family_inv_tq [OF fam assms(2)] .
    then have "tq_first q = None" using Nil by (cases rule: tq_contents_cases) simp_all
    then show ?thesis using c Nil by (simp add: thread_queue_get_def wait_loop.simps)
  next
    case (Cons x xs)
    obtain d t where x: "x = (d, t)" by (cases x)
    from family_get [OF fam assms(2), of d t xs timed "[]"] Cons x obtain h' q' where g:
      "thread_queue_get (ct_heap cl) (Some q) timed True [] =
        Inr (Returned 0 (Some \<lparr>tm_data = d, tm_msgtype = t, tm_qlength = int (length xs)\<rparr>) h' (Some q'))"
      "family_inv (h', (chan cl)(k \<mapsto> q'))"
      "family_contents (h', (chan cl)(k \<mapsto> q')) = (pending cl)(k \<mapsto> xs)"
      by (auto simp: pending_def)
    have p: "pending cl k = Some ((d, t) # xs)" using c Cons x by simp
    have "\<forall>x \<in> set xs. carries k x" using typed [OF _ p] by simp
    then have "family.all_pending carries (h', (chan cl)(k \<mapsto> q'))"
      using g(2) typed by (auto simp: family.all_pending_def g(3) split: if_splits)
    with g p typed [OF _ p, of "(d, t)"] show ?thesis by auto
  qed
qed

text \<open>The three operations that post: they never fault, and change only their own channel.\<close>

definition posts :: "channel \<Rightarrow> message option \<times> int \<Rightarrow> client \<Rightarrow> client \<Rightarrow> bool" where
  "posts k x cl cl' \<longleftrightarrow> (\<exists>xs. pending cl k = Some xs \<and> (pending cl' = (pending cl)(k \<mapsto> xs @ [x]) \<or>
     h_left (ct_heap cl) = 0 \<and> pending cl' = pending cl))"

lemma queue_outgoing_total:
  assumes "client_inv cl"
  shows "\<exists>h' q'. queue_outgoing h t cl = Inr (cl\<lparr>ct_heap := h', ct_outgoing := q'\<rparr>) \<and>
    client_inv (cl\<lparr>ct_heap := h', ct_outgoing := q'\<rparr>) \<and>
    posts Outgoing (Some (Packet h), t) cl (cl\<lparr>ct_heap := h', ct_outgoing := q'\<rparr>)"
proof -
  from add_typed [OF assms, of Outgoing "ct_outgoing cl" "Some (Packet h)" t] obtain rc b h' q' where
    "thread_queue_add (ct_heap cl) (Some (ct_outgoing cl)) (Some (Packet h)) t = Inr (rc, b, h', q')"
    "family.all_pending carries (h', (chan cl)(Outgoing \<mapsto> q'))"
    "family_contents (h', (chan cl)(Outgoing \<mapsto> q')) =
        (pending cl)(Outgoing \<mapsto> tq_contents (ct_heap cl, ct_outgoing cl) @ [(Some (Packet h), t)]) \<or>
      h_left (ct_heap cl) = 0 \<and> family_contents (h', (chan cl)(Outgoing \<mapsto> q')) = pending cl"
    by auto
  with assms show ?thesis
    by (intro exI [of _ h'] exI [of _ q'])
      (auto simp: queue_outgoing_def client_inv_def groups_known_def posts_def pending_def family_contents_def)
qed

lemma queue_request_total:
  assumes "client_inv cl"
  shows "\<exists>h' q'. queue_request g cl = Inr (cl\<lparr>ct_heap := h', ct_requests := q'\<rparr>) \<and>
    client_inv (cl\<lparr>ct_heap := h', ct_requests := q'\<rparr>) \<and>
    posts Requests (Some (Gid g), 0) cl (cl\<lparr>ct_heap := h', ct_requests := q'\<rparr>)"
proof -
  from add_typed [OF assms, of Requests "ct_requests cl" "Some (Gid g)" 0] obtain rc b h' q' where
    "thread_queue_add (ct_heap cl) (Some (ct_requests cl)) (Some (Gid g)) 0 = Inr (rc, b, h', q')"
    "family.all_pending carries (h', (chan cl)(Requests \<mapsto> q'))"
    "family_contents (h', (chan cl)(Requests \<mapsto> q')) =
        (pending cl)(Requests \<mapsto> tq_contents (ct_heap cl, ct_requests cl) @ [(Some (Gid g), 0)]) \<or>
      h_left (ct_heap cl) = 0 \<and> family_contents (h', (chan cl)(Requests \<mapsto> q')) = pending cl"
    by auto
  with assms show ?thesis
    by (intro exI [of _ h'] exI [of _ q'])
      (auto simp: queue_request_def client_inv_def groups_known_def posts_def pending_def family_contents_def)
qed

lemma queue_group_total:
  assumes "client_inv cl" and "ct_queues cl p = Some q"
  shows "\<exists>h' q'. queue_group p h t cl = Inr (cl\<lparr>ct_heap := h', ct_queues := (ct_queues cl)(p \<mapsto> q')\<rparr>) \<and>
    client_inv (cl\<lparr>ct_heap := h', ct_queues := (ct_queues cl)(p \<mapsto> q')\<rparr>) \<and>
    posts (Window p) (Some (Packet h), t) cl (cl\<lparr>ct_heap := h', ct_queues := (ct_queues cl)(p \<mapsto> q')\<rparr>)"
proof -
  from add_typed [OF assms(1), of "Window p" q "Some (Packet h)" t] assms(2) obtain rc b h' q' where
    "thread_queue_add (ct_heap cl) (Some q) (Some (Packet h)) t = Inr (rc, b, h', q')"
    "family.all_pending carries (h', (chan cl)(Window p \<mapsto> q'))"
    "family_contents (h', (chan cl)(Window p \<mapsto> q')) =
        (pending cl)(Window p \<mapsto> tq_contents (ct_heap cl, q) @ [(Some (Packet h), t)]) \<or>
      h_left (ct_heap cl) = 0 \<and> family_contents (h', (chan cl)(Window p \<mapsto> q')) = pending cl"
    by auto
  with assms show ?thesis
    by (intro exI [of _ h'] exI [of _ q'])
      (auto simp: queue_group_def client_inv_def groups_known_window posts_def pending_def family_contents_def)
qed

section \<open>Groups\<close>

lemma put_mapping:
  assumes "hm_inv m" and "hashmap_put ok m g v = Inr (r, m')"
  shows "hm_inv m' \<and> (hm_lookup m' = (hm_lookup m)(g \<mapsto> v) \<or> m' = m)"
proof (cases rule: hashmap_put_cases [OF assms(1), of ok g v])
  case (1 m2)
  then show ?thesis using assms hashmap_put_correct [OF assms(1) 1(1), of ok g v] by auto
qed (use assms in auto)

lemma create_new_group_cases:
  assumes "create_new_group ce gid cl = Inr (r, cl')"
  obtains "cl' = cl" "r = -1"
  | r0 m w where "hashmap_put (ce_calloc ce) (ct_mapping cl) (ucast gid) (Some (ct_queue_brk cl)) = Inr (r0, m)"
    and "cl' = cl\<lparr>ct_queues := (ct_queues cl)(ct_queue_brk cl \<mapsto> zero_queue), ct_queue_brk := ct_queue_brk cl + 1,
        ct_mapping := m, ct_windows := w\<rparr>"
proof (cases "ce_malloc ce THREADQUEUE_SIZE \<and> ce_cond ce = 0 \<and> ce_mutex ce = 0")
  case False
  then have "create_new_group ce gid cl = Inr (-1, cl)"
    by (auto simp: create_new_group_def thread_queue_init_def)
  then show thesis using assms that(1) by simp
next
  case True
  let ?p = "ct_queue_brk cl"
  have eq: "create_new_group ce gid cl =
      and_then (hashmap_put (ce_calloc ce) (ct_mapping cl) (ucast gid) (Some ?p)) (\<lambda>(_, mapping).
        let cl = cl\<lparr>ct_queues := (ct_queues cl)(?p \<mapsto> zero_queue), ct_queue_brk := ?p + 1, ct_mapping := mapping\<rparr>;
            args = thread_args (ce_junk ce) gid (ct_sockfd cl)
        in if \<not> ce_malloc ce 16 then Inl Null_Pointer
           else if ce_thread ce \<noteq> 0 then Inr (-1, cl)
           else Inr (0, cl\<lparr>ct_windows := ct_windows cl @ [(args_gid args, args_sockfd args)]\<rparr>))"
    using True by (simp add: create_new_group_def thread_queue_init_def Let_def)
  obtain r0 m where put: "hashmap_put (ce_calloc ce) (ct_mapping cl) (ucast gid) (Some ?p) = Inr (r0, m)"
    using assms unfolding eq by (auto elim!: and_then_InrE)
  let ?cl = "cl\<lparr>ct_queues := (ct_queues cl)(?p \<mapsto> zero_queue), ct_queue_brk := ?p + 1, ct_mapping := m\<rparr>"
  have "\<exists>w. cl' = ?cl\<lparr>ct_windows := w\<rparr>"
  proof (cases "ce_thread ce = 0")
    case True
    then show ?thesis using assms put unfolding eq by (auto simp: Let_def split: if_splits)
  next
    case False
    then have "cl' = ?cl" using assms put unfolding eq by (auto simp: Let_def split: if_splits)
    then show ?thesis by (intro exI [of _ "ct_windows cl"]) simp
  qed
  then show thesis using that(2) [OF put] by auto
qed

lemma create_new_group_inv:
  assumes "client_inv cl" and "create_new_group ce gid cl = Inr (r, cl')"
  shows "client_inv cl'"
proof -
  let ?p = "ct_queue_brk cl"
  let ?cl = "cl\<lparr>ct_queues := (ct_queues cl)(?p \<mapsto> zero_queue), ct_queue_brk := ?p + 1\<rparr>"
  show ?thesis
  proof (cases rule: create_new_group_cases [OF assms(2)])
    case 1
    then show ?thesis using assms(1) by simp
  next
    case (2 r0 m w)
    have known: "groups_known cl" and all: "family.all_pending carries (ct_heap cl, chan cl)"
      using assms(1) by (simp_all add: client_inv_def)
    have fresh: "ct_queues cl ?p = None" using known by (auto simp: groups_known_def)
    then have fam: "family_inv (ct_heap cl, (chan cl)(Window ?p \<mapsto> zero_queue))"
      "family_contents (ct_heap cl, (chan cl)(Window ?p \<mapsto> zero_queue)) = (pending cl)(Window ?p \<mapsto> [])"
      using family_new [of "ct_heap cl" "chan cl" "Window ?p"] all
      by (simp_all add: family.all_pending_def pending_def)
    have "family.all_pending carries (ct_heap cl, (chan cl)(Window ?p \<mapsto> zero_queue))"
      using all fam by (auto simp: family.all_pending_def pending_def split: if_splits)
    moreover have "hm_inv m" "hm_lookup m = (hm_lookup (ct_mapping cl))(ucast gid \<mapsto> Some ?p) \<or> m = ct_mapping cl"
      using put_mapping [OF _ 2(1)] known by (simp_all add: groups_known_def)
    then have "groups_known (?cl\<lparr>ct_mapping := m, ct_windows := w\<rparr>)" for w
      using known by (auto simp: groups_known_def intro: less_SucI split: if_splits) blast+
    ultimately show ?thesis using 2(2) by (auto simp: client_inv_def)
  qed
qed

section \<open>Turns of the threads\<close>

lemma queue_outgoing_inv: "queue_outgoing h t cl = Inr cl' \<Longrightarrow> client_inv cl \<Longrightarrow> client_inv cl'"
  using queue_outgoing_total [of cl h t] by auto

lemma queue_request_inv: "queue_request g cl = Inr cl' \<Longrightarrow> client_inv cl \<Longrightarrow> client_inv cl'"
  using queue_request_total [of cl g] by auto

lemma queue_group_inv: "queue_group p h t cl = Inr cl' \<Longrightarrow> client_inv cl \<Longrightarrow> client_inv cl'"
  using queue_group_total [of cl p _ h t] by (cases "ct_queues cl p") (auto simp: queue_group_def)

lemma client_inv_sock [simp]:
  "client_inv (cl\<lparr>ct_sock := s\<rparr>) = client_inv cl" "client_inv (cl\<lparr>ct_files := f\<rparr>) = client_inv cl"
  "client_inv (cl\<lparr>ct_my_uid := u\<rparr>) = client_inv cl"
  by (simp_all add: client_inv_def groups_known_def)

lemma handle_server_packet_inv:
  assumes "client_inv cl" and "handle_server_packet ce recv cl = Some (Inr cl')"
  shows "client_inv cl'"
  using assms
  by (auto simp: handle_server_packet_def Let_def elim!: and_then_InrE
      split: if_splits option.splits list.splits prod.splits
      dest: queue_request_inv queue_group_inv create_new_group_inv)

lemma server_read_turn_inv:
  assumes "client_inv cl" and "server_read_turn ce cl = Some (Inr (b, cl'))"
  shows "client_inv cl'"
  using assms
  by (auto simp: server_read_turn_def elim!: and_then_InrE split: sum.splits option.splits)
    (metis client_inv_sock(1) handle_server_packet_inv)

text \<open>The thread that writes to the server always finds a packet.\<close>

lemma server_write_turn_inv:
  assumes "client_inv cl" and "server_write_turn cl = Some (Inr cl')"
  shows "client_inv cl'"
proof -
  have sent: "client_inv (cl\<lparr>ct_heap := h, ct_outgoing := q, ct_sock := s\<rparr>)"
    if "family.all_pending carries (h, (chan cl)(Outgoing \<mapsto> q))" for h q s
  proof -
    have "client_inv (cl\<lparr>ct_heap := h, ct_outgoing := q\<rparr>)"
      using that assms(1) by (simp add: client_inv_def groups_known_def)
    then show ?thesis using client_inv_sock(1) [of _ "cl\<lparr>ct_heap := h, ct_outgoing := q\<rparr>"] by simp
  qed
  show ?thesis
    using get_typed [OF assms(1), of Outgoing "ct_outgoing cl" False] assms(2)
    by (auto simp: server_write_turn_def elim!: and_then_InrE intro: sent)
qed

lemma show_message_inv:
  assumes "client_inv cl" and "show_message queue [] cb cl = Inr (cb', cl')"
  shows "client_inv cl'"
proof (cases queue)
  case None
  then show ?thesis using assms by (simp add: show_message_def)
next
  case (Some p)
  with assms(2) obtain q where q: "ct_queues cl p = Some q"
    by (auto simp: show_message_def split: option.splits)
  show ?thesis
    using get_typed [OF assms(1), of "Window p" q True] assms q groups_known_window [of cl p q]
    by (auto simp: Some show_message_def client_inv_def Let_def elim!: and_then_InrE)
qed

lemma handle_window_line_inv:
  assumes "client_inv cl" and "handle_window_line ce gid fd msg n cl = Inr (b, cl')"
  shows "client_inv cl'"
  using assms
  by (auto simp: handle_window_line_def elim!: and_then_InrE split: if_splits list.splits)
    (erule (1) queue_outgoing_inv)+

lemma gui_turn_inv:
  assumes "client_inv cl" and "gui_turn ce gid fd queue e [] cb msg cl = Inr (cb', msg', cl')"
  shows "client_inv cl'"
  using assms
  by (auto simp: gui_turn_def elim!: and_then_InrE split: if_splits)
    (metis handle_window_line_inv show_message_inv)+

lemma answer_invitation_inv:
  assumes "client_inv cl" and "answer_invitation ce a cl = Inr cl'"
  shows "client_inv cl'"
proof -
  have taken: "client_inv (cl\<lparr>ct_heap := h, ct_requests := q\<rparr>)"
    if "family.all_pending carries (h, (chan cl)(Requests \<mapsto> q))" for h q
    using that assms(1) by (simp add: client_inv_def groups_known_def)
  show ?thesis
    using get_typed [OF assms(1), of Requests "ct_requests cl" False] assms
    by (auto simp: answer_invitation_def Let_def elim!: and_then_InrE split: if_splits
        dest!: taken) (metis queue_outgoing_inv create_new_group_inv)+
qed

lemma handle_user_command_inv:
  assumes "client_inv cl" and "handle_user_command ce line cl = Inr cl'"
  shows "client_inv cl'"
  using assms
  by (auto simp: handle_user_command_def elim!: and_then_InrE split: if_splits)
    (erule (1) queue_outgoing_inv)+

lemma answer_invitations_inv:
  "answer_invitations ce as cl = Some (Inr cl') \<Longrightarrow> client_inv cl \<Longrightarrow> client_inv cl'"
proof (induction ce as cl rule: answer_invitations.induct)
  case (1 ce as cl)
  then show ?case
    by (subst (asm) (2) answer_invitations.simps)
      (auto split: sum.splits if_splits list.splits, metis answer_invitation_inv)
qed

lemma user_turn_inv:
  assumes "client_inv cl" and "user_turn ce as line cl = Some (Inr cl')"
  shows "client_inv cl'"
  using assms
  by (auto simp: user_turn_def elim!: and_then_InrE split: if_splits)
    (metis answer_invitations_inv handle_user_command_inv)+

lemma login_turn_inv:
  assumes "client_inv cl" and "login_turn ce a junk username password cl = Inr (b, cl')"
  shows "client_inv cl'"
proof -
  have "\<exists>s. cl2 = cl1\<lparr>ct_sock := s\<rparr>" if "exchange ce cmd junk username password cl1 = Inr (h, cl2)"
    for cmd h cl1 cl2
    using that by (auto simp: exchange_def elim!: and_then_InrE)
  then have "client_inv cl2" if "exchange ce cmd junk username password cl1 = Inr (h, cl2)" "client_inv cl1"
    for cmd h cl1 cl2
    using that by fastforce
  with assms show ?thesis
    by (auto simp: login_turn_def elim!: and_then_InrE split: if_splits)
qed

section \<open>Runs\<close>

text \<open>
  The threads of a client take turns. A window waits for a message without the others running; what
  they do in that time are turns of theirs before its next turn.
\<close>

inductive client_step :: "client \<Rightarrow> client \<Rightarrow> bool" where
  logging: "login_turn ce a junk username password cl = Inr (b, cl') \<Longrightarrow> client_step cl cl'"
| reading: "server_read_turn ce cl = Some (Inr (b, cl')) \<Longrightarrow> client_step cl cl'"
| writing: "server_write_turn cl = Some (Inr cl') \<Longrightarrow> client_step cl cl'"
| windows: "gui_turn ce gid fd queue e [] cb msg cl = Inr (cb', msg', cl') \<Longrightarrow> client_step cl cl'"
| terminal: "user_turn ce as line cl = Some (Inr cl') \<Longrightarrow> client_step cl cl'"

inductive client_reachable :: "client \<Rightarrow> bool" where
  start: "client_setup cc argv files = Running (Some cl) \<Longrightarrow> client_reachable cl"
| step: "client_reachable cl \<Longrightarrow> client_step cl cl' \<Longrightarrow> client_reachable cl'"

lemma client_step_inv: "client_step cl cl' \<Longrightarrow> client_inv cl \<Longrightarrow> client_inv cl'"
  by (induction rule: client_step.induct)
    (blast intro: login_turn_inv server_read_turn_inv server_write_turn_inv gui_turn_inv
      user_turn_inv)+

lemma client_inv_init:
  assumes "hashmap_new a b = Some mapping"
  shows "client_inv (init_client mapping (empty_heap n) fd s files)"
proof -
  note new = hashmap_new_Some [OF assms]
  let ?cl = "init_client mapping (empty_heap n) fd s files"
  have "family_rep (ct_heap ?cl) (chan ?cl) (\<lambda>_. ([], []))"
    by (auto simp: family_rep_def init_client_def empty_heap_def tq_rep_def zero_queue_def nodes_def chan_def
        split: channel.splits)
  then have "family_inv (ct_heap ?cl, chan ?cl)" by (auto simp: family_inv_def)
  moreover have "xs = []" if "family_contents (ct_heap ?cl, chan ?cl) k = Some xs" for k xs
    using that by (auto simp: family_contents_def init_client_def chan_def split: channel.splits)
  ultimately have "family.all_pending carries (ct_heap ?cl, chan ?cl)"
    by (fastforce simp: family.all_pending_def)
  moreover have "groups_known ?cl"
    using hm_inv_new [OF new] hm_lookup_new [OF new] by (simp add: groups_known_def init_client_def)
  ultimately show ?thesis by (simp add: client_inv_def)
qed

lemma client_setup_inv: "client_setup cc argv files = Running (Some cl) \<Longrightarrow> client_inv cl"
  by (auto simp: client_setup_running intro: client_inv_init dest!: sym [of "Some _"])

lemma client_reachable_inv: "client_reachable cl \<Longrightarrow> client_inv cl"
  by (induction rule: client_reachable.induct) (auto intro: client_setup_inv client_step_inv)

section \<open>Invitations\<close>

text \<open>Memory, and no failure when a group is opened.\<close>

definition opens_groups :: "client_env \<Rightarrow> bool" where
  "opens_groups ce \<longleftrightarrow> ce_malloc ce = (\<lambda>_. True) \<and> ce_cond ce = 0 \<and> ce_mutex ce = 0 \<and> ce_thread ce = 0"

lemma create_new_group_ok:
  assumes "client_inv cl" and "0 < hm_room (ct_mapping cl)" and "opens_groups ce"
  shows "\<exists>cl'. create_new_group ce gid cl = Inr (0, cl') \<and>
    pending cl' = (pending cl)(Window (ct_queue_brk cl) \<mapsto> []) \<and>
    hm_lookup (ct_mapping cl') = (hm_lookup (ct_mapping cl))(ucast gid \<mapsto> Some (ct_queue_brk cl)) \<and>
    ct_heap cl' = ct_heap cl \<and> ct_sock cl' = ct_sock cl \<and> ct_my_uid cl' = ct_my_uid cl"
proof -
  let ?p = "ct_queue_brk cl"
  have known: "groups_known cl" and all: "family.all_pending carries (ct_heap cl, chan cl)"
    using assms(1) by (simp_all add: client_inv_def)
  have fresh: "chan cl (Window ?p) = None" using known by (auto simp: groups_known_def)
  have fam: "family_inv (ct_heap cl, chan cl)" using all by (simp add: family.all_pending_def)
  obtain m where "hashmap_put (ce_calloc ce) (ct_mapping cl) (ucast gid) (Some ?p) = Inr (MAP_OK, m)"
      "hm_lookup m = (hm_lookup (ct_mapping cl))(ucast gid \<mapsto> Some ?p)"
    using hashmap_put_correct [OF _ assms(2), of "ce_calloc ce" "ucast gid" "Some ?p"] known
    by (auto simp: groups_known_def)
  then show ?thesis
    using family_new(2) [OF fam fresh]
    by (simp add: create_new_group_def thread_queue_init_def Let_def pending_def
        assms(3) [unfolded opens_groups_def])
qed

definition invite_answer :: "u16 \<Rightarrow> u8 \<Rightarrow> char \<Rightarrow> mainhdr" where
  "invite_answer uid gid c =
     \<lparr>hdr_cmd = INVITE_RESP, hdr_gid = gid, hdr_uid = uid, hdr_len = 1, hdr_payload = [c, nul]\<rparr>"

lemma make_answer:
  assumes "\<And>n. ce_malloc ce n"
  shows "\<exists>h. make_packet ce INVITE_RESP gid uid 1 = Inr h \<and>
    h\<lparr>hdr_payload := (hdr_payload h)[0 := c]\<rparr> = invite_answer uid gid c"
proof -
  have "replicate 2 nul = [nul, nul]" by (simp add: numeral_2_eq_2)
  then show ?thesis
    using assms by (simp add: make_packet_def create_and_fill_hdr_def invite_answer_def uninit_def)
qed

lemma posts_refl_trans:
  assumes "posts Outgoing x cl1 cl2" and "pending cl1 = (pending cl)(Requests \<mapsto> xs)"
  shows "\<exists>ys. pending cl Outgoing = Some ys \<and>
    (pending cl2 = (pending cl)(Requests \<mapsto> xs, Outgoing \<mapsto> ys @ [x]) \<or>
     h_left (ct_heap cl1) = 0 \<and> pending cl2 = (pending cl)(Requests \<mapsto> xs))"
  using assms by (auto simp: posts_def)

text \<open>Saying yes to the oldest invitation: the answer is queued before the window is opened.\<close>

lemma answer_yes_queued:
  assumes inv: "client_inv cl" and "pending cl Requests = Some ((d, t) # xs)"
    and "\<And>n. ce_malloc ce n" and "tolower a = CHR ''y''"
  obtains g ys cl2 where "d = Some (Gid g)" "pending cl Outgoing = Some ys" "client_inv cl2"
    "answer_invitation ce a cl = and_then (create_new_group ce g cl2) (\<lambda>(_, cl). Inr cl)"
    "pending cl2 = (pending cl)(Requests \<mapsto> xs, Outgoing \<mapsto>
        ys @ [(Some (Packet (invite_answer (ct_my_uid cl) g (CHR ''a''))), uint INVITE_RESP)]) \<or>
     h_left (ct_heap cl) = 0 \<and> pending cl2 = (pending cl)(Requests \<mapsto> xs)"
    "ct_mapping cl2 = ct_mapping cl" "ct_queue_brk cl2 = ct_queue_brk cl" "ct_sock cl2 = ct_sock cl"
    "ct_windows cl2 = ct_windows cl"
proof -
  from get_typed [OF inv chan_simps(2), of False] assms(2) obtain g h' q' where get:
      "thread_queue_get (ct_heap cl) (Some (ct_requests cl)) False True [] = Inr (Returned 0
        (Some \<lparr>tm_data = d, tm_msgtype = t, tm_qlength = int (length xs)\<rparr>) h' (Some q'))"
      "d = Some (Gid g)" "family.all_pending carries (h', (chan cl)(Requests \<mapsto> q'))"
      "family_contents (h', (chan cl)(Requests \<mapsto> q')) = (pending cl)(Requests \<mapsto> xs)"
    by auto
  let ?cl = "cl\<lparr>ct_heap := h', ct_requests := q'\<rparr>"
  let ?x = "(Some (Packet (invite_answer (ct_my_uid cl) g (CHR ''a''))), uint INVITE_RESP)"
  have inv1: "client_inv ?cl" using inv get(3) by (simp add: client_inv_def groups_known_def)
  have pend1: "pending ?cl = (pending cl)(Requests \<mapsto> xs)" using get(4) by (simp add: pending_def)
  obtain h where h: "make_packet ce INVITE_RESP g (ct_my_uid cl) 1 = Inr h"
      "h\<lparr>hdr_payload := (hdr_payload h)[0 := CHR ''a'']\<rparr> = invite_answer (ct_my_uid cl) g (CHR ''a'')"
    using make_answer [of ce g "ct_my_uid cl" "CHR ''a''"] assms(3) by auto
  obtain h2 q2 where cl2: "queue_outgoing (invite_answer (ct_my_uid cl) g (CHR ''a'')) (uint INVITE_RESP) ?cl =
      Inr (?cl\<lparr>ct_heap := h2, ct_outgoing := q2\<rparr>)" "client_inv (?cl\<lparr>ct_heap := h2, ct_outgoing := q2\<rparr>)"
      "posts Outgoing ?x ?cl (?cl\<lparr>ct_heap := h2, ct_outgoing := q2\<rparr>)"
    using queue_outgoing_total [OF inv1] by blast
  have "h_left (ct_heap cl) \<le> h_left h'" using thread_queue_get_left [OF get(1)] .
  moreover obtain ys where ys: "pending cl Outgoing = Some ys"
      "pending (?cl\<lparr>ct_heap := h2, ct_outgoing := q2\<rparr>) = (pending cl)(Requests \<mapsto> xs, Outgoing \<mapsto> ys @ [?x]) \<or>
       h_left h' = 0 \<and> pending (?cl\<lparr>ct_heap := h2, ct_outgoing := q2\<rparr>) = (pending cl)(Requests \<mapsto> xs)"
    using posts_refl_trans [OF cl2(3) pend1] by auto
  moreover have "answer_invitation ce a cl =
      and_then (create_new_group ce g (?cl\<lparr>ct_heap := h2, ct_outgoing := q2\<rparr>)) (\<lambda>(_, cl). Inr cl)"
    using get(1,2) assms(4) h cl2(1) by (simp add: answer_invitation_def)
  ultimately show ?thesis by (intro that [OF get(2) ys(1) cl2(2)]) auto
qed

lemma answer_yes:
  assumes inv: "client_inv cl" and "pending cl Requests = Some ((d, t) # xs)"
    and "opens_groups ce" and "0 < hm_room (ct_mapping cl)" and "tolower a = CHR ''y''"
  shows "\<exists>g p ys cl'. d = Some (Gid g) \<and> pending cl Outgoing = Some ys \<and>
    answer_invitation ce a cl = Inr cl' \<and>
    hm_lookup (ct_mapping cl') = (hm_lookup (ct_mapping cl))(ucast g \<mapsto> Some p) \<and>
    pending cl (Window p) = None \<and>
    (pending cl' = (pending cl)(Requests \<mapsto> xs, Outgoing \<mapsto>
        ys @ [(Some (Packet (invite_answer (ct_my_uid cl) g (CHR ''a''))), uint INVITE_RESP)], Window p \<mapsto> []) \<or>
     h_left (ct_heap cl) = 0 \<and> pending cl' = (pending cl)(Requests \<mapsto> xs, Window p \<mapsto> [])) \<and>
    client_inv cl' \<and> ct_sock cl' = ct_sock cl"
proof -
  have "ce_malloc ce n" for n using assms(3) by (simp add: opens_groups_def)
  then obtain g ys cl2 where y: "d = Some (Gid g)" "pending cl Outgoing = Some ys" "client_inv cl2"
      "answer_invitation ce a cl = and_then (create_new_group ce g cl2) (\<lambda>(_, cl). Inr cl)"
      "pending cl2 = (pending cl)(Requests \<mapsto> xs, Outgoing \<mapsto>
          ys @ [(Some (Packet (invite_answer (ct_my_uid cl) g (CHR ''a''))), uint INVITE_RESP)]) \<or>
       h_left (ct_heap cl) = 0 \<and> pending cl2 = (pending cl)(Requests \<mapsto> xs)"
      "ct_mapping cl2 = ct_mapping cl" "ct_queue_brk cl2 = ct_queue_brk cl" "ct_sock cl2 = ct_sock cl"
    using answer_yes_queued [OF assms(1,2) _ assms(5)] by metis
  have "0 < hm_room (ct_mapping cl2)" using assms(4) y(6) by simp
  from create_new_group_ok [OF y(3) this assms(3), of g] obtain cl' where cl':
      "create_new_group ce g cl2 = Inr (0, cl')"
      "pending cl' = (pending cl2)(Window (ct_queue_brk cl) \<mapsto> [])"
      "hm_lookup (ct_mapping cl') = (hm_lookup (ct_mapping cl))(ucast g \<mapsto> Some (ct_queue_brk cl))"
      "ct_sock cl' = ct_sock cl"
    using y(6-8) by auto
  have "client_inv cl'" by (rule create_new_group_inv [OF y(3) cl'(1)])
  moreover have "pending cl (Window (ct_queue_brk cl)) = None"
    using inv by (auto simp: client_inv_def groups_known_def pending_def family_contents_def)
  ultimately show ?thesis using y(1,2,4,5) cl' by auto
qed

text \<open>When the queue of the window cannot be initialised, the yes is sent all the same: the server makes
  the user a member, and the client has no place for what the group says.\<close>

lemma yes_without_window:
  assumes "client_inv cl" and "pending cl Requests = Some ((d, t) # xs)"
    and "\<And>n. ce_malloc ce n" and "ce_cond ce \<noteq> 0 \<or> ce_mutex ce \<noteq> 0"
    and "tolower a = CHR ''y''" and "0 < h_left (ct_heap cl)"
  shows "\<exists>g ys cl'. d = Some (Gid g) \<and> pending cl Outgoing = Some ys \<and> answer_invitation ce a cl = Inr cl' \<and>
    pending cl' = (pending cl)(Requests \<mapsto> xs, Outgoing \<mapsto>
      ys @ [(Some (Packet (invite_answer (ct_my_uid cl) g (CHR ''a''))), uint INVITE_RESP)]) \<and>
    ct_mapping cl' = ct_mapping cl \<and> ct_windows cl' = ct_windows cl"
proof (rule answer_yes_queued [OF assms(1-3,5)])
  fix g ys cl2
  assume y: "d = Some (Gid g)" "pending cl Outgoing = Some ys"
      "answer_invitation ce a cl = and_then (create_new_group ce g cl2) (\<lambda>(_, cl). Inr cl)"
      "pending cl2 = (pending cl)(Requests \<mapsto> xs, Outgoing \<mapsto>
          ys @ [(Some (Packet (invite_answer (ct_my_uid cl) g (CHR ''a''))), uint INVITE_RESP)]) \<or>
       h_left (ct_heap cl) = 0 \<and> pending cl2 = (pending cl)(Requests \<mapsto> xs)"
      "ct_mapping cl2 = ct_mapping cl" "ct_windows cl2 = ct_windows cl"
  have "create_new_group ce g cl2 = Inr (-1, cl2)"
    using assms(4) by (auto simp: create_new_group_def thread_queue_init_def)
  then show ?thesis using y assms(6) by (intro exI [of _ g] exI [of _ ys] exI [of _ cl2]) auto
qed

section \<open>Properties\<close>

text \<open>An environment without failures, and a new client.\<close>

definition sample_client_env :: client_env where
  "sample_client_env = \<lparr>ce_malloc = \<lambda>_. True, ce_x = typing_connection, ce_calloc = \<lambda>_. True,
     ce_fopen = True, ce_stack = replicate HDR_SIZE nul, ce_junk = \<lambda>_. space, ce_split = \<lambda>_ _. nul, ce_int = 0,
     ce_cond = 0, ce_mutex = 0, ce_thread = 0\<rparr>"

definition new_client :: client where
  "new_client = init_client new_map (empty_heap 64) 3 (connection []) Map.empty"

definition sample_calls :: client_calls where
  "sample_calls = \<lparr>cc_socket = 3, cc_pton = \<lambda>_. Some (replicate 4 nul), cc_connect = \<lambda>_ _. Some (connection []),
     cc_malloc = True, cc_calloc = True, cc_init = \<lambda>_. (0, 0), cc_create = \<lambda>_. 0, cc_nodes = 64\<rparr>"

lemma new_client_setup:
  "client_setup sample_calls [''client'', ''127.0.0.1'', ''5000''] Map.empty = Running (Some new_client)"
  by (simp add: client_setup_running sample_calls_def new_client_def new_map_new)

lemma new_client_reachable: "client_reachable new_client"
  by (rule client_reachable.start [OF new_client_setup])

lemma new_client_lookup [simp]: "hm_lookup (ct_mapping new_client) g = None"
  using hm_lookup_new [OF new_map_new] by (simp add: new_client_def init_client_def)

text \<open>The client with an invitation to group 3 pending.\<close>

definition invited_client :: client where
  "invited_client = (case queue_request 3 new_client of Inr cl \<Rightarrow> cl | Inl _ \<Rightarrow> new_client)"

lemma invited_client_facts:
  "client_inv invited_client" "pending invited_client Requests = Some [(Some (Gid 3), 0)]"
  "0 < hm_room (ct_mapping invited_client)"
proof -
  have p: "pending new_client Requests = Some []" "h_left (ct_heap new_client) \<noteq> 0"
    "0 < hm_room (ct_mapping new_client)"
    using hm_room_new [OF new_map_new] INITIAL_SIZE_bounds(1)
    by (simp_all add: pending_def family_contents_def new_client_def init_client_def empty_heap_def)
  from queue_request_total [OF client_reachable_inv [OF new_client_reachable], of 3] p
  show "client_inv invited_client" "pending invited_client Requests = Some [(Some (Gid 3), 0)]"
    "0 < hm_room (ct_mapping invited_client)"
    by (auto simp: invited_client_def posts_def)
qed

text \<open>C10: In every state that the threads of a client can reach, each queue is a well-formed list of
  messages whose pointers point to what the reader of that queue casts them to (packets in the
  outgoing queue and the windows, group numbers in the queue of invitations), no two queues share a
  node, and every entry of the map of groups points to a queue that exists.\<close>

theorem client_queues_typed:
  assumes "client_reachable cl"
  shows "family_inv (ct_heap cl, chan cl) \<and>
    (\<forall>k xs. pending cl k = Some xs \<longrightarrow> (\<forall>x \<in> set xs. carries k x)) \<and>
    (\<forall>g v. hm_lookup (ct_mapping cl) g = Some v \<longrightarrow> (\<exists>p \<in> dom (ct_queues cl). v = Some p))"
  using client_reachable_inv [OF assms]
  by (auto simp: client_inv_def family.all_pending_def pending_def groups_known_def)

theorem client_queues_typed_witness:
  "client_reachable new_client \<and> family_inv (ct_heap new_client, chan new_client) \<and>
    pending new_client Requests = Some []"
  using client_queues_typed [OF new_client_reachable] new_client_reachable
  by (simp add: pending_def family_contents_def new_client_def init_client_def)

text \<open>A turn of the thread that writes to the server: it sleeps exactly when no packet is pending,
  and otherwise takes the oldest packet, sends it, and leaves every other queue as it was.\<close>

lemma write_turn_sends_oldest:
  assumes "client_reachable cl"
  shows "server_write_turn cl = None \<and> pending cl Outgoing = Some [] \<or>
    (\<exists>h t xs heap q. pending cl Outgoing = Some ((Some (Packet h), t) # xs) \<and>
      server_write_turn cl = Some (and_then (send_main_header h (ct_sock cl)) (\<lambda>(_, s).
        Inr (cl\<lparr>ct_heap := heap, ct_outgoing := q, ct_sock := s\<rparr>))) \<and>
      pending (cl\<lparr>ct_heap := heap, ct_outgoing := q\<rparr>) = (pending cl)(Outgoing \<mapsto> xs))"
  using get_typed [OF client_reachable_inv [OF assms] chan_simps(1), of False]
proof (elim disjE exE conjE)
  fix d t xs h' q'
  assume g: "thread_queue_get (ct_heap cl) (Some (ct_outgoing cl)) False True [] =
      Inr (Returned 0 (Some \<lparr>tm_data = d, tm_msgtype = t, tm_qlength = int (length xs)\<rparr>) h' (Some q'))"
    "carries Outgoing (d, t)" "pending cl Outgoing = Some ((d, t) # xs)"
    "family_contents (h', (chan cl)(Outgoing \<mapsto> q')) = (pending cl)(Outgoing \<mapsto> xs)"
  then obtain h where d: "d = Some (Packet h)" by auto
  from g d show ?thesis
    by (intro disjI2 exI [of _ h] exI [of _ t] exI [of _ xs] exI [of _ h'] exI [of _ q'])
      (simp add: server_write_turn_def pending_def)
qed (simp_all add: server_write_turn_def)

lemma write_turn_sends_oldest_witness:
  "server_write_turn new_client = None \<and> pending new_client Outgoing = Some [] \<or>
    (\<exists>h t xs heap q. pending new_client Outgoing = Some ((Some (Packet h), t) # xs) \<and>
      server_write_turn new_client = Some (and_then (send_main_header h (ct_sock new_client)) (\<lambda>(_, s).
        Inr (new_client\<lparr>ct_heap := heap, ct_outgoing := q, ct_sock := s\<rparr>))) \<and>
      pending (new_client\<lparr>ct_heap := heap, ct_outgoing := q\<rparr>) = (pending new_client)(Outgoing \<mapsto> xs))"
  by (rule write_turn_sends_oldest [OF new_client_reachable])

text \<open>What the thread that reads from the server does with a chat message or an invitation: the
  message is appended to the queue of its group's window and to no other, or dropped if the group is
  unknown; an invitation is appended to the queue of invitations. Out of memory, it is dropped.\<close>

lemma received_packet_queued:
  assumes "client_reachable cl" and "nul \<in> set (hdr_payload h)" and "ce_malloc ce 1"
  shows "\<exists>chat_state invite_state.
    handle_server_packet ce (h\<lparr>hdr_cmd := SEND_CHAT\<rparr>) cl = Some (Inr chat_state) \<and>
    (case hm_lookup (ct_mapping cl) (ucast (hdr_gid h)) of
       Some (Some p) \<Rightarrow> posts (Window p) (Some (Packet (h\<lparr>hdr_cmd := SEND_CHAT\<rparr>)), uint SEND_CHAT) cl chat_state
     | _ \<Rightarrow> chat_state = cl) \<and>
    handle_server_packet ce (h\<lparr>hdr_cmd := INVITE\<rparr>) cl = Some (Inr invite_state) \<and>
    posts Requests (Some (Gid (hdr_gid h)), 0) cl invite_state"
proof -
  have inv: "client_inv cl" by (rule client_reachable_inv [OF assms(1)])
  then have known: "groups_known cl" by (simp add: client_inv_def)
  then have get: "hashmap_get (ct_mapping cl) g = Inr (case hm_lookup (ct_mapping cl) g of
      Some v \<Rightarrow> (MAP_OK, v) | None \<Rightarrow> (MAP_MISSING, None))" for g
    using hashmap_get_lookup [of "ct_mapping cl" g] by (auto simp: groups_known_def split: option.split)
  have str: "\<exists>t. c_str (hdr_payload h) = Inr t" using assms(2) by (simp add: c_str_def)
  obtain invite_state where i: "queue_request (hdr_gid h) cl = Inr invite_state"
      "posts Requests (Some (Gid (hdr_gid h)), 0) cl invite_state"
    using queue_request_total [OF inv, of "hdr_gid h"] by auto
  show ?thesis
  proof (cases "hm_lookup (ct_mapping cl) (ucast (hdr_gid h))")
    case None
    then show ?thesis using i str get assms(3) by (auto simp: handle_server_packet_def)
  next
    case (Some v)
    then obtain p q where p: "v = Some p" "ct_queues cl p = Some q"
      using known unfolding groups_known_def by blast
    let ?h = "h\<lparr>hdr_cmd := SEND_CHAT\<rparr>"
    obtain chat_state where "queue_group p ?h (uint SEND_CHAT) cl = Inr chat_state"
        "posts (Window p) (Some (Packet ?h), uint SEND_CHAT) cl chat_state"
      using queue_group_total [OF inv p(2), of ?h "uint SEND_CHAT"] by auto
    then show ?thesis using i str get Some p assms(3) by (auto simp: handle_server_packet_def)
  qed
qed

lemma received_packet_queued_witness:
  "\<exists>chat_state invite_state.
    handle_server_packet sample_client_env (sample_header\<lparr>hdr_payload := ''hi'' @ [nul], hdr_cmd := SEND_CHAT\<rparr>) new_client =
      Some (Inr chat_state) \<and> chat_state = new_client \<and>
    handle_server_packet sample_client_env (sample_header\<lparr>hdr_payload := ''hi'' @ [nul], hdr_cmd := INVITE\<rparr>) new_client =
      Some (Inr invite_state) \<and> posts Requests (Some (Gid (hdr_gid sample_header)), 0) new_client invite_state"
  using received_packet_queued [OF new_client_reachable,
      of "sample_header\<lparr>hdr_payload := ''hi'' @ [nul]\<rparr>" sample_client_env]
  by (simp add: sample_client_env_def)

end
