(* ===== verification/Network.thy ===== *)
theory Network
  imports Server_Sessions Client_Invariant
begin

text \<open>
  Clients and server together: what one side writes to its socket arrives at the other, in order but
  cut at any places, and the threads on both sides take their turns.
\<close>

section \<open>The connection between a client and the server\<close>

text \<open>\<open>chop\<close> is how the transport delivers bytes: any non-failing reads with the same content.\<close>

definition delivers :: "(char list \<Rightarrow> read_event list) \<Rightarrow> bool" where
  "delivers chop \<longleftrightarrow> (\<forall>bs. Rd_Error \<notin> set (chop bs) \<and> events_bytes (chop bs) = bs)"

definition arrive :: "read_event list \<Rightarrow> socket \<Rightarrow> socket" where
  "arrive es s = s\<lparr>sk_in := sk_in s @ es\<rparr>"

definition arrive_at :: "nat \<Rightarrow> read_event list \<Rightarrow> server \<Rightarrow> server" where
  "arrive_at fd es sv = sv\<lparr>sv_socks := (sv_socks sv)(fd := map_option (arrive es) (sv_socks sv fd))\<rparr>"

text \<open>What a socket has sent since an earlier state of it.\<close>

definition new_bytes :: "socket \<Rightarrow> socket \<Rightarrow> char list" where
  "new_bytes s s' = drop (length (sk_sent s)) (sk_sent s')"

lemma events_bytes_append [simp]: "events_bytes (es @ es') = events_bytes es @ events_bytes es'"
  by (induction es rule: events_bytes.induct) simp_all

lemma arrive_clean:
  assumes "delivers chop" and "clean s" and "stream s = []"
  shows "clean (arrive (chop bs) s)" "stream (arrive (chop bs) s) = bs"
  using assms by (simp_all add: delivers_def arrive_def clean_def stream_def)

lemma arrive_out [simp]: "sk_sent (arrive es s) = sk_sent s" "sk_accept (arrive es s) = sk_accept s"
  by (simp_all add: arrive_def)

section \<open>From a key to the server\<close>

definition line_packet :: "u8 \<Rightarrow> u16 \<Rightarrow> string \<Rightarrow> mainhdr" where
  "line_packet gid uid line = \<lparr>hdr_cmd = SEND_CHAT, hdr_gid = gid, hdr_uid = uid,
     hdr_len = of_nat (length line), hdr_payload = line\<rparr>"

lemma line_packet_sendable: "length line < 2 ^ 30 \<Longrightarrow> sendable (line_packet gid uid line)"
  "length line < 2 ^ 30 \<Longrightarrow> unat (hdr_len (line_packet gid uid line)) = length line"
  by (simp_all add: sendable_def line_packet_def unat_of_nat)

text \<open>
  A member about to press return: an empty window queue \<open>p\<close>, nothing waiting to be sent, a line, and
  memory.
\<close>

definition about_to_send ::
    "client_env \<Rightarrow> key_event \<Rightarrow> nat \<Rightarrow> string \<Rightarrow> chatbox \<Rightarrow> client \<Rightarrow> bool" where
  "about_to_send ce ev p line cb cl \<longleftrightarrow> client_inv cl \<and> pending cl (Window p) = Some [] \<and>
     pending cl Outgoing = Some [] \<and> h_left (ct_heap cl) \<noteq> 0 \<and> sk_accept (ct_sock cl) = [] \<and>
     ce_malloc ce = (\<lambda>_. True) \<and> shows_line cb line \<and> cb_works cb \<and>
     line \<noteq> [] \<and> released_keysym True (ce_x ce) ev = Inr XK_Return"

lemma show_message_none:
  assumes "client_inv cl" and "pending cl (Window p) = Some []"
  shows "show_message (Some p) [] cb cl = Inr (cb, cl)"
proof -
  obtain q where q: "ct_queues cl p = Some q"
    using assms(2) by (auto simp: pending_def family_contents_def)
  from get_typed [OF assms(1), of "Window p" q True] q assms(2) show ?thesis
    by (simp add: show_message_def)
qed

text \<open>The only packet that is waiting is sent by the next turn of the writing thread.\<close>

lemma only_packet_sent:
  assumes "client_inv cl" and "pending cl Outgoing = Some [(Some (Packet h), t)]" and "sendable h"
    and "sk_accept (ct_sock cl) = []"
  shows "\<exists>cl'. server_write_turn cl = Some (Inr cl') \<and> new_bytes (ct_sock cl) (ct_sock cl') = packet h \<and>
    sk_in (ct_sock cl') = sk_in (ct_sock cl) \<and> ct_my_uid cl' = ct_my_uid cl"
proof -
  have "family_inv (ct_heap cl, chan cl)" using assms(1) by (simp add: client_inv_def family.all_pending_def)
  from family_inv_tq [OF this chan_simps(1)] have "tq_inv (ct_heap cl, ct_outgoing cl)" .
  moreover have "tq_contents (ct_heap cl, ct_outgoing cl) = [(Some (Packet h), t)]"
    using assms(2) by (simp add: pending_def family_contents_def)
  ultimately show ?thesis
    using server_write_turn_ok [OF _ _ assms(3,4)] by (fastforce simp: new_bytes_def)
qed

text \<open>A line that makes the window queue one packet.\<close>

lemma command_sent:
  assumes "about_to_send ce ev p line cb cl" and "length msg = MAX_MSG_SIZE" and "sendable h"
    and "handle_window_line ce gid fd (line @ drop (length line) msg) (int (length line)) cl =
      and_then (queue_outgoing h t cl) (\<lambda>cl. Inr (True, cl))"
  shows "\<exists>cb' msg' cl1 cl2. gui_turn ce gid fd (Some p) (Some (Key_Release ev)) [] cb msg cl =
      Inr (cb', msg', cl1) \<and> shows_line cb' [] \<and> cb_msgs cb' = cb_msgs cb \<and>
    server_write_turn cl1 = Some (Inr cl2) \<and> new_bytes (ct_sock cl) (ct_sock cl2) = packet h \<and>
    sk_in (ct_sock cl2) = sk_in (ct_sock cl) \<and> ct_my_uid cl2 = ct_my_uid cl"
proof -
  note A = assms(1) [unfolded about_to_send_def]
  then have inv: "client_inv cl" and line: "shows_line cb line" "line \<noteq> []"
    and key: "cb_works cb" "released_keysym True (ce_x ce) ev = Inr XK_Return"
    and mal: "ce_malloc ce = (\<lambda>_. True)" by blast+
  from return_code [OF line(1) key assms(2)] obtain cb' where cb':
    "chatbox_read_input True (ce_x ce) cb (Some (Key_Release ev)) msg =
      Inr (int (length line), cb', line @ drop (length line) msg)"
    "shows_line cb' []" "cb_msgs cb' = cb_msgs cb" by blast
  obtain h' q' where post: "queue_outgoing h t cl = Inr (cl\<lparr>ct_heap := h', ct_outgoing := q'\<rparr>)"
      "client_inv (cl\<lparr>ct_heap := h', ct_outgoing := q'\<rparr>)"
      "posts Outgoing (Some (Packet h), t) cl (cl\<lparr>ct_heap := h', ct_outgoing := q'\<rparr>)"
    using queue_outgoing_total [OF inv] by blast
  let ?cl = "cl\<lparr>ct_heap := h', ct_outgoing := q'\<rparr>"
  have pend: "pending ?cl = (pending cl)(Outgoing \<mapsto> [(Some (Packet h), t)])"
    using post(3) A by (auto simp: posts_def)
  have "handle_window_line ce gid fd (line @ drop (length line) msg) (int (length line)) cl = Inr (True, ?cl)"
    using assms(4) post(1) by simp
  moreover have "show_message (Some p) [] cb' ?cl = Inr (cb', ?cl)"
    by (rule show_message_none [OF post(2)]) (use pend A in simp)
  ultimately have "gui_turn ce gid fd (Some p) (Some (Key_Release ev)) [] cb msg cl =
      Inr (cb', line @ drop (length line) msg, ?cl)"
    using cb'(1) line(2) mal by (simp add: gui_turn_def)
  moreover obtain cl2 where "server_write_turn ?cl = Some (Inr cl2)" "new_bytes (ct_sock ?cl) (ct_sock cl2) = packet h"
      "sk_in (ct_sock cl2) = sk_in (ct_sock ?cl)" "ct_my_uid cl2 = ct_my_uid ?cl"
    using only_packet_sent [OF post(2), of h t] pend assms(3) A by auto
  ultimately show ?thesis
    using cb' by (intro exI conjI) (assumption | simp)+
qed

lemma line_sent:
  assumes "about_to_send ce ev p line cb cl" and "length msg = MAX_MSG_SIZE" and "hd line \<noteq> CHR ''/''"
  shows "\<exists>cb' msg' cl1 cl2. gui_turn ce gid fd (Some p) (Some (Key_Release ev)) [] cb msg cl =
      Inr (cb', msg', cl1) \<and> shows_line cb' [] \<and> cb_msgs cb' = cb_msgs cb \<and>
    server_write_turn cl1 = Some (Inr cl2) \<and>
    new_bytes (ct_sock cl) (ct_sock cl2) = packet (line_packet gid (ct_my_uid cl) line)"
proof -
  have line: "line \<noteq> []" "ce_malloc ce = (\<lambda>_. True)" "length line < 2 ^ 30" "nul \<notin> set line"
    using assms(1) by (auto simp: about_to_send_def shows_line_def MAX_MSG_SIZE_def)
  have "handle_window_line ce gid fd (line @ drop (length line) msg) (int (length line)) cl =
      and_then (queue_outgoing (line_packet gid (ct_my_uid cl) line) 0 cl) (\<lambda>cl. Inr (True, cl))"
    using handle_window_line_chat [of line ce gid fd "drop (length line) msg" cl] line assms(3)
    by (simp add: line_packet_def)
  from command_sent [OF assms(1,2) line_packet_sendable(1) [OF line(3)] this] show ?thesis by blast
qed

section \<open>Through the server\<close>

text \<open>
  A server in which the connection with data \<open>p\<close> is open and idle and the user \<open>uid\<close>, registered in the
  credential file of \<open>us\<close>, is a member of the group \<open>gid\<close> with members \<open>g\<close>.
\<close>

definition serves_group ::
    "env \<Rightarrow> nat \<Rightarrow> u8 \<Rightarrow> u16 \<Rightarrow> u16 list \<Rightarrow> user list \<Rightarrow> nat \<Rightarrow> server \<Rightarrow> bool" where
  "serves_group env p gid uid g us fd sv \<longleftrightarrow> sv_inv sv \<and> willing sv \<and>
     (\<exists>c s. sv_data sv p = Some c \<and> cl_connfd c = fd \<and> sv_socks sv fd = Some s \<and> clean s \<and> stream s = []) \<and>
     group_at sv gid = Inr g \<and> sound_for sv g \<and> uid \<in> set g \<and>
     cred_rep (file_of sv CREDENTIAL_FILE_NAME) us \<and> 1 \<le> unat uid \<and> unat uid \<le> length us \<and>
     en_malloc env = (\<lambda>_. True) \<and> length (en_stack env) = HDR_SIZE"

lemma serve_reads_packet:
  assumes "delivers chop" and "sv_data sv p = Some c" and "sv_socks sv (cl_connfd c) = Some s"
    and "clean s" and "stream s = []" and "sendable h" and "hdr_cmd h \<noteq> SEND_FILE"
    and "en_malloc env = (\<lambda>_. True)" and "length (en_stack env) = HDR_SIZE"
  shows "\<exists>s'. serve env p (arrive_at (cl_connfd c) (chop (packet h)) sv) =
      handle env p (h\<lparr>hdr_payload := take (unat (hdr_len h)) (hdr_payload h) @ [nul]\<rparr>)
        (sv\<lparr>sv_socks := (sv_socks sv)(cl_connfd c \<mapsto> s')\<rparr>) \<and>
    clean s' \<and> stream s' = [] \<and> same_out s s'"
proof -
  let ?s = "arrive (chop (packet h)) s"
  have "stream ?s = packet h @ []" using arrive_clean [OF assms(1,4,5)] by simp
  from read_main_header_ok [OF arrive_clean(1) [OF assms(1,4,5)] this assms(6,7,9),
      of "en_malloc env" "en_junk env"] assms(8) obtain s' where
    "read_main_header (en_malloc env) (en_stack env) (en_junk env) ?s =
      Inr (Some (h\<lparr>hdr_payload := take (unat (hdr_len h)) (hdr_payload h) @ [nul]\<rparr>), s')"
    "clean s'" "stream s' = []" "same_out ?s s'" by auto
  then show ?thesis
    using assms(2,3) by (intro exI [of _ s'])
      (simp add: serve_def load_client_def arrive_at_def put_sock_def sock_of_def same_out_def)
qed

lemma group_at_socks: "group_at (sv\<lparr>sv_socks := f\<rparr>) gid = group_at sv gid"
  by (simp add: group_at_def)

lemma line_forwarded:
  assumes "delivers chop" and "serves_group env p gid uid g us fd sv" and "length line < 2 ^ 29"
    and "sv_socks sv to = Some t" and "length (filter (\<lambda>u. online sv u = Some to) g) = 1"
  shows "\<exists>sv' t'. serve env p (arrive_at fd (chop (packet (line_packet gid uid line))) sv) = Some (Inr sv') \<and>
    sv_socks sv' to = Some t' \<and>
    new_bytes t t' = packet (chat_packet (fst (us ! (unat uid - 1))) (line_packet gid uid line))"
proof -
  note A = assms(2) [unfolded serves_group_def]
  let ?h = "line_packet gid uid line"
  let ?recv = "?h\<lparr>hdr_payload := line @ [nul]\<rparr>"
  have h: "sendable ?h" "unat (hdr_len ?h) = length line" using line_packet_sendable assms(3) by simp_all
  obtain c s where c: "sv_data sv p = Some c" "cl_connfd c = fd" "sv_socks sv fd = Some s" "clean s" "stream s = []"
    using A by blast
  have "hdr_cmd ?h \<noteq> SEND_FILE" by (simp add: line_packet_def)
  from serve_reads_packet [OF assms(1) c(1) _ c(4,5) h(1) this] A c obtain s' where s':
    "serve env p (arrive_at fd (chop (packet ?h)) sv) =
      handle env p ?recv (sv\<lparr>sv_socks := (sv_socks sv)(fd \<mapsto> s')\<rparr>)" "same_out s s'"
    using h(2) by (auto simp: line_packet_def)
  let ?sv = "sv\<lparr>sv_socks := (sv_socks sv)(fd \<mapsto> s')\<rparr>"
  let ?name = "fst (us ! (unat uid - 1))"
  have cred: "cred_rep (file_of sv CREDENTIAL_FILE_NAME) us" "1 \<le> unat uid" "unat uid \<le> length us"
    using A by blast+
  then have ok: "user_ok (us ! (unat uid - 1))" by (simp add: cred_rep_def)
  then have name: "?name \<noteq> []" "length ?name < MAX_CHAR_USERID" "nul \<notin> set ?name"
    by (auto simp: user_ok_def plain_seps)
  have recv: "sendable ?recv" "unat (hdr_len ?recv) < 2 ^ 30" "hdr_uid ?recv = uid" "hdr_gid ?recv = gid"
    using h assms(3) by (simp_all add: sendable_def, simp_all add: line_packet_def)
  have same: "file_of ?sv CREDENTIAL_FILE_NAME = file_of sv CREDENTIAL_FILE_NAME" by (simp add: file_of_def)
  have find: "find_username (file_of ?sv CREDENTIAL_FILE_NAME) (hdr_uid ?recv) zero_name =
      Inr (int (length ?name), name_buf ?name)"
    unfolding same recv(3) using find_username_cred [of _ us zero_name uid] A by (simp add: zero_name_def)
  have packet: "chat_packet ?name ?recv = chat_packet ?name ?h"
    using h(2) by (simp add: chat_packet_def line_packet_def)
  have uid: "uid \<noteq> 0" using A by auto
  have "willing ?sv" "sound_for ?sv g" "hm_inv (sv_active ?sv)"
    using A c(3) s'(2) by (auto simp: willing_def same_out_def sv_inv_def) (fastforce simp: sound_for_def)
  from forward_loop_ok [OF this(3,1,2) chat_packet_sendable [OF recv(1,2) name(2)]] obtain sv' where
    f: "forward_loop True (chat_packet ?name ?recv) g ?sv = Inr sv'"
    "sent_more ?sv sv' (\<lambda>fd. repeated (length (filter (\<lambda>u. online sv u = Some fd) g)) (packet (chat_packet ?name ?recv)))"
    by auto
  have "handle_send_chat env ?recv ?sv = forward_loop True (chat_packet ?name ?recv) g ?sv"
    by (rule handle_send_chat_member [OF _ _ _ recv(1,2) _ find name])
      (use A uid recv in \<open>simp_all add: group_at_socks\<close>)
  moreover have "handle env p ?recv ?sv = Some (handle_send_chat env ?recv ?sv)"
    by (simp add: handle_def line_packet_def)
  moreover obtain t1 where t1: "sv_socks ?sv to = Some t1" "sk_sent t1 = sk_sent t"
    using assms(4) c(3) s'(2) by (cases "to = fd") (auto simp: same_out_def)
  then have "sv_socks sv' to = Some (t1\<lparr>sk_sent := sk_sent t1 @ packet (chat_packet ?name ?recv)\<rparr>)"
    using f(2) assms(5) unfolding sent_more_def by simp
  ultimately show ?thesis using s'(1) f(1) t1(2) packet by (auto simp: new_bytes_def)
qed

section \<open>From the server to the screen\<close>

text \<open>A client with a window for the group \<open>gid\<close>, whose queue \<open>p\<close> is empty, and an idle connection.\<close>

definition listening :: "client_env \<Rightarrow> nat \<Rightarrow> u8 \<Rightarrow> chatbox \<Rightarrow> client \<Rightarrow> bool" where
  "listening ce p gid cb cl \<longleftrightarrow> client_inv cl \<and> hm_lookup (ct_mapping cl) (ucast gid) = Some (Some p) \<and>
     pending cl (Window p) = Some [] \<and> h_left (ct_heap cl) \<noteq> 0 \<and>
     clean (ct_sock cl) \<and> stream (ct_sock cl) = [] \<and>
     ce_malloc ce = (\<lambda>_. True) \<and> length (ce_stack ce) = HDR_SIZE \<and>
     history_ok cb \<and> cb_works cb \<and> (\<forall>row \<in> set (cb_msgs cb). nul \<in> set row)"

lemma message_shown:
  assumes "history_ok cb" and "cb_works cb" and "\<forall>row \<in> set (cb_msgs cb). nul \<in> set row"
    and "length s < MAX_MSG_SIZE" and "nul \<notin> set s"
  shows "\<exists>cb1 cb'. roll_messages cb (s @ rest) (int (length s)) = Inr cb1 \<and> update_messages cb1 = Inr cb' \<and>
    cb_msgs cb' = (s @ replicate (MAX_MSG_SIZE - length s) nul) # butlast (cb_msgs cb) \<and>
    cb_screen cb' = cb_screen cb @ concat (map (drawn_row (cb_msgs cb')) [0..<NUMBER_OF_MSGS]) \<and>
    row_text (cb_msgs cb' ! 0) = s"
proof -
  let ?row = "s @ replicate (MAX_MSG_SIZE - length s) nul"
  let ?cb1 = "cb\<lparr>cb_msgs := ?row # butlast (cb_msgs cb)\<rparr>"
  have roll: "roll_messages cb (s @ rest) (int (length s)) = Inr ?cb1"
    using roll_messages_eq [OF assms(1), of "length s" "s @ rest"] assms(4) by (simp add: MAX_MSG_SIZE_def)
  have ne: "cb_msgs cb \<noteq> []" using assms(1) by (auto simp: history_ok_def NUMBER_OF_MSGS_def)
  have hist: "history_ok ?cb1"
    using assms(1,4) ne by (auto simp: history_ok_def NUMBER_OF_MSGS_def dest: in_set_butlastD)
  have nuls: "\<forall>row \<in> set (cb_msgs ?cb1). nul \<in> set row"
    using assms(3,4) by (auto dest: in_set_butlastD)
  have shown: "row_text ?row = s" using assms(4,5) by (simp add: row_text_def takeWhile_append)
  from update_messages_ok [OF hist _ nuls] assms(2) roll shown show ?thesis by auto
qed

lemma line_shown:
  assumes "delivers chop" and "listening ce p gid cb cl" and "nul \<notin> set name" and "nul \<notin> set line"
    and "length name + 1 + length line < MAX_MSG_SIZE"
  shows "\<exists>cl1 cl2 cb'. server_read_turn ce (cl\<lparr>ct_sock := arrive (chop (packet
        (chat_packet name (line_packet gid uid line)))) (ct_sock cl)\<rparr>) = Some (Inr (True, cl1)) \<and>
    gui_turn ce gid fd (Some p) None [] cb msg cl1 = Inr (cb', msg, cl2) \<and>
    cb_msgs cb' = ((name @ '':'' @ line) @ replicate (MAX_MSG_SIZE - length (name @ '':'' @ line)) nul) #
      butlast (cb_msgs cb) \<and>
    cb_screen cb' = cb_screen cb @ concat (map (drawn_row (cb_msgs cb')) [0..<NUMBER_OF_MSGS]) \<and>
    row_text (cb_msgs cb' ! 0) = name @ '':'' @ line"
proof -
  note A = assms(2) [unfolded listening_def]
  let ?h = "chat_packet name (line_packet gid uid line)" and ?s = "name @ '':'' @ line"
  have small: "length line < 2 ^ 29" "length ?s < 2 ^ 30" using assms(5) by (simp_all add: MAX_MSG_SIZE_def)
  have len: "unat (hdr_len (line_packet gid uid line)) = length line"
    by (rule line_packet_sendable(2)) (use small in simp)
  then have h: "hdr_len ?h = of_nat (length ?s)" "hdr_payload ?h = ?s @ [nul]" "hdr_cmd ?h = SEND_CHAT"
    "hdr_gid ?h = gid" by (simp_all add: chat_packet_def, simp_all add: line_packet_def)
  have ulen: "unat (hdr_len ?h) = length ?s" "sint (hdr_len ?h) = int (length ?s)"
    using small_int_word [of "length ?s"] small(2) unfolding h(1) by (simp_all add: unat_of_nat)
  have send: "sendable ?h" using ulen(1) small(2) unfolding sendable_def by (simp add: h(2))
  let ?cl = "cl\<lparr>ct_sock := arrive (chop (packet ?h)) (ct_sock cl)\<rparr>"
  have clean: "clean (ct_sock ?cl)" "stream (ct_sock ?cl) = packet ?h @ []"
    using arrive_clean [OF assms(1)] A by simp_all
  have fam: "family_inv (ct_heap cl, chan cl)" using A by (simp add: client_inv_def family.all_pending_def)
  obtain q where q: "ct_queues cl p = Some q" "tq_contents (ct_heap cl, q) = []"
    using A by (auto simp: pending_def family_contents_def)
  have inv: "tq_inv (ct_heap cl, q)" using family_inv_tq [OF fam, of "Window p" q] q(1) by simp
  have hm: "hm_inv (ct_mapping cl)" using A by (simp add: client_inv_def groups_known_def)
  obtain s heap q' h' where r: "server_read_turn ce ?cl = Some (Inr (True,
      ?cl\<lparr>ct_sock := s, ct_heap := heap, ct_queues := (ct_queues cl)(p \<mapsto> q')\<rparr>))"
      "tq_inv (heap, q')" "tq_contents (heap, q') = [(Some (Packet h'), uint SEND_CHAT)]"
      "h' = ?h\<lparr>hdr_payload := take (unat (hdr_len ?h)) (hdr_payload ?h) @ [nul]\<rparr>"
    using server_read_chat [OF clean send h(3), of ce p q] A hm q inv h(4) by auto
  let ?cl1 = "?cl\<lparr>ct_sock := s, ct_heap := heap, ct_queues := (ct_queues cl)(p \<mapsto> q')\<rparr>"
  have h': "hdr_payload h' = ?s @ [nul]" "sint (hdr_len h') = int (length ?s)"
    using ulen by (simp_all add: r(4) h(2))
  have "length ?s < MAX_MSG_SIZE" "nul \<notin> set ?s" using assms(3-5) by (auto simp: nul_def)
  with message_shown [of cb ?s "[nul]"] A obtain cb1 cb' where m:
      "roll_messages cb (hdr_payload h') (sint (hdr_len h')) = Inr cb1" "update_messages cb1 = Inr cb'"
      "cb_msgs cb' = (?s @ replicate (MAX_MSG_SIZE - length ?s) nul) # butlast (cb_msgs cb)"
      "cb_screen cb' = cb_screen cb @ concat (map (drawn_row (cb_msgs cb')) [0..<NUMBER_OF_MSGS])"
      "row_text (cb_msgs cb' ! 0) = ?s"
    unfolding h' by blast
  obtain cl2 where "show_message (Some p) [] cb ?cl1 = Inr (cb', cl2)"
    using show_message_ok [of ?cl1 p q' h' "uint SEND_CHAT" "[]" cb cb1 cb' "[]"] r(2,3) m(1,2) by auto
  then have "gui_turn ce gid fd (Some p) None [] cb msg ?cl1 = Inr (cb', msg, cl2)"
    using A by (simp add: gui_turn_def chatbox_read_input_def)
  with r(1) m(3-5) show ?thesis by blast
qed

section \<open>Logging in\<close>

text \<open>The packet of the login dialogue; \<open>junk\<close> is the header that \<open>malloc\<close> returned.\<close>

definition login_packet :: "mainhdr \<Rightarrow> string \<Rightarrow> string \<Rightarrow> mainhdr" where
  "login_packet junk n w = (fill_username_password junk n w)\<lparr>hdr_cmd := USR_LOGIN\<rparr>"

lemma login_packet_facts:
  assumes "length n + 1 + length w < 2 ^ 30"
  shows "sendable (login_packet junk n w)" "hdr_cmd (login_packet junk n w) = USR_LOGIN"
    "unat (hdr_len (login_packet junk n w)) = length n + 1 + length w"
    "hdr_len (login_packet junk n w) = hdr_len (login_request USR_LOGIN n w)"
    "take (length n + 1 + length w) (hdr_payload (login_packet junk n w)) @ [nul] =
      hdr_payload (login_request USR_LOGIN n w)"
proof -
  have len: "hdr_len (login_packet junk n w) = of_nat (length n + 1 + length w)"
    by (simp add: login_packet_def fill_username_password_def ac_simps)
  then show l: "unat (hdr_len (login_packet junk n w)) = length n + 1 + length w"
    using small_int_word(2) [of "length n + 1 + length w"] assms by simp
  show "hdr_len (login_packet junk n w) = hdr_len (login_request USR_LOGIN n w)"
    using len by (simp add: login_request_def)
  have pay: "hdr_payload (login_packet junk n w) = n @ CHR '':'' # w"
    by (simp add: login_packet_def fill_username_password_def)
  then show "take (length n + 1 + length w) (hdr_payload (login_packet junk n w)) @ [nul] =
      hdr_payload (login_request USR_LOGIN n w)" by (simp add: login_request_def)
  show "sendable (login_packet junk n w)" using l pay assms by (simp add: sendable_def)
qed (simp add: login_packet_def)

lemma login_served:
  assumes "delivers chop" and "sv_inv sv" and "willing sv" and "sv_data sv p = Some c"
    and "sv_socks sv (cl_connfd c) = Some s" and "clean s" and "stream s = []"
    and "en_malloc env = (\<lambda>_. True)" and "length (en_stack env) = HDR_SIZE"
    and "0 < hm_room (sv_active sv)" and "user_ok (n, w)" and "CHR '':'' \<notin> set n"
    and "match_user_pw (file_of sv CREDENTIAL_FILE_NAME) (name_buf n) (pw_buf w) = Inr k" and "0 < k"
  shows "\<exists>sv' s'. serve env p (arrive_at (cl_connfd c) (chop (packet (login_packet junk n w))) sv) = Some (Inr sv') \<and>
    hm_lookup (sv_active sv') = (hm_lookup (sv_active sv))(of_int k \<mapsto> Some p) \<and>
    sv_data sv' = (sv_data sv)(p \<mapsto> c\<lparr>cl_uid := of_int k, cl_username := name_buf n\<rparr>) \<and>
    sv_socks sv' (cl_connfd c) = Some s' \<and> new_bytes s s' = packet (answer USR_LOGIN 0 (of_int k) 0)"
proof -
  have U: "length n < MAX_CHAR_USERID" "length w < MAX_CHAR_USERPASS" using assms(11) by (auto simp: user_ok_def)
  then have small: "length n + 1 + length w < 2 ^ 30" by (simp add: MAX_CHAR_USERID_def MAX_CHAR_USERPASS_def)
  note L = login_packet_facts [OF small, of junk]
  have "hdr_cmd (login_packet junk n w) \<noteq> SEND_FILE" using L(2) by simp
  from serve_reads_packet [OF assms(1,4-7) L(1) this assms(8,9)] obtain s1 where
    s1: "serve env p (arrive_at (cl_connfd c) (chop (packet (login_packet junk n w))) sv) =
      handle env p ((login_packet junk n w)\<lparr>hdr_payload := hdr_payload (login_request USR_LOGIN n w)\<rparr>)
        (sv\<lparr>sv_socks := (sv_socks sv)(cl_connfd c \<mapsto> s1)\<rparr>)" "same_out s s1"
    unfolding L(3,5) by blast
  let ?recv = "(login_packet junk n w)\<lparr>hdr_payload := hdr_payload (login_request USR_LOGIN n w)\<rparr>"
  let ?sv = "sv\<lparr>sv_socks := (sv_socks sv)(cl_connfd c \<mapsto> s1)\<rparr>"
  have "insert (cl_connfd c) (dom (sv_socks sv)) = dom (sv_socks sv)" using assms(5) by auto
  then have inv: "sv_inv ?sv" using assms(2) by (simp add: sv_inv_def)
  have "sk_accept s1 = []" using assms(3,5) s1(2) by (auto simp: willing_def same_out_def)
  then have con: "connected ?sv p c" using assms(4) by (simp add: connected_def)
  have mal: "en_malloc env i" for i using assms(8) by simp
  have "match_user_pw (file_of ?sv CREDENTIAL_FILE_NAME) (name_buf n) (pw_buf w) = Inr k"
    using assms(13) by (simp add: file_of_def)
  from handle_usr_login_eq [OF inv con _ mal assms(11,12) this] assms(10,14) obtain sv' where
    sv': "handle_usr_login env p (login_request USR_LOGIN n w) ?sv = Inr sv'"
      "sv_data sv' = (sv_data sv)(p \<mapsto> c\<lparr>cl_uid := of_int k, cl_username := name_buf n\<rparr>)"
      "hm_lookup (sv_active sv') = (hm_lookup (sv_active sv))(of_int k \<mapsto> Some p)"
      "sv_socks sv' = sent_on ?sv c (answer USR_LOGIN 0 (of_int k) 0)" by auto
  have "handle env p ?recv ?sv = Some (Inr sv')"
    using handle_usr_login_cong [of ?recv "login_request USR_LOGIN n w" env p ?sv] L(2,4) sv'(1)
    by (simp add: handle_def)
  moreover have "sv_socks sv' (cl_connfd c) =
      Some (s1\<lparr>sk_sent := sk_sent s1 @ packet (answer USR_LOGIN 0 (of_int k) 0)\<rparr>)"
    using sv'(4) by (simp add: sent_on_def)
  moreover have "sk_sent s1 = sk_sent s" using s1(2) by (simp add: same_out_def)
  ultimately show ?thesis using s1(1) sv'(2,3) by (simp add: new_bytes_def)
qed

lemma login_answered:
  assumes "delivers chop" and "clean (ct_sock cl)" and "stream (ct_sock cl) = []"
    and "sk_accept (ct_sock cl) = []" and "ce_malloc ce = (\<lambda>_. True)" and "length (ce_stack ce) = HDR_SIZE"
    and "length n + 1 + length w < 2 ^ 30" and "tolower a = CHR ''y''"
  shows "\<exists>cl'. login_turn ce a junk n w
      (cl\<lparr>ct_sock := arrive (chop (packet (answer USR_LOGIN 0 uid 0))) (ct_sock cl)\<rparr>) = Inr (True, cl') \<and>
    ct_my_uid cl' = uid \<and> new_bytes (ct_sock cl) (ct_sock cl') = packet (login_packet junk n w)"
proof -
  let ?a = "answer USR_LOGIN 0 uid 0"
  let ?s = "arrive (chop (packet ?a)) (ct_sock cl)"
  note L = login_packet_facts [OF assms(7), of junk]
  have send: "send_main_header (login_packet junk n w) ?s =
      Inr (0, ?s\<lparr>sk_sent := sk_sent (ct_sock cl) @ packet (login_packet junk n w)\<rparr>)"
    using send_main_header_ok [OF L(1), of ?s] assms(4) by simp
  let ?t = "?s\<lparr>sk_sent := sk_sent (ct_sock cl) @ packet (login_packet junk n w)\<rparr>"
  have t: "clean ?t" "stream ?t = packet ?a @ []"
    using arrive_clean [OF assms(1-3), of "packet ?a"] by (simp_all add: clean_def stream_def)
  have "hdr_cmd ?a \<noteq> SEND_FILE" by (simp add: answer_def)
  from read_main_header_ok [OF t answer_sendable this assms(6), of "ce_malloc ce" "ce_junk ce"] assms(5)
  obtain s' where r: "read_main_header (ce_malloc ce) (ce_stack ce) (ce_junk ce) ?t =
      Inr (Some (?a\<lparr>hdr_payload := take (unat (hdr_len ?a)) (hdr_payload ?a) @ [nul]\<rparr>), s')" "same_out ?t s'"
    by auto
  then show ?thesis
    using send assms(8)
    by (simp add: login_turn_def exchange_def answer_code_def login_packet_def answer_def code_byte_def
        new_bytes_def same_out_def)
qed

section \<open>Properties\<close>

text \<open>User 1 with the window of group 0, a typed line, and a transport that delivers byte by byte.\<close>

definition member_client :: client where
  "member_client =
     (case create_new_group sample_client_env 0 (new_client\<lparr>ct_my_uid := 1\<rparr>) of Inr (_, cl) \<Rightarrow> cl | Inl _ \<Rightarrow> new_client)"

lemma sample_opens: "opens_groups sample_client_env"
  by (simp add: opens_groups_def sample_client_env_def)

lemma member_client_facts:
  "client_inv member_client" "pending member_client (Window 0) = Some []"
  "pending member_client Outgoing = Some []" "h_left (ct_heap member_client) \<noteq> 0"
  "ct_sock member_client = connection []" "ct_my_uid member_client = 1"
  "hm_lookup (ct_mapping member_client) 0 = Some (Some 0)"
proof -
  let ?cl = "new_client\<lparr>ct_my_uid := 1\<rparr>"
  have inv: "client_inv ?cl" using client_reachable_inv [OF new_client_reachable] by simp
  have p: "0 < hm_room (ct_mapping ?cl)" "pending ?cl Outgoing = Some []" "h_left (ct_heap ?cl) \<noteq> 0"
    "ct_sock ?cl = connection []" "ct_my_uid ?cl = 1" "ct_queue_brk ?cl = 0"
    using hm_room_new [OF new_map_new] INITIAL_SIZE_bounds(1)
    by (simp_all add: pending_def family_contents_def new_client_def init_client_def empty_heap_def)
  from create_new_group_ok [OF inv p(1), of sample_client_env 0] sample_opens obtain cl where
    cl: "create_new_group sample_client_env 0 ?cl = Inr (0, cl)"
      "pending cl = (pending ?cl)(Window (ct_queue_brk ?cl) \<mapsto> [])"
      "hm_lookup (ct_mapping cl) = (hm_lookup (ct_mapping ?cl))(ucast (0 :: u8) \<mapsto> Some (ct_queue_brk ?cl))"
      "ct_heap cl = ct_heap ?cl" "ct_sock cl = ct_sock ?cl" "ct_my_uid cl = ct_my_uid ?cl" by blast
  have "member_client = cl" using cl(1) by (simp add: member_client_def)
  with cl p create_new_group_inv [OF inv cl(1)] show
    "client_inv member_client" "pending member_client (Window 0) = Some []"
    "pending member_client Outgoing = Some []" "h_left (ct_heap member_client) \<noteq> 0"
    "ct_sock member_client = connection []" "ct_my_uid member_client = 1"
    "hm_lookup (ct_mapping member_client) 0 = Some (Some 0)"
    by simp_all
qed

definition typed_box :: "string \<Rightarrow> chatbox" where
  "typed_box s = new_chatbox\<lparr>cb_buffer_len := of_nat (length s),
     cb_input_buffer := s @ replicate (MAX_MSG_SIZE - length s) nul\<rparr>"

abbreviation return_key :: key_event where
  "return_key \<equiv> \<lparr>ev_detail = 10, ev_state = 0\<rparr>"

lemma sample_sender:
  assumes "nul \<notin> set s" and "s \<noteq> []" and "length s < MAX_MSG_SIZE"
  shows "about_to_send sample_client_env return_key 0 s (typed_box s) member_client"
proof -
  have "mapping_ok typing_connection (the (xc_mapping typing_connection))" "\<not> xc_error typing_connection"
    "xc_mapping typing_connection = Some (the (xc_mapping typing_connection))"
    by (simp_all add: typing_connection_def mapping_ok_def)
  from released_keysym_pressed [OF this(3,1,2), of return_key]
  have "released_keysym True typing_connection return_key = Inr XK_Return"
    by (simp add: typing_connection_def pressed_def key_symbol_def key_row_def
      documented_list_def group_symbol_def xcb_convert_case_def cased_def Let_def)
  moreover have "shows_line (typed_box s) s"
    using assms by (simp add: shows_line_def typed_box_def MAX_MSG_SIZE_def unat_of_nat)
  ultimately show ?thesis
    using member_client_facts assms(2)
    by (simp add: about_to_send_def sample_client_env_def connection_def typed_box_def new_chatbox_def)
qed

lemma sample_listener: "listening sample_client_env 0 0 new_chatbox member_client"
  using member_client_facts
  by (simp add: listening_def sample_client_env_def connection_def clean_def stream_def history_ok_def
      new_chatbox_def MAX_MSG_SIZE_def)

lemma sample_service: "serves_group sample_env 7 0 1 [1] sample_users 4 (online_server [])"
  using online_server_inv online_server_sound [of "[]"] sample_rep
  by (simp add: serves_group_def connection_def clean_def stream_def group_at_Inr GROUP_NUM_MAX_def
      sample_env_def sample_users_def)

lemma bytewise: "delivers (map (\<lambda>c. Data [c]))"
proof -
  have "events_bytes (map (\<lambda>c. Data [c]) bs) = bs" for bs by (induction bs) simp_all
  then show ?thesis by (auto simp: delivers_def)
qed

text \<open>C1: The whole way of a chat message. When a member of a group presses return in the group's window
  on a line of at most 247 characters that is not a command, the client queues and sends it; however
  the transport cuts the bytes, the server forwards it; and a client on whose connection exactly one
  member of the group is online reads it and shows it: the top row of its window is the sender's
  name, a colon and the line, the other rows have moved down by one, and the screen is redrawn.\<close>

theorem chat_end_to_end:
  assumes "delivers chop" and "about_to_send cea ev pa line boxa a" and "length msga = MAX_MSG_SIZE"
    and "hd line \<noteq> CHR ''/''" and "length line \<le> 247" and "serves_group env p gid (ct_my_uid a) g us fd sv"
    and "sv_socks sv to = Some t" and "length (filter (\<lambda>u. online sv u = Some to) g) = 1"
    and "listening ceb pb gid boxb b"
  shows "\<exists>boxa' msga' a1 a2 sv' t' b1 b2 boxb'.
    gui_turn cea gid fda (Some pa) (Some (Key_Release ev)) [] boxa msga a = Inr (boxa', msga', a1) \<and>
    server_write_turn a1 = Some (Inr a2) \<and>
    serve env p (arrive_at fd (chop (new_bytes (ct_sock a) (ct_sock a2))) sv) = Some (Inr sv') \<and>
    sv_socks sv' to = Some t' \<and>
    server_read_turn ceb (b\<lparr>ct_sock := arrive (chop (new_bytes t t')) (ct_sock b)\<rparr>) = Some (Inr (True, b1)) \<and>
    gui_turn ceb gid fdb (Some pb) None [] boxb msgb b1 = Inr (boxb', msgb, b2) \<and>
    row_text (cb_msgs boxb' ! 0) = fst (us ! (unat (ct_my_uid a) - 1)) @ '':'' @ line \<and>
    tl (cb_msgs boxb') = butlast (cb_msgs boxb) \<and>
    cb_screen boxb' = cb_screen boxb @ concat (map (drawn_row (cb_msgs boxb')) [0..<NUMBER_OF_MSGS])"
proof -
  let ?name = "fst (us ! (unat (ct_my_uid a) - 1))"
  have cred: "cred_rep (file_of sv CREDENTIAL_FILE_NAME) us" "1 \<le> unat (ct_my_uid a)"
      "unat (ct_my_uid a) \<le> length us"
    using assms(6) unfolding serves_group_def by blast+
  then have "user_ok (us ! (unat (ct_my_uid a) - 1))" by (simp add: cred_rep_def)
  then have name: "length ?name \<le> 7" "nul \<notin> set ?name"
    by (auto simp: user_ok_def plain_seps MAX_CHAR_USERID_def)
  have line: "nul \<notin> set line" using assms(2) by (simp add: about_to_send_def shows_line_def)
  have small: "length line < 2 ^ 29" "length ?name + 1 + length line < MAX_MSG_SIZE"
    using assms(5) name(1) by (simp_all add: MAX_MSG_SIZE_def)
  from line_sent [OF assms(2-4), of gid fda] obtain boxa' msga' a1 a2 where 1:
    "gui_turn cea gid fda (Some pa) (Some (Key_Release ev)) [] boxa msga a = Inr (boxa', msga', a1)"
    "server_write_turn a1 = Some (Inr a2)"
    "new_bytes (ct_sock a) (ct_sock a2) = packet (line_packet gid (ct_my_uid a) line)" by blast
  from line_forwarded [OF assms(1,6) small(1) assms(7,8)] obtain sv' t' where 2:
    "serve env p (arrive_at fd (chop (packet (line_packet gid (ct_my_uid a) line))) sv) = Some (Inr sv')"
    "sv_socks sv' to = Some t'"
    "new_bytes t t' = packet (chat_packet ?name (line_packet gid (ct_my_uid a) line))" by blast
  from line_shown [OF assms(1,9) name(2) line small(2)] obtain b1 b2 boxb' where
    "server_read_turn ceb (b\<lparr>ct_sock := arrive (chop (packet
        (chat_packet ?name (line_packet gid (ct_my_uid a) line)))) (ct_sock b)\<rparr>) = Some (Inr (True, b1))"
    "gui_turn ceb gid fdb (Some pb) None [] boxb msgb b1 = Inr (boxb', msgb, b2)"
    "tl (cb_msgs boxb') = butlast (cb_msgs boxb)"
    "cb_screen boxb' = cb_screen boxb @ concat (map (drawn_row (cb_msgs boxb')) [0..<NUMBER_OF_MSGS])"
    "row_text (cb_msgs boxb' ! 0) = ?name @ '':'' @ line"
    by (metis list.sel(3))
  with 1 2 show ?thesis by metis
qed

theorem chat_end_to_end_witness:
  "\<exists>boxa' msga' a1 a2 sv' t' b1 b2 boxb'.
    gui_turn sample_client_env 0 3 (Some 0) (Some (Key_Release return_key)) [] (typed_box ''hi'')
      (replicate MAX_MSG_SIZE space) member_client = Inr (boxa', msga', a1) \<and>
    server_write_turn a1 = Some (Inr a2) \<and>
    serve sample_env 7 (arrive_at 4 (map (\<lambda>c. Data [c]) (new_bytes (ct_sock member_client) (ct_sock a2)))
      (online_server [])) = Some (Inr sv') \<and>
    sv_socks sv' 4 = Some t' \<and>
    server_read_turn sample_client_env (member_client\<lparr>ct_sock :=
      arrive (map (\<lambda>c. Data [c]) (new_bytes (connection []) t')) (ct_sock member_client)\<rparr>) = Some (Inr (True, b1)) \<and>
    gui_turn sample_client_env 0 3 (Some 0) None [] new_chatbox [] b1 = Inr (boxb', [], b2) \<and>
    row_text (cb_msgs boxb' ! 0) = fst (sample_users ! (unat (ct_my_uid member_client) - 1)) @ '':'' @ ''hi'' \<and>
    tl (cb_msgs boxb') = butlast (cb_msgs new_chatbox) \<and>
    cb_screen boxb' = cb_screen new_chatbox @ concat (map (drawn_row (cb_msgs boxb')) [0..<NUMBER_OF_MSGS])"
proof (rule chat_end_to_end [OF bytewise sample_sender _ _ _ _ _ _ sample_listener])
  show "serves_group sample_env 7 0 (ct_my_uid member_client) [1] sample_users 4 (online_server [])"
    using sample_service by (simp add: member_client_facts)
  show "length (filter (\<lambda>u. online (online_server []) u = Some 4) [1]) = 1"
    using online_map_facts(2) by (simp add: online_def)
qed (simp_all add: nul_def MAX_MSG_SIZE_def)

text \<open>Logging in from the dialogue of the client: for a registered user, the request that the client
  sends is the one the server reads, however the transport cuts the bytes in both directions; the
  server enters the connection into the table of active users under the user's number, and the
  client takes the same number from the answer as its own.\<close>

lemma login_end_to_end:
  assumes "delivers chop" and "sv_inv sv" and "willing sv" and "sv_data sv p = Some c"
    and "sv_socks sv (cl_connfd c) = Some s" and "clean s" and "stream s = []"
    and "en_malloc env = (\<lambda>_. True)" and "length (en_stack env) = HDR_SIZE"
    and "0 < hm_room (sv_active sv)" and "user_ok (n, w)" and "CHR '':'' \<notin> set n"
    and "match_user_pw (file_of sv CREDENTIAL_FILE_NAME) (name_buf n) (pw_buf w) = Inr k" and "0 < k"
    and "clean (ct_sock cl)" and "stream (ct_sock cl) = []" and "sk_accept (ct_sock cl) = []"
    and "ce_malloc ce = (\<lambda>_. True)" and "length (ce_stack ce) = HDR_SIZE" and "tolower a = CHR ''y''"
  shows "\<exists>request sv' s' cl'.
    serve env p (arrive_at (cl_connfd c) (chop request) sv) = Some (Inr sv') \<and>
    hm_lookup (sv_active sv') = (hm_lookup (sv_active sv))(of_int k \<mapsto> Some p) \<and>
    sv_data sv' = (sv_data sv)(p \<mapsto> c\<lparr>cl_uid := of_int k, cl_username := name_buf n\<rparr>) \<and>
    sv_socks sv' (cl_connfd c) = Some s' \<and>
    login_turn ce a junk n w (cl\<lparr>ct_sock := arrive (chop (new_bytes s s')) (ct_sock cl)\<rparr>) = Inr (True, cl') \<and>
    new_bytes (ct_sock cl) (ct_sock cl') = request \<and> ct_my_uid cl' = of_int k"
proof -
  have "length n < MAX_CHAR_USERID" "length w < MAX_CHAR_USERPASS" using assms(11) by (auto simp: user_ok_def)
  then have small: "length n + 1 + length w < 2 ^ 30" by (simp add: MAX_CHAR_USERID_def MAX_CHAR_USERPASS_def)
  from login_served [OF assms(1-14), of junk] obtain sv' s' where 1:
    "serve env p (arrive_at (cl_connfd c) (chop (packet (login_packet junk n w))) sv) = Some (Inr sv')"
    "hm_lookup (sv_active sv') = (hm_lookup (sv_active sv))(of_int k \<mapsto> Some p)"
    "sv_data sv' = (sv_data sv)(p \<mapsto> c\<lparr>cl_uid := of_int k, cl_username := name_buf n\<rparr>)"
    "sv_socks sv' (cl_connfd c) = Some s'" "new_bytes s s' = packet (answer USR_LOGIN 0 (of_int k) 0)" by blast
  from login_answered [OF assms(1,15-19) small assms(20), of junk "of_int k"] obtain cl' where
    "login_turn ce a junk n w (cl\<lparr>ct_sock := arrive (chop (new_bytes s s')) (ct_sock cl)\<rparr>) = Inr (True, cl')"
    "ct_my_uid cl' = of_int k" "new_bytes (ct_sock cl) (ct_sock cl') = packet (login_packet junk n w)"
    unfolding 1(5) by blast
  with 1 show ?thesis by blast
qed

lemma login_end_to_end_witness:
  "\<exists>c request sv' s' cl'.
    serve sample_env 7 (arrive_at (cl_connfd c) (map (\<lambda>b. Data [b]) request)
      ((online_server [])\<lparr>sv_active := new_map\<rparr>)) = Some (Inr sv') \<and>
    hm_lookup (sv_active sv') =
      (hm_lookup (sv_active ((online_server [])\<lparr>sv_active := new_map\<rparr>)))(of_int 2 \<mapsto> Some 7) \<and>
    sv_data sv' = (sv_data ((online_server [])\<lparr>sv_active := new_map\<rparr>))
      (7 \<mapsto> c\<lparr>cl_uid := of_int 2, cl_username := name_buf ''bob''\<rparr>) \<and>
    sv_socks sv' (cl_connfd c) = Some s' \<and>
    login_turn sample_client_env (CHR ''Y'') sample_header ''bob'' ''pw'' (new_client\<lparr>ct_sock :=
      arrive (map (\<lambda>b. Data [b]) (new_bytes (connection []) s')) (ct_sock new_client)\<rparr>) = Inr (True, cl') \<and>
    new_bytes (ct_sock new_client) (ct_sock cl') = request \<and> ct_my_uid cl' = of_int 2"
proof -
  let ?sv = "(online_server [])\<lparr>sv_active := new_map\<rparr>"
  let ?c = "\<lparr>cl_connfd = 4, cl_message_queue = zero_queue, cl_uid = -1, cl_username = zero_name, cl_file_id = 0\<rparr>"
  have inv: "sv_inv ?sv"
    using online_server_inv [of "[]"] hm_inv_new [OF new_map_new] unfolding sv_inv_def by simp
  have will: "willing ?sv" using online_server_sound(1) [of "[]"] by (simp add: willing_def)
  have room: "0 < hm_room (sv_active ?sv)"
    using hm_room_new [OF new_map_new] INITIAL_SIZE_bounds(1) by simp
  have f: "file_of ?sv CREDENTIAL_FILE_NAME = Some (cred_file sample_users)"
    using online_server_facts(5) [of "[]"] by (simp add: file_of_def)
  have user: "user_ok (''bob'', ''pw'')" using sample_rep by (simp add: cred_rep_def sample_users_def)
  have match: "match_user_pw (file_of ?sv CREDENTIAL_FILE_NAME) (name_buf ''bob'') (pw_buf ''pw'') = Inr 2"
    unfolding f using match_user_pw_cred [OF sample_rep c_str_bufs [OF user]] by (simp add: sample_users_def)
  show ?thesis
    by (rule exI [of _ ?c], rule login_end_to_end [OF bytewise inv will _ _ _ _ _ _ room user _ match])
      (simp_all add: connection_def clean_def stream_def sample_env_def sample_client_env_def
        new_client_def init_client_def tolower_def)
qed

end
