(* ===== verification/Invitation.thy ===== *)
theory Invitation
  imports Network
begin

text \<open>
  The whole way of an invitation: a command in a group's window, the server, the terminal of the user
  who is invited, and the server again.
\<close>

section \<open>The command in the window\<close>

definition invite_packet :: "u8 \<Rightarrow> u16 \<Rightarrow> string \<Rightarrow> mainhdr" where
  "invite_packet gid uid name = \<lparr>hdr_cmd = INVITE, hdr_gid = gid, hdr_uid = uid,
     hdr_len = of_nat (length name), hdr_payload = name @ [nul]\<rparr>"

lemma invite_packet_sendable: "length name < 2 ^ 30 \<Longrightarrow> sendable (invite_packet gid uid name)"
  "length name < 2 ^ 30 \<Longrightarrow> unat (hdr_len (invite_packet gid uid name)) = length name"
  by (simp_all add: sendable_def invite_packet_def unat_of_nat)

lemma make_packet_zeroed:
  assumes "\<And>n. ce_malloc ce n" and "n < 2 ^ 30"
  shows "make_packet ce cmd gid uid (of_nat n) = Inr \<lparr>hdr_cmd = cmd, hdr_gid = gid, hdr_uid = uid,
    hdr_len = of_nat n, hdr_payload = replicate (n + 1) nul\<rparr>"
proof -
  have "unat (of_nat n :: u32) = n" using assms(2) by (simp add: unat_of_nat)
  moreover have "(of_nat n + 1 :: u32) = of_nat (n + 1)" by simp
  then have "unat (of_nat n + 1 :: u32) = n + 1" using assms(2) by (simp only: unat_of_nat) simp
  ultimately show ?thesis using assms(1) by (simp add: make_packet_def create_and_fill_hdr_def)
qed

lemma handle_window_line_invite:
  assumes "nul \<notin> set name" and "space \<notin> set name" and "length name < 2 ^ 29" and "\<And>n. ce_malloc ce n"
  shows "handle_window_line ce gid sockfd (''/invite '' @ name @ nul # rest) (int (8 + length name)) cl =
    and_then (queue_outgoing (invite_packet gid (ct_my_uid cl) name) (uint INVITE) cl) (\<lambda>cl. Inr (True, cl))"
proof -
  let ?msg = "''/invite '' @ name @ nul # rest"
  have str: "c_str ?msg = Inr (''/invite '' @ name)"
    using c_str_terminated [of "''/invite '' @ name" rest] assms(1) by (simp add: nul_def)
  obtain j where sp: "split (ce_split ce) ?msg space = Inr (2, [''/invite'' @ [nul], name @ [j]])"
    using split_two [of ?msg "''/invite''" space name "ce_split ce"] str assms(2) by auto
  have cmp: "strncmp_eq ?msg ''/invite '' 8 = Inr True"
    using strncmp_eq_prefix [of "''/invite '' @ name" "''/invite ''" 8 rest "[]"] assms(1) by (simp add: nul_def)
  have n: "(of_int (int (8 + length name) - 8) :: u32) = of_nat (length name)" by simp
  have mk: "make_packet ce INVITE gid (ct_my_uid cl) (of_nat (length name)) = Inr
      \<lparr>hdr_cmd = INVITE, hdr_gid = gid, hdr_uid = ct_my_uid cl, hdr_len = of_nat (length name),
       hdr_payload = replicate (length name + 1) nul\<rparr>"
    by (rule make_packet_zeroed) (use assms(3,4) in auto)
  have len: "unat (of_nat (length name) :: u32) = length name" using assms(3) by (simp add: unat_of_nat)
  have "drop (length name) (replicate (length name + 1) nul) = [nul]"
    by (simp only: drop_replicate) simp
  then have cp: "strncpy (replicate (length name + 1) nul) (name @ [j]) (length name) = Inr (name @ [nul])"
    using strncpy_exact [of name "replicate (length name + 1) nul" "[j]"] assms(1) by simp
  show ?thesis
    using sp cmp mk cp len n
    by (simp add: handle_window_line_def input_def packet_with_def invite_packet_def del: replicate.simps)
qed

lemma invite_sent:
  assumes "about_to_send ce ev p (''/invite '' @ name) cb cl" and "length msg = MAX_MSG_SIZE"
    and "space \<notin> set name" and "msg ! (8 + length name) = nul"
  shows "\<exists>cb' msg' cl1 cl2. gui_turn ce gid fd (Some p) (Some (Key_Release ev)) [] cb msg cl =
      Inr (cb', msg', cl1) \<and>
    server_write_turn cl1 = Some (Inr cl2) \<and>
    new_bytes (ct_sock cl) (ct_sock cl2) = packet (invite_packet gid (ct_my_uid cl) name)"
proof -
  let ?line = "''/invite '' @ name"
  have line: "length ?line < MAX_MSG_SIZE" "nul \<notin> set name" and mal: "ce_malloc ce = (\<lambda>_. True)"
    using assms(1) by (auto simp: about_to_send_def shows_line_def)
  then have small: "length name < 2 ^ 29" "8 + length name < length msg"
    using assms(2) by (simp_all add: MAX_MSG_SIZE_def)
  have len: "length ?line = 8 + length name" by simp
  have "drop (length ?line) msg = nul # drop (Suc (length ?line)) msg"
    using Cons_nth_drop_Suc [OF small(2)] unfolding len assms(4) by (rule sym)
  then have w: "handle_window_line ce gid fd (?line @ drop (length ?line) msg) (int (length ?line)) cl =
      and_then (queue_outgoing (invite_packet gid (ct_my_uid cl) name) (uint INVITE) cl) (\<lambda>cl. Inr (True, cl))"
    using handle_window_line_invite [OF line(2) assms(3) small(1), of ce gid fd "drop (Suc (length ?line)) msg" cl]
      mal by simp
  have "sendable (invite_packet gid (ct_my_uid cl) name)" using invite_packet_sendable(1) small(1) by simp
  from command_sent [OF assms(1,2) this w] show ?thesis by blast
qed

section \<open>Through the server\<close>

definition invitation :: "u8 \<Rightarrow> u16 \<Rightarrow> mainhdr" where
  "invitation gid uid = \<lparr>hdr_cmd = INVITE, hdr_gid = gid, hdr_uid = uid, hdr_len = 0, hdr_payload = [nul]\<rparr>"

lemma invitation_sendable: "sendable (invitation gid uid)"
  by (simp add: sendable_def invitation_def)

lemma handle_invite_member:
  assumes "group_at sv (hdr_gid recv) = Inr g" and "hdr_uid recv \<in> set g" and "hdr_uid recv \<noteq> 0"
    and "hdr_payload recv = name @ rest" and "hdr_len recv = of_nat (length name)"
    and "length name < MAX_CHAR_USERID" and "nul \<notin> set name"
    and "find_uid (file_of sv CREDENTIAL_FILE_NAME) (name_buf name) = Inr (uint k)" and "k \<noteq> 0"
    and "hm_inv (sv_active sv)" and "hm_lookup (sv_active sv) (ucast k) = Some (Some q)"
    and "\<And>n. en_malloc env n"
  shows "handle_invite env recv sv = reply q (invitation (hdr_gid recv) (hdr_uid recv)) sv"
proof -
  have len: "unat (hdr_len recv) = length name"
    using assms(5,6) by (simp add: unat_of_nat MAX_CHAR_USERID_def)
  have "check_header_invite recv = 0" using check_header_invite_ok [of recv] assms(3,6) len by simp
  moreover have "strncpy zero_name (hdr_payload recv) (unat (hdr_len recv)) = Inr (name_buf name)"
    unfolding assms(4) len using strncpy_exact [of name zero_name rest] assms(6,7)
    by (simp add: zero_name_def name_buf_def)
  moreover have "\<not> uint k \<le> 0" using assms(9) uint_nonnegative [of k] by (simp add: le_less uint_0_iff)
  moreover have "(of_int (uint k) :: u64) = ucast k" by simp
  moreover have "new_packet env INVITE (hdr_gid recv) (hdr_uid recv) 0 =
      Inr (invitation (hdr_gid recv) (hdr_uid recv))"
    using assms(12) by (simp add: new_packet_def create_and_fill_hdr_def invitation_def uninit_def)
  moreover have "g \<noteq> []" using assms(2) by auto
  ultimately show ?thesis
    using assms(1,2,8,10,11)
    by (simp add: handle_invite_def check_user_in_group_def find_member_iff hashmap_get_lookup)
qed

lemma invitation_forwarded:
  assumes "delivers chop" and "serves_group env p gid uid g us fd sv"
    and "length name < MAX_CHAR_USERID" and "nul \<notin> set name"
    and "find_uid (file_of sv CREDENTIAL_FILE_NAME) (name_buf name) = Inr (uint k)" and "k \<noteq> 0"
    and "hm_lookup (sv_active sv) (ucast k) = Some (Some q)" and "sv_data sv q = Some d"
    and "sv_socks sv (cl_connfd d) = Some t" and "clean t" and "stream t = []"
  shows "\<exists>sv' t'. serve env p (arrive_at fd (chop (packet (invite_packet gid uid name))) sv) = Some (Inr sv') \<and>
    quiet sv sv' \<and> sv_socks sv' (cl_connfd d) = Some t' \<and> clean t' \<and> stream t' = [] \<and>
    new_bytes t t' = packet (invitation gid uid)"
proof -
  note A = assms(2) [unfolded serves_group_def]
  let ?h = "invite_packet gid uid name"
  let ?recv = "?h\<lparr>hdr_payload := take (unat (hdr_len ?h)) (hdr_payload ?h) @ [nul]\<rparr>"
  have small: "length name < 2 ^ 30" using assms(3) by (simp add: MAX_CHAR_USERID_def)
  note h = invite_packet_sendable [OF small]
  obtain c s where c: "sv_data sv p = Some c" "cl_connfd c = fd" "sv_socks sv fd = Some s" "clean s" "stream s = []"
    using A by blast
  have "hdr_cmd ?h \<noteq> SEND_FILE" by (simp add: invite_packet_def)
  from serve_reads_packet [OF assms(1) c(1) _ c(4,5) h(1) this] A c obtain s' where s':
    "serve env p (arrive_at fd (chop (packet ?h)) sv) =
      handle env p ?recv (sv\<lparr>sv_socks := (sv_socks sv)(fd \<mapsto> s')\<rparr>)" "clean s'" "stream s' = []" "same_out s s'"
    by auto
  let ?sv = "sv\<lparr>sv_socks := (sv_socks sv)(fd \<mapsto> s')\<rparr>"
  have recv: "hdr_payload ?recv = name @ [nul]" "hdr_gid ?recv = gid" "hdr_uid ?recv = uid"
    "hdr_len ?recv = of_nat (length name)" "hdr_cmd ?recv = INVITE"
    using h(2) by (simp_all add: invite_packet_def)
  have "handle env p ?recv ?sv = Some (handle_invite env ?recv ?sv)"
    unfolding handle_def recv(5) by simp
  moreover have "handle_invite env ?recv ?sv = reply q (invitation (hdr_gid ?recv) (hdr_uid ?recv)) ?sv"
    by (rule handle_invite_member [OF _ _ _ recv(1,4) assms(3,4) _ assms(6)])
      (use A assms(5,7) recv in \<open>auto simp: group_at_socks file_of_def sv_inv_def\<close>)
  moreover obtain t1 where t1: "sv_socks ?sv (cl_connfd d) = Some t1" "same_out t t1" "clean t1" "stream t1 = []"
    using assms(9-11) c(3) s' by (cases "cl_connfd d = fd") (auto simp: same_out_def)
  have "sk_accept t1 = []" using A assms(9) t1(2) by (auto simp: willing_def same_out_def)
  from reply_ok [OF invitation_sendable _ t1(1) this] assms(8)
  have "reply q (invitation gid uid) ?sv = Inr (?sv\<lparr>sv_socks := (sv_socks ?sv)(cl_connfd d \<mapsto>
      t1\<lparr>sk_sent := sk_sent t1 @ packet (invitation gid uid)\<rparr>)\<rparr>)" by simp
  ultimately show ?thesis
    using s'(1) t1 recv c(3) assms(9) unfolding same_out_def
    by (auto simp: new_bytes_def quiet_def clean_def stream_def)
qed

section \<open>In the terminal of the invited user\<close>

lemma server_read_invitation:
  assumes "delivers chop" and "client_inv cl" and "pending cl Requests = Some []"
    and "h_left (ct_heap cl) \<noteq> 0" and "clean (ct_sock cl)" and "stream (ct_sock cl) = []"
    and "\<And>n. ce_malloc ce n" and "length (ce_stack ce) = HDR_SIZE"
  shows "\<exists>cl'. server_read_turn ce
      (cl\<lparr>ct_sock := arrive (chop (packet (invitation gid uid))) (ct_sock cl)\<rparr>) = Some (Inr (True, cl')) \<and>
    client_inv cl' \<and> pending cl' = (pending cl)(Requests \<mapsto> [(Some (Gid gid), 0)]) \<and>
    h_left (ct_heap cl) \<le> h_left (ct_heap cl') + 1 \<and> ct_mapping cl' = ct_mapping cl \<and>
    ct_my_uid cl' = ct_my_uid cl \<and> same_out (ct_sock cl) (ct_sock cl')"
proof -
  let ?s = "arrive (chop (packet (invitation gid uid))) (ct_sock cl)"
  have s: "clean ?s" "stream ?s = packet (invitation gid uid) @ []"
    using arrive_clean [OF assms(1,5,6)] by simp_all
  have "hdr_cmd (invitation gid uid) \<noteq> SEND_FILE" by (simp add: invitation_def)
  from read_main_header_ok [OF s invitation_sendable this assms(8), of "ce_malloc ce" "ce_junk ce"] assms(7)
  obtain s' where r: "read_main_header (ce_malloc ce) (ce_stack ce) (ce_junk ce) ?s =
      Inr (Some (invitation gid uid), s')" "same_out ?s s'"
    by (auto simp: invitation_def)
  let ?cl = "cl\<lparr>ct_sock := s'\<rparr>"
  have inv: "client_inv ?cl" using assms(2) by simp
  obtain h' q' where q: "queue_request gid ?cl = Inr (?cl\<lparr>ct_heap := h', ct_requests := q'\<rparr>)"
      "client_inv (?cl\<lparr>ct_heap := h', ct_requests := q'\<rparr>)"
      "posts Requests (Some (Gid gid), 0) ?cl (?cl\<lparr>ct_heap := h', ct_requests := q'\<rparr>)"
    using queue_request_total [OF inv, of gid] by blast
  have same: "pending ?cl = pending cl" by (simp add: pending_def)
  have "pending (?cl\<lparr>ct_heap := h', ct_requests := q'\<rparr>) = (pending cl)(Requests \<mapsto> [(Some (Gid gid), 0)])"
    using q(3) assms(3,4) by (auto simp: posts_def same)
  moreover have "h_left (ct_heap cl) \<le> h_left h' + 1"
    using q(1) by (auto simp: queue_request_def elim!: and_then_InrE
        dest!: thread_queue_add_left arg_cong [where f = ct_heap])
  moreover have "server_read_turn ce (cl\<lparr>ct_sock := ?s\<rparr>) =
      Some (Inr (True, ?cl\<lparr>ct_heap := h', ct_requests := q'\<rparr>))"
    using r(1) q(1) assms(7) by (simp add: server_read_turn_def handle_server_packet_def invitation_def)
  ultimately show ?thesis
    using q(2) r(2) by (intro exI [of _ "?cl\<lparr>ct_heap := h', ct_requests := q'\<rparr>"]) (simp add: same_out_def)
qed

text \<open>A client of which nothing is pending, with memory and an idle connection.\<close>

definition at_rest :: "client_env \<Rightarrow> client \<Rightarrow> bool" where
  "at_rest ce cl \<longleftrightarrow> client_inv cl \<and> pending cl Requests = Some [] \<and> pending cl Outgoing = Some [] \<and>
     1 < h_left (ct_heap cl) \<and> 0 < hm_room (ct_mapping cl) \<and>
     clean (ct_sock cl) \<and> stream (ct_sock cl) = [] \<and> sk_accept (ct_sock cl) = [] \<and>
     opens_groups ce \<and> length (ce_stack ce) = HDR_SIZE"

lemma invitation_answered:
  assumes "delivers chop" and "at_rest ce cl" and "tolower a = CHR ''y''"
  shows "\<exists>cl1 cl2 cl3 w. server_read_turn ce
      (cl\<lparr>ct_sock := arrive (chop (packet (invitation gid uid))) (ct_sock cl)\<rparr>) = Some (Inr (True, cl1)) \<and>
    answer_invitation ce a cl1 = Inr cl2 \<and> server_write_turn cl2 = Some (Inr cl3) \<and>
    new_bytes (ct_sock cl) (ct_sock cl3) = packet (invite_answer (ct_my_uid cl) gid (CHR ''a'')) \<and>
    hm_lookup (ct_mapping cl2) = (hm_lookup (ct_mapping cl))(ucast gid \<mapsto> Some w) \<and>
    pending cl2 (Window w) = Some []"
proof -
  note A = assms(2) [unfolded at_rest_def]
  obtain cl1 where 1: "server_read_turn ce
      (cl\<lparr>ct_sock := arrive (chop (packet (invitation gid uid))) (ct_sock cl)\<rparr>) = Some (Inr (True, cl1))"
      "client_inv cl1" "pending cl1 = (pending cl)(Requests \<mapsto> [(Some (Gid gid), 0)])"
      "h_left (ct_heap cl) \<le> h_left (ct_heap cl1) + 1" "ct_mapping cl1 = ct_mapping cl"
      "ct_my_uid cl1 = ct_my_uid cl" "same_out (ct_sock cl) (ct_sock cl1)"
    using server_read_invitation [OF assms(1), of cl ce gid uid] A by (auto simp: opens_groups_def)
  have "pending cl1 Requests = Some ((Some (Gid gid), 0) # [])" "0 < hm_room (ct_mapping cl1)"
    "h_left (ct_heap cl1) \<noteq> 0" "opens_groups ce" "pending cl1 Outgoing = Some []"
    using 1 A by simp_all
  from answer_yes [OF 1(2) this(1,4,2) assms(3)] this(3,5) obtain w cl2 where 2:
      "answer_invitation ce a cl1 = Inr cl2"
      "hm_lookup (ct_mapping cl2) = (hm_lookup (ct_mapping cl))(ucast gid \<mapsto> Some w)"
      "pending cl2 = (pending cl1)(Requests \<mapsto> [], Outgoing \<mapsto>
        [(Some (Packet (invite_answer (ct_my_uid cl) gid (CHR ''a''))), uint INVITE_RESP)], Window w \<mapsto> [])"
      "client_inv cl2" "ct_sock cl2 = ct_sock cl1"
    unfolding 1(5,6) by auto
  have "pending cl2 Outgoing = Some [(Some (Packet (invite_answer (ct_my_uid cl) gid (CHR ''a''))), uint INVITE_RESP)]"
    "sendable (invite_answer (ct_my_uid cl) gid (CHR ''a''))" "sk_accept (ct_sock cl2) = []"
    using 1(7) 2(5) A by (simp_all add: 2(3) same_out_def, simp add: sendable_def invite_answer_def)
  from only_packet_sent [OF 2(4) this] obtain cl3 where
    "server_write_turn cl2 = Some (Inr cl3)"
    "new_bytes (ct_sock cl2) (ct_sock cl3) = packet (invite_answer (ct_my_uid cl) gid (CHR ''a''))" by blast
  moreover have "new_bytes (ct_sock cl2) (ct_sock cl3) = new_bytes (ct_sock cl) (ct_sock cl3)"
    using 1(7) 2(5) by (simp add: new_bytes_def same_out_def)
  ultimately show ?thesis using 1(1) 2(1,2,3) by auto
qed

section \<open>Properties\<close>

lemma invitation_joined:
  assumes "delivers chop" and "sv_inv sv" and "sv_data sv q = Some d" and "sv_socks sv (cl_connfd d) = Some t"
    and "clean t" and "stream t = []" and "group_at sv gid = Inr g" and "g \<noteq> []" and "k \<notin> set g" and "k \<noteq> 0"
    and "en_malloc env = (\<lambda>_. True)" and "length (en_stack env) = HDR_SIZE"
  shows "\<exists>sv'. serve env q (arrive_at (cl_connfd d) (chop (packet (invite_answer k gid (CHR ''a'')))) sv) =
      Some (Inr sv') \<and> sv_groups sv' = (sv_groups sv)[unat gid := g @ [k]]"
proof -
  let ?h = "invite_answer k gid (CHR ''a'')"
  have h: "sendable ?h" "hdr_cmd ?h \<noteq> SEND_FILE" by (simp_all add: sendable_def invite_answer_def)
  from serve_reads_packet [OF assms(1,3,4,5,6) h assms(11,12)] obtain s' where s':
    "serve env q (arrive_at (cl_connfd d) (chop (packet ?h)) sv) =
      handle env q (?h\<lparr>hdr_payload := take (unat (hdr_len ?h)) (hdr_payload ?h) @ [nul]\<rparr>)
        (sv\<lparr>sv_socks := (sv_socks sv)(cl_connfd d \<mapsto> s')\<rparr>)" by blast
  let ?sv = "sv\<lparr>sv_socks := (sv_socks sv)(cl_connfd d \<mapsto> s')\<rparr>"
  let ?recv = "?h\<lparr>hdr_payload := take (unat (hdr_len ?h)) (hdr_payload ?h) @ [nul]\<rparr>"
  have recv: "hdr_cmd ?recv = INVITE_RESP" "hdr_gid ?recv = gid" "hdr_uid ?recv = k" "hdr_len ?recv = 1"
    "hdr_payload ?recv = [CHR ''a'', nul]" by (simp_all add: invite_answer_def)
  have g: "unat gid < length (sv_groups sv)" "g = sv_groups sv ! unat gid" using assms(7) by (auto simp: group_at_Inr)
  have "handle env q ?recv ?sv = Some (handle_invite_resp env ?recv ?sv)" unfolding handle_def recv(1) by simp
  moreover have "handle_invite_resp env ?recv ?sv = Inr (?sv\<lparr>sv_groups := (sv_groups sv)[unat gid := g @ [k]]\<rparr>)"
    using handle_invite_resp_eq [of ?recv ?sv env] g assms(8-11) unfolding recv
    by (simp add: MAX_CHAR_USERID_def)
  ultimately show ?thesis using s' by simp
qed

text \<open>C3: The whole way of an invitation. When a member of a group enters the command to invite a
  registered user who is online, the client sends the request; however the transport cuts the bytes,
  the server passes the invitation on to the user's connection; the user's client puts it into its
  queue of invitations, and when the user says yes, opens the group with an empty window queue and
  sends the answer; with it the server appends exactly this user to the group. The command works only
  if the buffer that the window copies the line into, which it does not terminate, happens to hold a
  zero byte after the line.\<close>

theorem invitation_end_to_end:
  assumes "delivers chop" and "about_to_send cea ev pa (''/invite '' @ name) boxa a"
    and "length msga = MAX_MSG_SIZE" and "msga ! (8 + length name) = nul"
    and "space \<notin> set name" and "length name < MAX_CHAR_USERID" and "nul \<notin> set name"
    and "serves_group env p gid (ct_my_uid a) g us fd sv"
    and "find_uid (file_of sv CREDENTIAL_FILE_NAME) (name_buf name) = Inr (uint (ct_my_uid b))"
    and "ct_my_uid b \<noteq> 0" and "ct_my_uid b \<notin> set g"
    and "hm_lookup (sv_active sv) (ucast (ct_my_uid b)) = Some (Some q)" and "sv_data sv q = Some d"
    and "sv_socks sv (cl_connfd d) = Some t" and "clean t" and "stream t = []"
    and "at_rest ceb b" and "tolower yes = CHR ''y''"
  shows "\<exists>boxa' msga' a1 a2 sv1 t1 b1 b2 b3 w sv2.
    gui_turn cea gid fda (Some pa) (Some (Key_Release ev)) [] boxa msga a = Inr (boxa', msga', a1) \<and>
    server_write_turn a1 = Some (Inr a2) \<and>
    serve env p (arrive_at fd (chop (new_bytes (ct_sock a) (ct_sock a2))) sv) = Some (Inr sv1) \<and>
    sv_socks sv1 (cl_connfd d) = Some t1 \<and>
    server_read_turn ceb (b\<lparr>ct_sock := arrive (chop (new_bytes t t1)) (ct_sock b)\<rparr>) = Some (Inr (True, b1)) \<and>
    answer_invitation ceb yes b1 = Inr b2 \<and> server_write_turn b2 = Some (Inr b3) \<and>
    hm_lookup (ct_mapping b2) (ucast gid) = Some (Some w) \<and> pending b2 (Window w) = Some [] \<and>
    serve env q (arrive_at (cl_connfd d) (chop (new_bytes (ct_sock b) (ct_sock b3))) sv1) = Some (Inr sv2) \<and>
    sv_groups sv2 = (sv_groups sv)[unat gid := g @ [ct_my_uid b]]"
proof -
  from invite_sent [OF assms(2,3,5,4), of gid fda] obtain boxa' msga' a1 a2 where 1:
    "gui_turn cea gid fda (Some pa) (Some (Key_Release ev)) [] boxa msga a = Inr (boxa', msga', a1)"
    "server_write_turn a1 = Some (Inr a2)"
    "new_bytes (ct_sock a) (ct_sock a2) = packet (invite_packet gid (ct_my_uid a) name)" by blast
  from invitation_forwarded [OF assms(1,8,6,7,9,10,12-16)] obtain sv1 t1 where 2:
    "serve env p (arrive_at fd (chop (packet (invite_packet gid (ct_my_uid a) name))) sv) = Some (Inr sv1)"
    "quiet sv sv1" "sv_socks sv1 (cl_connfd d) = Some t1" "clean t1" "stream t1 = []"
    "new_bytes t t1 = packet (invitation gid (ct_my_uid a))" by blast
  from invitation_answered [OF assms(1,17,18), of gid "ct_my_uid a"] obtain b1 b2 b3 w where 3:
    "server_read_turn ceb (b\<lparr>ct_sock := arrive (chop (packet (invitation gid (ct_my_uid a)))) (ct_sock b)\<rparr>) =
      Some (Inr (True, b1))"
    "answer_invitation ceb yes b1 = Inr b2" "server_write_turn b2 = Some (Inr b3)"
    "new_bytes (ct_sock b) (ct_sock b3) = packet (invite_answer (ct_my_uid b) gid (CHR ''a''))"
    "hm_lookup (ct_mapping b2) = (hm_lookup (ct_mapping b))(ucast gid \<mapsto> Some w)"
    "pending b2 (Window w) = Some []" by blast
  note A = assms(8) [unfolded serves_group_def]
  have sv1: "sv_inv sv1" "sv_data sv1 q = Some d" "group_at sv1 gid = Inr g" "g \<noteq> []" "sv_groups sv1 = sv_groups sv"
    using 2(2) A assms(13) quiet_inv [OF 2(2)] by (auto simp: quiet_def group_at_Inr)
  from invitation_joined [OF assms(1) sv1(1,2) 2(3-5) sv1(3,4) assms(11,10)] A obtain sv2 where
    "serve env q (arrive_at (cl_connfd d) (chop (packet (invite_answer (ct_my_uid b) gid (CHR ''a'')))) sv1) =
      Some (Inr sv2)" "sv_groups sv2 = (sv_groups sv)[unat gid := g @ [ct_my_uid b]]"
    unfolding sv1(5) by auto
  note answered = this
  have opened: "hm_lookup (ct_mapping b2) (ucast gid) = Some (Some w)" using 3(5) by simp
  show ?thesis
    using 1(1,2) 2(1) [folded 1(3)] 2(3) 3(1) [folded 2(6)] 3(2,3,6) opened
      answered(1) [folded 3(4)] answered(2)
    by (intro exI conjI)
qed

text \<open>User 1, \<open>ann\<close>, and user 2, \<open>bob\<close>, on connections of their own; \<open>ann\<close> is in group 0.\<close>

definition talk_map :: "nat hashmap_map" where
  "talk_map = (case hashmap_put (\<lambda>_. True) online_map 2 (Some 8) of Inr (_, m) \<Rightarrow> m | Inl _ \<Rightarrow> online_map)"

lemma talk_map_facts: "hm_inv talk_map" "hm_lookup talk_map = [1 \<mapsto> Some 7, 2 \<mapsto> Some 8]"
proof -
  have new: "hm_inv new_map" "0 < hm_room new_map"
    using hm_inv_new [OF new_map_new] hm_room_new [OF new_map_new] INITIAL_SIZE_bounds(1) by simp_all
  from hm.put_room [OF new, of "\<lambda>_. True" 1 "Some 7"] have "hm_room new_map = Suc (hm_room online_map)"
    by (auto simp: online_map_def)
  then have "0 < hm_room online_map" using hm_room_new [OF new_map_new] INITIAL_SIZE_def by simp
  from hm.put_room [OF online_map_facts(1) this, of "\<lambda>_. True" 2 "Some 8"]
  show "hm_inv talk_map" "hm_lookup talk_map = [1 \<mapsto> Some 7, 2 \<mapsto> Some 8]"
    using online_map_facts(2) by (auto simp: talk_map_def)
qed

definition talk_server :: server where
  "talk_server = (accept_client 8 5 (connection []) zero_name (online_server []))\<lparr>sv_active := talk_map\<rparr>"

lemma talk_server_facts:
  "sv_data talk_server 8 = Some \<lparr>cl_connfd = 5, cl_message_queue = zero_queue, cl_uid = -1,
     cl_username = zero_name, cl_file_id = 0\<rparr>"
  "sv_socks talk_server 5 = Some (connection [])" "sv_active talk_server = talk_map"
  "file_of talk_server CREDENTIAL_FILE_NAME = Some (cred_file sample_users)"
  "serves_group sample_env 7 0 1 [1] sample_users 4 talk_server"
proof -
  have "sv_inv (accept_client 8 5 (connection []) zero_name (online_server []))"
    using accept_client_inv [OF online_server_inv [of "[]"], of 5 zero_name] by (simp add: zero_name_def)
  then have inv: "sv_inv talk_server" using talk_map_facts(1) by (simp add: talk_server_def sv_inv_def)
  have t: "sv_data talk_server = (sv_data (online_server []))(8 \<mapsto> \<lparr>cl_connfd = 5,
      cl_message_queue = zero_queue, cl_uid = -1, cl_username = zero_name, cl_file_id = 0\<rparr>)"
    "sv_socks talk_server = (sv_socks (online_server []))(5 \<mapsto> connection [])"
    "sv_groups talk_server = sv_groups sample_server" "sv_active talk_server = talk_map"
    "file_of talk_server CREDENTIAL_FILE_NAME = Some (cred_file sample_users)"
    using online_server_facts(5) [of "[]"]
    by (simp_all add: talk_server_def accept_client_def file_of_def)
  then show "sv_data talk_server 8 = Some \<lparr>cl_connfd = 5, cl_message_queue = zero_queue, cl_uid = -1,
      cl_username = zero_name, cl_file_id = 0\<rparr>"
    "sv_socks talk_server 5 = Some (connection [])" "sv_active talk_server = talk_map"
    "file_of talk_server CREDENTIAL_FILE_NAME = Some (cred_file sample_users)" by simp_all
  have "willing talk_server" by (simp add: willing_def t connection_def)
  moreover have "sound_for talk_server [1]" using talk_map_facts(2) by (simp add: sound_for_def t)
  ultimately show "serves_group sample_env 7 0 1 [1] sample_users 4 talk_server"
    using inv sample_rep
    by (simp add: serves_group_def t connection_def clean_def stream_def group_at_Inr GROUP_NUM_MAX_def
        sample_env_def sample_users_def)
qed

definition bob_client :: client where
  "bob_client = new_client\<lparr>ct_my_uid := 2\<rparr>"

lemma bob_at_rest: "at_rest sample_client_env bob_client" "ct_my_uid bob_client = 2"
proof -
  have "client_inv bob_client" using client_reachable_inv [OF new_client_reachable] by (simp add: bob_client_def)
  moreover have "0 < hm_room (ct_mapping bob_client)"
    using hm_room_new [OF new_map_new] INITIAL_SIZE_bounds(1)
    by (simp add: bob_client_def new_client_def init_client_def)
  ultimately show "at_rest sample_client_env bob_client" "ct_my_uid bob_client = 2"
    by (simp_all add: at_rest_def opens_groups_def bob_client_def new_client_def init_client_def pending_def family_contents_def
        empty_heap_def connection_def clean_def stream_def sample_client_env_def)
qed

theorem invitation_end_to_end_witness:
  "\<exists>(d :: client_thread_data) boxa' msga' a1 a2 sv1 t1 b1 b2 b3 w sv2.
    gui_turn sample_client_env 0 3 (Some 0) (Some (Key_Release return_key)) [] (typed_box (''/invite '' @ ''bob''))
      (replicate MAX_MSG_SIZE nul) member_client = Inr (boxa', msga', a1) \<and>
    server_write_turn a1 = Some (Inr a2) \<and>
    serve sample_env 7 (arrive_at 4 (map (\<lambda>c. Data [c]) (new_bytes (ct_sock member_client) (ct_sock a2)))
      talk_server) = Some (Inr sv1) \<and>
    sv_socks sv1 (cl_connfd d) = Some t1 \<and>
    server_read_turn sample_client_env (bob_client\<lparr>ct_sock :=
      arrive (map (\<lambda>c. Data [c]) (new_bytes (connection []) t1)) (ct_sock bob_client)\<rparr>) = Some (Inr (True, b1)) \<and>
    answer_invitation sample_client_env (CHR ''Y'') b1 = Inr b2 \<and> server_write_turn b2 = Some (Inr b3) \<and>
    hm_lookup (ct_mapping b2) (ucast (0 :: u8)) = Some (Some w) \<and> pending b2 (Window w) = Some [] \<and>
    serve sample_env 8 (arrive_at (cl_connfd d) (map (\<lambda>c. Data [c]) (new_bytes (ct_sock bob_client) (ct_sock b3)))
      sv1) = Some (Inr sv2) \<and>
    sv_groups sv2 = (sv_groups talk_server)[unat (0 :: u8) := [1] @ [ct_my_uid bob_client]]"
proof (rule exI, rule invitation_end_to_end [OF bytewise sample_sender _ _ _ _ _ _ _ _ _ _ talk_server_facts(1) _ _ _ bob_at_rest(1)])
  show "serves_group sample_env 7 0 (ct_my_uid member_client) [1] sample_users 4 talk_server"
    using talk_server_facts(5) by (simp add: member_client_facts)
  show "find_uid (file_of talk_server CREDENTIAL_FILE_NAME) (name_buf ''bob'') = Inr (uint (ct_my_uid bob_client))"
    unfolding talk_server_facts(4) using find_uid_cred [OF sample_rep c_str_bufs(1) [OF sample_ok(3)]]
    by (simp add: sample_users_def bob_at_rest)
qed (simp_all add: bob_at_rest talk_map_facts talk_server_facts connection_def clean_def stream_def nul_def
    MAX_MSG_SIZE_def MAX_CHAR_USERID_def tolower_def nth_replicate del: replicate.simps)

end
