(* ===== verification/Startup.thy ===== *)
theory Startup
  imports Network
begin

text \<open>
  The two \<open>main\<close> functions at work: the ports on which both sides meet, the way from the command lines
  to a user who is logged in, and the connections for which \<open>main\<close> of the server does not do what it
  should: those that nobody serves, and those that do not exist.
\<close>

section \<open>Ports\<close>

lemma atoi_print_nat: "atoi (print_nat n) = int n"
  using scan_int_print_nat [of "[]" n] by (simp add: atoi_def)

definition port_of :: "char list \<Rightarrow> nat" where
  "port_of addr = from_be 0 (take 2 (drop 2 addr))"

lemma port_of_sockaddr: "n < 2 ^ 16 \<Longrightarrow> port_of (sockaddr_in fill (int n) addr) = n"
proof -
  assume "n < 2 ^ 16"
  then have "unat (of_int (int n) :: u16) = n" by (simp add: unat_of_nat)
  moreover obtain x y where "be16 (of_int (int n)) = [x, y]" by (simp add: be16_def)
  then have "take 2 (drop 2 (sockaddr_in fill (int n) addr)) = be16 (of_int (int n))"
    unfolding sockaddr_in_def by simp
  ultimately show ?thesis by (simp add: port_of_def from_be_be16)
qed

section \<open>Connections that nobody serves\<close>

text \<open>A descriptor that stays open and belongs to no client.\<close>

definition orphan :: "nat \<Rightarrow> server \<Rightarrow> bool" where
  "orphan fd sv \<longleftrightarrow> fd \<in> dom (sv_socks sv) \<and> (\<forall>p c. sv_data sv p = Some c \<longrightarrow> cl_connfd c \<noteq> fd)"

definition same_conns :: "server \<Rightarrow> server \<Rightarrow> bool" where
  "same_conns sv sv' \<longleftrightarrow> dom (sv_socks sv') = dom (sv_socks sv) \<and>
     (\<forall>p. map_option cl_connfd (sv_data sv' p) = map_option cl_connfd (sv_data sv p))"

lemma same_conns_orphan: "same_conns sv sv' \<Longrightarrow> orphan fd sv \<Longrightarrow> orphan fd sv'"
  unfolding same_conns_def orphan_def by (metis map_option_eq_Some)

lemma quiet_same_conns: "quiet sv sv' \<Longrightarrow> same_conns sv sv'"
  by (simp add: quiet_def same_conns_def)

lemma handle_same_conns:
  assumes "sv_inv sv" and "handle env p recv sv = Some (Inr sv')"
  shows "same_conns sv sv'"
proof -
  have inv: "hm_inv (sv_active sv)" and gs: "\<forall>i < sv_group_cnt sv. sv_groups sv ! i \<noteq> []"
      "length (sv_groups sv) = GROUP_NUM_MAX"
    using assms(1) by (auto simp: sv_inv_def groups_ok_def)
  have login: "same_conns sv sv'" if "handle_usr_login env p recv sv = Inr sv'"
    using handle_usr_login_changes [OF that inv] by (auto simp: quiet_def same_conns_def)
  have create: "same_conns sv sv'" if "handle_create_group env p recv sv = Inr sv'"
    using handle_create_group_changes [OF that gs] by (auto simp: quiet_def same_conns_def)
  have resp: "same_conns sv sv'" if "handle_invite_resp env recv sv = Inr sv'"
    using that by (auto simp: handle_invite_resp_def add_user_to_group_def same_conns_def
        elim!: and_then_InrE split: if_splits list.splits)
  have download: "same_conns sv sv'" if "handle_download_file env p recv sv = Inr sv'"
    using handle_download_file_changes [OF that] by (auto simp: quiet_def same_conns_def)
  show ?thesis
    using assms(2) login create resp download quiet_same_conns [of sv sv'] quiet_same_conns [OF quiet_refl]
      handle_usr_create_quiet handle_invite_quiet handle_send_chat_quiet handle_active_list_quiet
      handle_send_file_quiet
    by (auto simp: handle_def split: if_splits)
qed

lemma serve_orphan:
  assumes "sv_inv sv" and "orphan fd sv" and "serve env p sv = Some (Inr sv')"
  shows "orphan fd sv'"
proof -
  obtain c recv s' where c: "sv_data sv p = Some c"
    and rd: "read_main_header (en_malloc env) (en_stack env) (en_junk env) (sock_of sv (cl_connfd c)) =
      Inr (recv, s')"
    using assms(3) by (auto simp: serve_def split: sum.splits elim!: and_then_InrE)
  let ?sv = "put_sock (cl_connfd c) s' sv"
  have o: "orphan fd ?sv" using assms(2) same_conns_orphan quiet_same_conns [OF quiet_upd(4)] by blast
  have inv: "sv_inv ?sv" using quiet_inv [OF quiet_upd(4)] assms(1) by blast
  have r: "(case recv of None \<Rightarrow> Some (exit_thread p ?sv) | Some h \<Rightarrow> handle env p h ?sv) = Some (Inr sv')"
    using assms(3) c rd by (auto simp: serve_def load_client_def split: option.splits)
  show ?thesis
  proof (cases recv)
    case (Some h)
    then show ?thesis using r handle_same_conns [OF inv] same_conns_orphan [OF _ o] by simp
  next
    case None
    then have "exit_thread p ?sv = Inr sv'" using r by simp
    moreover obtain d where d: "sv_data ?sv p = Some d" using c by (simp add: put_sock_def)
    moreover have "hm_inv (sv_active ?sv)" using inv by (simp add: sv_inv_def)
    ultimately obtain active where "sv' = ?sv\<lparr>sv_socks := (sv_socks ?sv)(cl_connfd d := None),
        sv_active := active, sv_data := (sv_data ?sv)(p := None)\<rparr>"
      using exit_thread_eq by fastforce
    then show ?thesis using o d by (auto simp: orphan_def)
  qed
qed

interpretation idle: ordered_system server_step "\<lambda>sv. sv_inv sv \<and> orphan fd sv" grows for fd
proof unfold_locales
  fix sv sv'
  assume "sv_inv sv \<and> orphan fd sv" and step: "server_step sv sv'"
  then have inv: "sv_inv sv" "orphan fd sv" by auto
  have "orphan fd sv'" using step
  proof (cases rule: server_step.cases)
    case (connect ac)
    then have "descriptor (ac_fd ac) \<noteq> fd" using inv(2) by (auto simp: accept_ok_def orphan_def)
    then show ?thesis
      using connect(1,2) inv(2)
      by (cases rule: accept_turn_cases [OF connect]) (auto simp: accept_client_def orphan_def)
  next
    case (turn p env)
    then show ?thesis using serve_orphan [OF inv] by blast
  qed
  with sys.trans_inv [OF inv(1) step] show "(sv_inv sv' \<and> orphan fd sv') \<and> grows sv sv'" by blast
qed (simp, erule (1) grows_trans)

section \<open>Connections that do not exist\<close>

lemma put_sock_closed: "sv_socks sv fd = None \<Longrightarrow> put_sock fd s sv = sv"
  by (simp add: put_sock_def fun_upd_idem)

lemma read_closed:
  assumes "length stack = HDR_SIZE" and "\<And>n. malloc_ok n"
  shows "\<exists>h s. read_main_header malloc_ok stack junk closed_socket = Inr (Some h, s) \<and>
    hdr_cmd h = hdr_cmd (bytes_hdr stack) \<and> hdr_gid h = hdr_gid (bytes_hdr stack) \<and>
    hdr_uid h = hdr_uid (bytes_hdr stack) \<and> hdr_len h = hdr_len (bytes_hdr stack)"
  using assms(2)
  by (auto simp: read_main_header_def recv_wrapper_def sock_read_def closed_socket_def Let_def)

section \<open>Properties\<close>

text \<open>A server whose credential file has the sample users, started and with a first connection.\<close>

definition sample_files :: "string \<rightharpoonup> char list" where
  "sample_files = [''credential.txt'' \<mapsto> cred_file sample_users]"

definition first_connection :: accept_calls where
  "first_connection = accepting 7 4 (connection []) zero_name"

lemma started_server:
  "server_main starting [''server'', print_nat 5000] files = Running (3, Some (init_server new_map files))"
  by (simp add: server_main_running starting_def new_map_new)

lemma started_client:
  "client_setup sample_calls [''client'', ''127.0.0.1'', print_nat 5000] Map.empty = Running (Some new_client)"
  by (simp add: client_setup_running sample_calls_def new_client_def new_map_new)

lemma first_connection_ok:
  "accept_ok first_connection (init_server new_map files)" "ac_malloc first_connection = Some 7"
  "ac_fd first_connection = 4" "descriptor 4 = 4"
  using step_accept(1) [of "init_server new_map files" 7 4 zero_name "connection []"]
  by (simp_all add: first_connection_def accepting_def init_server_def zero_name_def descriptor_nat)

lemma accepted_invariants:
  assumes "sv_inv sv" and "accept_ok ac sv" and "ac_malloc ac = Some p"
    and "ac_cond ac = 0" and "ac_mutex ac = 0" and "ac_create ac = 0"
  shows "accept_turn ac sv = Inr (accept_client p (descriptor (ac_fd ac)) (ac_peer ac) (ac_name ac) sv)"
    and "sv_inv (accept_client p (descriptor (ac_fd ac)) (ac_peer ac) (ac_name ac) sv)"
proof -
  show "accept_turn ac sv = Inr (accept_client p (descriptor (ac_fd ac)) (ac_peer ac) (ac_name ac) sv)"
    using assms(2-6) by (simp add: accept_turn_def accept_ok_def accept_client_def thread_queue_init_def Let_def)
  from accept_turn_inv [OF assms(1,2) this] show
    "sv_inv (accept_client p (descriptor (ac_fd ac)) (ac_peer ac) (ac_name ac) sv)" by blast
qed

text \<open>C6: From the two command lines to a chat: a server and a client that are started with the same
  port number, below 65536, bind and connect to this port. When the server has accepted the
  connection of the client, a registered user who types the right name and password is logged in:
  the table of active users of the server, empty before, maps exactly this user to the connection, and
  the client takes the user's number and starts its threads. Both are in states that they reach from
  their start.\<close>

theorem start_to_login:
  assumes "server_main sc [prog, print_nat port] files = Running (listenfd, Some sv)"
    and "client_setup cc [prog', host, print_nat port] files' = Running (Some cl)" and "port < 2 ^ 16"
    and "accept_ok ac sv" and "ac_malloc ac = Some p"
    and "ac_cond ac = 0" and "ac_mutex ac = 0" and "ac_create ac = 0"
    and "clean (ac_peer ac)" and "stream (ac_peer ac) = []" and "sk_accept (ac_peer ac) = []"
    and "clean (ct_sock cl)" and "stream (ct_sock cl) = []" and "sk_accept (ct_sock cl) = []"
    and "delivers chop" and "en_malloc env = (\<lambda>_. True)" and "length (en_stack env) = HDR_SIZE"
    and "ce_malloc ce = (\<lambda>_. True)" and "length (ce_stack ce) = HDR_SIZE"
    and "user_ok (n, w)" and "CHR '':'' \<notin> set n" and "tolower a = CHR ''y''"
    and "match_user_pw (file_of sv CREDENTIAL_FILE_NAME) (name_buf n) (pw_buf w) = Inr k" and "0 < k"
    and "cc_create cc 0 = 0" and "cc_create cc 1 = 0"
  shows "\<exists>bound target sv1 request sv2 s2 cl1.
    0 \<le> sc_bind sc listenfd bound \<and> port_of bound = port \<and>
    cc_connect cc (cc_socket cc) target = Some (ct_sock cl) \<and> port_of target = port \<and>
    accept_turn ac sv = Inr sv1 \<and> reachable sv1 \<and> client_reachable cl \<and>
    serve env p (arrive_at (descriptor (ac_fd ac)) (chop request) sv1) = Some (Inr sv2) \<and>
    hm_lookup (sv_active sv2) = [of_int k \<mapsto> Some p] \<and>
    sv_socks sv2 (descriptor (ac_fd ac)) = Some s2 \<and>
    login_loop [(ce, a, junk, n, w)]
      (cl\<lparr>ct_sock := arrive (chop (new_bytes (ac_peer ac) s2)) (ct_sock cl)\<rparr>) = Some (Inr cl1) \<and>
    new_bytes (ct_sock cl) (ct_sock cl1) = request \<and> ct_my_uid cl1 = of_int k \<and>
    client_threads cc cl1 = Running cl1"
proof -
  let ?fd = "descriptor (ac_fd ac)"
  let ?sv = "accept_client p ?fd (ac_peer ac) (ac_name ac) sv"
  obtain active where sv: "sv = init_server active files" "hashmap_new (sc_malloc sc) (sc_calloc sc) = Some active"
      "0 \<le> sc_bind sc listenfd (sockaddr_in (CHR ''0'') (int port) (replicate 4 nul))"
    using assms(1) by (auto simp: server_main_running atoi_print_nat dest!: sym [of "Some _"])
  obtain addr where cl: "cc_connect cc (cc_socket cc) (sockaddr_in nul (int port) addr) = Some (ct_sock cl)"
    using assms(2) by (auto simp: client_setup_running atoi_print_nat init_client_def dest!: sym [of "Some _"])
  have inv: "sv_inv sv" by (rule server_main_inv [OF assms(1)])
  note acc = accepted_invariants [OF inv assms(4-8)]
  have "willing ?sv" using assms(11) by (auto simp: willing_def sv(1) accept_client_def init_server_def)
  moreover have "sv_data ?sv p = Some \<lparr>cl_connfd = ?fd, cl_message_queue = zero_queue, cl_uid = -1,
      cl_username = ac_name ac, cl_file_id = 0\<rparr>" "sv_socks ?sv ?fd = Some (ac_peer ac)"
      "sv_active ?sv = active" "file_of ?sv CREDENTIAL_FILE_NAME = file_of sv CREDENTIAL_FILE_NAME"
    by (simp_all add: accept_client_def sv(1) init_server_def file_of_def)
  moreover have "0 < hm_room active" "hm_lookup active = Map.empty"
    using hm_room_new [OF hashmap_new_Some [OF sv(2)]] hm_lookup_new [OF hashmap_new_Some [OF sv(2)]]
      INITIAL_SIZE_bounds(1) by simp_all
  ultimately obtain sv2 s2 where 1:
    "serve env p (arrive_at ?fd (chop (packet (login_packet junk n w))) ?sv) = Some (Inr sv2)"
    "hm_lookup (sv_active sv2) = [of_int k \<mapsto> Some p]"
    "sv_socks sv2 ?fd = Some s2" "new_bytes (ac_peer ac) s2 = packet (answer USR_LOGIN 0 (of_int k) 0)"
    using login_served [OF assms(15) acc(2), of p _ "ac_peer ac" env n w k junk] assms(9,10,16,17,20,21,23,24)
    by auto
  have "length n < MAX_CHAR_USERID" "length w < MAX_CHAR_USERPASS" using assms(20) by (auto simp: user_ok_def)
  then have small: "length n + 1 + length w < 2 ^ 30" by (simp add: MAX_CHAR_USERID_def MAX_CHAR_USERPASS_def)
  from login_answered [OF assms(15,12-14,18,19) small assms(22), of junk "of_int k"] obtain cl1 where 2:
    "login_turn ce a junk n w (cl\<lparr>ct_sock := arrive (chop (new_bytes (ac_peer ac) s2)) (ct_sock cl)\<rparr>) =
      Inr (True, cl1)"
    "ct_my_uid cl1 = of_int k" "new_bytes (ct_sock cl) (ct_sock cl1) = packet (login_packet junk n w)"
    unfolding 1(4) by blast
  have "reachable ?sv"
    by (rule reachable.step [OF reachable.start [OF assms(1)] server_step.connect [OF assms(4) acc(1)]])
  moreover have "client_reachable cl" by (rule client_reachable.start [OF assms(2)])
  ultimately show ?thesis
    using 1 2 acc(1) sv(3) cl port_of_sockaddr [OF assms(3)] assms(25,26)
    by (intro exI [of _ "sockaddr_in (CHR ''0'') (int port) (replicate 4 nul)"]
        exI [of _ "sockaddr_in nul (int port) addr"] exI [of _ ?sv] exI [of _ "packet (login_packet junk n w)"]
        exI [of _ sv2] exI [of _ s2] exI [of _ cl1]) (simp add: client_threads_def)
qed

theorem start_to_login_witness:
  "\<exists>bound target sv1 request sv2 s2 cl1.
    0 \<le> sc_bind starting 3 bound \<and> port_of bound = 5000 \<and>
    cc_connect sample_calls (cc_socket sample_calls) target = Some (ct_sock new_client) \<and> port_of target = 5000 \<and>
    accept_turn first_connection (init_server new_map sample_files) = Inr sv1 \<and>
    reachable sv1 \<and> client_reachable new_client \<and>
    serve sample_env 7 (arrive_at (descriptor (ac_fd first_connection)) (map (\<lambda>c. Data [c]) request) sv1) =
      Some (Inr sv2) \<and>
    hm_lookup (sv_active sv2) = [of_int 2 \<mapsto> Some 7] \<and>
    sv_socks sv2 (descriptor (ac_fd first_connection)) = Some s2 \<and>
    login_loop [(sample_client_env, CHR ''Y'', sample_header, ''bob'', ''pw'')]
      (new_client\<lparr>ct_sock := arrive (map (\<lambda>c. Data [c]) (new_bytes (ac_peer first_connection) s2))
        (ct_sock new_client)\<rparr>) = Some (Inr cl1) \<and>
    new_bytes (ct_sock new_client) (ct_sock cl1) = request \<and> ct_my_uid cl1 = of_int 2 \<and>
    client_threads sample_calls cl1 = Running cl1"
proof (rule start_to_login [OF started_server started_client])
  show "accept_ok first_connection (init_server new_map sample_files)" by (rule first_connection_ok)
  show "delivers (map (\<lambda>c. Data [c]))" by (rule bytewise)
  show ok: "user_ok (''bob'', ''pw'')" using sample_rep by (simp add: cred_rep_def sample_users_def)
  have f: "file_of (init_server new_map sample_files) CREDENTIAL_FILE_NAME = Some (cred_file sample_users)"
    by (simp add: file_of_def init_server_def sample_files_def norm_path_def CREDENTIAL_FILE_NAME_def)
  show "match_user_pw (file_of (init_server new_map sample_files) CREDENTIAL_FILE_NAME)
      (name_buf ''bob'') (pw_buf ''pw'') = Inr 2"
    unfolding f using match_user_pw_cred [OF sample_rep c_str_bufs [OF ok]] by (simp add: sample_users_def)
qed (simp_all add: first_connection_def accepting_def connection_def clean_def stream_def new_client_def
    init_client_def sample_env_def sample_client_env_def sample_calls_def tolower_def)

text \<open>C35: A connection for which the server cannot initialise a queue or create a thread: it is not
  closed, and in all later runs of the server it stays open and belongs to no client, so that its peer
  waits for ever.\<close>

theorem unserved_connection_stays:
  assumes "reachable sv" and "accept_ok ac sv" and "accept_turn ac sv = Inr sv1"
    and "ac_cond ac \<noteq> 0 \<or> ac_mutex ac \<noteq> 0 \<or> ac_create ac \<noteq> 0" and "server_step\<^sup>*\<^sup>* sv1 sv2"
  shows "descriptor (ac_fd ac) \<in> dom (sv_socks sv2) - cl_connfd ` ran (sv_data sv2)"
proof -
  have inv: "sv_inv sv" by (rule reachable_sv_inv [OF assms(1)])
  from assms(4) have "sv1 = sv\<lparr>sv_socks := (sv_socks sv)(descriptor (ac_fd ac) \<mapsto> ac_peer ac)\<rparr>"
    by (cases rule: accept_turn_cases [OF assms(2,3)]) auto
  moreover have "cl_connfd c \<noteq> descriptor (ac_fd ac)" if "sv_data sv p = Some c" for p c
  proof -
    have "cl_connfd c \<in> dom (sv_socks sv)" using that inv by (simp add: sv_inv_def clients_ok_def)
    moreover have "sv_socks sv (descriptor (ac_fd ac)) = None" using assms(2) by (simp add: accept_ok_def)
    ultimately show ?thesis by auto
  qed
  ultimately have "orphan (descriptor (ac_fd ac)) sv1" by (auto simp: orphan_def)
  moreover have "sv_inv sv1" using accept_turn_inv [OF inv assms(2,3)] by blast
  ultimately have "orphan (descriptor (ac_fd ac)) sv2" using idle.run_inv [OF assms(5)] by blast
  then show ?thesis by (auto simp: orphan_def ran_def) metis
qed

theorem unserved_connection_stays_witness:
  "descriptor (ac_fd (first_connection\<lparr>ac_create := 11\<rparr>)) \<in>
    dom (sv_socks ((init_server new_map Map.empty)\<lparr>sv_socks := [4 \<mapsto> connection []]\<rparr>)) -
    cl_connfd ` ran (sv_data ((init_server new_map Map.empty)\<lparr>sv_socks := [4 \<mapsto> connection []]\<rparr>))"
proof (rule unserved_connection_stays [OF reachable_new_map _ _ _ rtranclp.rtrancl_refl])
  show "accept_ok (first_connection\<lparr>ac_create := 11\<rparr>) (init_server new_map Map.empty)"
    using first_connection_ok(1) by (simp add: accept_ok_def)
  show "accept_turn (first_connection\<lparr>ac_create := 11\<rparr>) (init_server new_map Map.empty) =
      Inr ((init_server new_map Map.empty)\<lparr>sv_socks := [4 \<mapsto> connection []]\<rparr>)"
    by (simp add: accept_turn_def first_connection_def accepting_def thread_queue_init_def descriptor_nat
        init_server_def)
qed simp

text \<open>When \<open>accept\<close> fails, the server makes a client out of the descriptor -1 all the same. The
  first read of its thread fails, which counts as a packet, and the packet is what the stack holds:
  the thread does not end but executes whatever command that is.\<close>

lemma failed_accept_served:
  assumes "ac_malloc ac = Some p" and "ac_fd ac = -1" and "sv_socks sv (descriptor (-1)) = None"
    and "ac_cond ac = 0" and "ac_mutex ac = 0" and "ac_create ac = 0"
    and "length (en_stack env) = HDR_SIZE" and "\<And>n. en_malloc env n"
  shows "\<exists>sv1 h. accept_turn ac sv = Inr sv1 \<and> sv_data sv1 p \<noteq> None \<and> sv_socks sv1 = sv_socks sv \<and>
    serve env p sv1 = handle env p h sv1 \<and>
    hdr_cmd h = hdr_cmd (bytes_hdr (en_stack env)) \<and> hdr_gid h = hdr_gid (bytes_hdr (en_stack env)) \<and>
    hdr_uid h = hdr_uid (bytes_hdr (en_stack env)) \<and> hdr_len h = hdr_len (bytes_hdr (en_stack env))"
proof -
  obtain h s where h: "read_main_header (en_malloc env) (en_stack env) (en_junk env) closed_socket = Inr (Some h, s)"
    "hdr_cmd h = hdr_cmd (bytes_hdr (en_stack env)) \<and> hdr_gid h = hdr_gid (bytes_hdr (en_stack env)) \<and>
     hdr_uid h = hdr_uid (bytes_hdr (en_stack env)) \<and> hdr_len h = hdr_len (bytes_hdr (en_stack env))"
    using read_closed [of "en_stack env" "en_malloc env" "en_junk env"] assms(7,8) by blast
  let ?c = "\<lparr>cl_connfd = descriptor (-1), cl_message_queue = zero_queue, cl_uid = -1,
    cl_username = ac_name ac, cl_file_id = 0\<rparr>"
  let ?sv = "sv\<lparr>sv_data := (sv_data sv)(p \<mapsto> ?c)\<rparr>"
  have "accept_turn ac sv = Inr ?sv"
    using assms(1,2,4-6) by (simp add: accept_turn_def thread_queue_init_def)
  moreover have "serve env p ?sv = handle env p h ?sv"
    using h(1) assms(3) by (simp add: serve_def load_client_def sock_of_def put_sock_closed)
  ultimately show ?thesis using h(2) by (intro exI [of _ ?sv] exI [of _ h]) simp
qed

lemma failed_accept_served_witness:
  "\<exists>sv1 h. accept_turn (first_connection\<lparr>ac_fd := -1\<rparr>) (init_server new_map Map.empty) = Inr sv1 \<and>
    sv_data sv1 7 \<noteq> None \<and> sv_socks sv1 = sv_socks (init_server new_map Map.empty) \<and>
    serve sample_env 7 sv1 = handle sample_env 7 h sv1 \<and>
    hdr_cmd h = hdr_cmd (bytes_hdr (en_stack sample_env)) \<and> hdr_gid h = hdr_gid (bytes_hdr (en_stack sample_env)) \<and>
    hdr_uid h = hdr_uid (bytes_hdr (en_stack sample_env)) \<and> hdr_len h = hdr_len (bytes_hdr (en_stack sample_env))"
  by (rule failed_accept_served)
    (simp_all add: first_connection_def accepting_def init_server_def sample_env_def)

end
