(* ===== verification/File_Sharing.thy ===== *)
theory File_Sharing
  imports Invitation
begin

text \<open>
  A file on its way: \<open>send_file\<close> at the terminal of one client, the server that stores it under a new
  name and announces it to the group, \<open>download\<close> at the terminal of another client, and the file that
  it gets.
\<close>

section \<open>Commands of three words\<close>

lemma strncmp_eq_whole:
  "nul \<notin> set w \<Longrightarrow> nul \<notin> set lit \<Longrightarrow> strncmp_eq (w @ nul # r) (lit @ [nul]) (Suc (length lit)) = Inr (w = lit)"
proof (induction w arbitrary: lit)
  case Nil
  then show ?case by (cases lit) auto
next
  case (Cons x w)
  then show ?case by (cases lit) auto
qed

lemma is_command_word:
  assumes "nul \<notin> set w" and "nul \<notin> set lit"
  shows "is_command (w @ [nul]) lit = Inr (w = lit @ [newline] \<or> w = lit)"
proof -
  have "nul \<notin> set (lit @ [newline])" using assms(2) by (simp add: nul_def newline_def)
  then show ?thesis
    using strncmp_eq_whole [OF assms(1), of "lit @ [newline]" "[]"] strncmp_eq_whole [OF assms, of "[]"]
    by (simp add: is_command_def strcmp_eq_def)
qed

lemma fields_three:
  "c \<notin> set a \<Longrightarrow> c \<notin> set b \<Longrightarrow> c \<notin> set d \<Longrightarrow> C_Strings.fields c (a @ c # b @ c # d) = [a, b, d]"
  by (induction a) (auto simp: fields_two)

lemma split_three:
  assumes "c_str str = Inr (a @ c # b @ c # d)" and "c \<notin> set a" and "c \<notin> set b" and "c \<notin> set d"
  shows "split junk str c = Inr (3, [a @ [nul], b @ [nul], d @ [junk 2 (length d)]])"
  using split_fields [OF assms(1), of junk c] fields_three [OF assms(2-4)] by (simp add: numeral_3_eq_3 numeral_2_eq_2)

text \<open>A command with a group and a file name, as it is typed.\<close>

definition file_command :: "string \<Rightarrow> u8 \<Rightarrow> string \<Rightarrow> string" where
  "file_command word gid name = word @ space # print_nat (unat gid) @ space # name @ [newline]"

text \<open>
  The last word is not terminated by \<open>split\<close>; it is read as a string only if the allocator left a
  terminator behind it.
\<close>

definition plain_name :: "string \<Rightarrow> bool" where
  "plain_name name \<longleftrightarrow> nul \<notin> set name \<and> space \<notin> set name \<and> length name < 100"

lemma file_command_words:
  assumes "plain_name name" and "nul \<notin> set word" and "space \<notin> set word"
    and "ce_split ce 2 (length name + 1) = nul"
  shows "split (ce_split ce) (file_command word gid name @ [nul]) space =
      Inr (3, [word @ [nul], print_nat (unat gid) @ [nul], name @ [newline, nul]])"
    and "arg_gid ce [word @ [nul], print_nat (unat gid) @ [nul], name @ [newline, nul]] = Inr gid"
    and "arg_filename [word @ [nul], print_nat (unat gid) @ [nul], name @ [newline, nul]] =
      Inr (name @ replicate (100 - length name) nul)"
    and "c_str (name @ replicate (100 - length name) nul) = Inr name"
proof -
  have d: "nul \<notin> set (print_nat (unat gid))" "space \<notin> set (print_nat (unat gid))"
    using plain_seps [OF print_nat_plain [of "unat gid"]] by auto
  have n: "nul \<notin> set name" "space \<notin> set name" "length name < 100" using assms(1) by (auto simp: plain_name_def)
  have nl: "nul \<notin> set (name @ [newline])" "space \<notin> set (name @ [newline])"
    using n by (auto simp: nul_def newline_def)
  have "c_str (file_command word gid name @ [nul]) =
      Inr (word @ space # print_nat (unat gid) @ space # name @ [newline])"
    using c_str_terminated [of "file_command word gid name" "[]"] assms(2) d nl
    by (simp add: file_command_def nul_def)
  from split_three [OF this assms(3) d(2) nl(2), of "ce_split ce"] assms(4)
  show "split (ce_split ce) (file_command word gid name @ [nul]) space =
      Inr (3, [word @ [nul], print_nat (unat gid) @ [nul], name @ [newline, nul]])" by simp
  have "c_str (print_nat (unat gid) @ [nul]) = Inr (print_nat (unat gid))" using d(1) by simp
  then show "arg_gid ce [word @ [nul], print_nat (unat gid) @ [nul], name @ [newline, nul]] = Inr gid"
    using scan_int_print_nat [of "[]" "unat gid"] by (simp add: arg_gid_def input_def)
  have "c_str (name @ [newline, nul]) = Inr (name @ [newline])"
    using c_str_terminated [OF nl(1), of "[]"] by simp
  moreover have "size_t (int (length name)) = length name" using n(3) by (simp add: size_t_def)
  moreover have "strncpy (replicate 100 nul) (name @ [newline, nul]) (length name) =
      Inr (name @ replicate (100 - length name) nul)"
    using strncpy_exact [OF n(1), of "replicate 100 nul" "[newline, nul]"] n(3)
    by (simp del: replicate.simps)
  ultimately show "arg_filename [word @ [nul], print_nat (unat gid) @ [nul], name @ [newline, nul]] =
      Inr (name @ replicate (100 - length name) nul)"
    by (simp add: arg_filename_def input_def del: replicate.simps)
  show "c_str (name @ replicate (100 - length name) nul) = Inr name"
    using n(1,3) by (simp add: c_str_replicate)
qed

lemma command_send_file:
  assumes "plain_name name" and "ce_split ce 2 (length name + 1) = nul"
  shows "handle_user_command ce (file_command ''send_file'' gid name) cl =
    Inr (cl\<lparr>ct_sock := snd (send_file (ct_sock cl) gid (ct_my_uid cl) (ct_files cl name))\<rparr>)"
proof -
  have w: "nul \<notin> set ''send_file''" "space \<notin> set ''send_file''" by (simp_all add: nul_def)
  have c: "is_command (''send_file'' @ [nul]) lit = Inr (''send_file'' = lit @ [newline] \<or> ''send_file'' = lit)"
    if "nul \<notin> set lit" for lit using is_command_word [OF w(1) that] .
  show ?thesis
    using file_command_words [OF assms(1) w assms(2)]
      c [of "''new_group''"] c [of "''active_list''"] c [of "''invite''"] c [of "''send''"] c [of "''send_file''"]
    by (simp add: handle_user_command_def input_def nul_def newline_def del: replicate.simps)
qed

definition download_packet :: "u8 \<Rightarrow> u16 \<Rightarrow> string \<Rightarrow> mainhdr" where
  "download_packet gid uid name = \<lparr>hdr_cmd = DOWNLOAD_FILE, hdr_gid = gid, hdr_uid = uid,
     hdr_len = of_nat (length name), hdr_payload = name @ [nul]\<rparr>"

lemma command_download:
  assumes "plain_name name" and "ce_split ce 2 (length name + 1) = nul" and "\<And>n. ce_malloc ce n"
  shows "handle_user_command ce (file_command ''download'' gid name) cl =
    queue_outgoing (download_packet gid (ct_my_uid cl) name) (uint DOWNLOAD_FILE) cl"
proof -
  have w: "nul \<notin> set ''download''" "space \<notin> set ''download''" by (simp_all add: nul_def)
  have c: "is_command (''download'' @ [nul]) lit = Inr (''download'' = lit @ [newline] \<or> ''download'' = lit)"
    if "nul \<notin> set lit" for lit using is_command_word [OF w(1) that] .
  have n: "nul \<notin> set name" "length name < 100" using assms(1) by (auto simp: plain_name_def)
  have mk: "make_packet ce DOWNLOAD_FILE gid (ct_my_uid cl) (of_nat (length name)) = Inr
      \<lparr>hdr_cmd = DOWNLOAD_FILE, hdr_gid = gid, hdr_uid = ct_my_uid cl, hdr_len = of_nat (length name),
       hdr_payload = replicate (length name + 1) nul\<rparr>"
    by (rule make_packet_zeroed) (use assms(3) n in auto)
  have "drop (length name) (replicate (length name + 1) nul) = [nul]"
    by (simp only: drop_replicate) simp
  then have cp: "strncpy (replicate (length name + 1) nul) (name @ replicate (100 - length name) nul)
      (length name) = Inr (name @ [nul])"
    using strncpy_exact [OF n(1), of "replicate (length name + 1) nul"] by simp
  show ?thesis
    using file_command_words [OF assms(1) w assms(2)] mk cp
      c [of "''new_group''"] c [of "''active_list''"] c [of "''invite''"] c [of "''send''"] c [of "''send_file''"]
      c [of "''download''"]
    by (simp add: handle_user_command_def input_def packet_with_def download_packet_def nul_def newline_def
        del: replicate.simps)
qed

section \<open>The terminals\<close>

lemma no_invitations:
  assumes "client_inv cl" and "pending cl Requests = Some []"
  shows "user_turn ce [] line cl = Some (if line = [] then Inr cl else handle_user_command ce line cl)"
proof -
  have "family_inv (ct_heap cl, chan cl)" using assms(1) by (simp add: client_inv_def family.all_pending_def)
  from family_inv_tq [OF this chan_simps(2)] have inv: "tq_inv (ct_heap cl, ct_requests cl)" .
  have "tq_contents (ct_heap cl, ct_requests cl) = []"
    using assms(2) by (simp add: pending_def family_contents_def)
  with inv have "tq_length (ct_requests cl) = 0"
    by (cases rule: tq_contents_cases) (auto simp: tq_rep_def)
  then have "thread_queue_length (Some (ct_requests cl)) = Inr 0" by (simp add: thread_queue_length_def)
  then show ?thesis by (simp add: user_turn_def answer_invitations.simps)
qed

lemma file_uploaded:
  assumes "client_inv cl" and "pending cl Requests = Some []" and "sk_accept (ct_sock cl) = []"
    and "plain_name name" and "ce_split ce 2 (length name + 1) = nul" and "ct_files cl name = Some content"
    and "length content < 2 ^ 31"
  shows "\<exists>cl'. user_turn ce [] (file_command ''send_file'' gid name) cl = Some (Inr cl') \<and>
    new_bytes (ct_sock cl) (ct_sock cl') = file_bytes gid (ct_my_uid cl) content"
  using command_send_file [OF assms(4,5), of gid cl] no_invitations [OF assms(1,2)]
    send_file_all [OF assms(3,7)] assms(6)
  by (simp add: file_command_def new_bytes_def file_bytes_def)

lemma download_requested:
  assumes "client_inv cl" and "pending cl Requests = Some []" and "pending cl Outgoing = Some []"
    and "h_left (ct_heap cl) \<noteq> 0" and "sk_accept (ct_sock cl) = []" and "\<And>n. ce_malloc ce n"
    and "plain_name name" and "ce_split ce 2 (length name + 1) = nul"
  shows "\<exists>cl1 cl2. user_turn ce [] (file_command ''download'' gid name) cl = Some (Inr cl1) \<and>
    server_write_turn cl1 = Some (Inr cl2) \<and>
    new_bytes (ct_sock cl) (ct_sock cl2) = packet (download_packet gid (ct_my_uid cl) name) \<and>
    sk_in (ct_sock cl2) = sk_in (ct_sock cl) \<and> ct_my_uid cl2 = ct_my_uid cl"
proof -
  let ?h = "download_packet gid (ct_my_uid cl) name"
  have len: "length name < 2 ^ 30" using assms(7) by (simp add: plain_name_def)
  then have h: "sendable ?h" by (simp add: sendable_def download_packet_def unat_of_nat)
  have q: "tq_contents (ct_heap cl, ct_outgoing cl) = []"
    using assms(3) by (simp add: pending_def family_contents_def)
  have "family_inv (ct_heap cl, chan cl)" using assms(1) by (simp add: client_inv_def family.all_pending_def)
  from queue_outgoing_ok [OF family_inv_tq [OF this chan_simps(1)] assms(4), of ?h "uint DOWNLOAD_FILE"] q
  obtain heap q' where out: "queue_outgoing ?h (uint DOWNLOAD_FILE) cl = Inr (cl\<lparr>ct_heap := heap, ct_outgoing := q'\<rparr>)"
      "tq_inv (heap, q')" "tq_contents (heap, q') = (Some (Packet ?h), uint DOWNLOAD_FILE) # []"
    by auto
  let ?cl = "cl\<lparr>ct_heap := heap, ct_outgoing := q'\<rparr>"
  have "tq_inv (ct_heap ?cl, ct_outgoing ?cl)" "sk_accept (ct_sock ?cl) = []"
    "tq_contents (ct_heap ?cl, ct_outgoing ?cl) = (Some (Packet ?h), uint DOWNLOAD_FILE) # []"
    using out(2,3) assms(5) by simp_all
  from server_write_turn_ok [OF this(1,3) h this(2)] obtain heap2 q2 where
    "server_write_turn ?cl = Some (Inr (?cl\<lparr>ct_heap := heap2, ct_outgoing := q2,
      ct_sock := (ct_sock ?cl)\<lparr>sk_sent := sk_sent (ct_sock ?cl) @ packet ?h\<rparr>\<rparr>))" by blast
  moreover have "user_turn ce [] (file_command ''download'' gid name) cl = Some (Inr ?cl)"
    using command_download [OF assms(7,8,6), of gid cl] out(1) no_invitations [OF assms(1,2)]
    by (simp add: file_command_def)
  ultimately show ?thesis by (intro exI conjI) (assumption | simp add: new_bytes_def)+
qed

lemma file_received:
  assumes "delivers chop" and "clean (ct_sock cl)" and "stream (ct_sock cl) = []" and "length content < 2 ^ 31"
    and "\<And>n. ce_malloc ce n" and "length (ce_stack ce) = HDR_SIZE" and "ce_fopen ce"
  shows "\<exists>cl'. server_read_turn ce (cl\<lparr>ct_sock := arrive (chop (file_bytes gid uid content)) (ct_sock cl)\<rparr>) =
      Some (Inr (True, cl')) \<and>
    ct_files cl' = (ct_files cl)(cfile_name (ct_my_uid cl) gid uid \<mapsto> content)"
proof -
  let ?h = "\<lparr>hdr_cmd = SEND_FILE, hdr_gid = gid, hdr_uid = uid, hdr_len = of_nat (length content), hdr_payload = []\<rparr>"
  let ?s = "arrive (chop (file_bytes gid uid content)) (ct_sock cl)"
  have "clean ?s" "stream ?s = hdr_bytes ?h @ content"
    using arrive_clean [OF assms(1-3)] by (simp_all add: file_bytes_def)
  from read_main_header_file [OF this _ assms(6), of "ce_malloc ce" "ce_junk ce"] assms(5) obtain s1 where s1:
    "read_main_header (ce_malloc ce) (ce_stack ce) (ce_junk ce) ?s = Inr (Some ?h, s1)" "clean s1" "stream s1 = content"
    by auto
  have len: "sint (hdr_len ?h) = int (length content)" using small_int_word [OF assms(4)] by simp
  obtain s2 where "receive_loop (int (length content)) s1 [] = Some (Inr (content, s2))"
    using receive_loop_enough [OF s1(2), of "int (length content)" "[]"] s1(3) by auto
  then have "receive_to_file s1 (sint (hdr_len ?h)) True = Some (Inr (0, Some content, s2))"
    by (simp only: receive_to_file_def len) simp
  then show ?thesis
    using s1(1) assms(7) by (simp add: server_read_turn_def handle_server_packet_def Let_def)
qed

section \<open>Through the server\<close>

lemma notice_sendable:
  assumes "length name < MAX_CHAR_USERID" and "length filename \<le> 99"
  shows "sendable (notice_packet name filename recv)"
proof -
  have "unat (hdr_len (notice_packet name filename recv)) = length name + length filename + 17"
    unfolding notice_packet_def mainhdr.simps
    by (rule small_int_word(2)) (use assms in \<open>simp add: MAX_CHAR_USERID_def\<close>)
  then show ?thesis using assms by (simp add: sendable_def notice_packet_def MAX_CHAR_USERID_def)
qed

lemma file_stored:
  assumes "delivers chop" and "serves_group env p gid uid g us fd sv" and "en_fopen env"
    and "length content < 2 ^ 31"
  shows "\<exists>sv'. serve env p (arrive_at fd (chop (file_bytes gid uid content)) sv) = Some (Inr sv') \<and>
    quiet sv sv' \<and> file_of sv' (file_name gid (sv_file_cnt sv)) = Some content \<and>
    (\<forall>to t. to \<noteq> fd \<longrightarrow> sv_socks sv to = Some t \<longrightarrow> (\<exists>t'. sv_socks sv' to = Some t' \<and>
      sk_in t' = sk_in t \<and> sk_accept t' = []))"
proof -
  note A = assms(2) [unfolded serves_group_def]
  let ?h = "\<lparr>hdr_cmd = SEND_FILE, hdr_gid = gid, hdr_uid = uid, hdr_len = of_nat (length content), hdr_payload = []\<rparr>"
  let ?f = "file_name gid (sv_file_cnt sv)"
  obtain c s where c: "sv_data sv p = Some c" "cl_connfd c = fd" "sv_socks sv fd = Some s" "clean s" "stream s = []"
    using A by blast
  let ?s = "arrive (chop (file_bytes gid uid content)) s"
  have "clean ?s" "stream ?s = hdr_bytes ?h @ content"
    using arrive_clean [OF assms(1) c(4,5)] by (simp_all add: file_bytes_def)
  from read_main_header_file [OF this, of "en_stack env" "en_malloc env" "en_junk env"] A obtain s1 where s1:
    "read_main_header (en_malloc env) (en_stack env) (en_junk env) ?s = Inr (Some ?h, s1)"
    "clean s1" "stream s1 = content" "same_out s s1"
    by (auto simp: same_out_def)
  let ?sv = "sv\<lparr>sv_socks := (sv_socks sv)(fd \<mapsto> s1)\<rparr>"
  have "serve env p (arrive_at fd (chop (file_bytes gid uid content)) sv) = handle env p ?h ?sv"
    using c(1-3) s1(1) by (simp add: serve_def load_client_def arrive_at_def put_sock_def sock_of_def)
  also have "\<dots> = handle_send_file env p ?h ?sv" by (simp add: handle_def)
  finally have serve: "serve env p (arrive_at fd (chop (file_bytes gid uid content)) sv) =
    handle_send_file env p ?h ?sv" .
  let ?name = "fst (us ! (unat uid - 1))"
  have rep: "cred_rep (file_of sv CREDENTIAL_FILE_NAME) us" "1 \<le> unat uid" "unat uid \<le> length us" using A by blast+
  then have "user_ok (us ! (unat uid - 1))" by (simp add: cred_rep_def)
  then have name: "length ?name < MAX_CHAR_USERID" "nul \<notin> set ?name" by (auto simp: user_ok_def plain_seps)
  have find: "find_username (file_of ?sv CREDENTIAL_FILE_NAME) (hdr_uid ?h) zero_name =
      Inr (int (length ?name), name_buf ?name)"
    using find_username_cred [of "file_of sv CREDENTIAL_FILE_NAME" us zero_name uid] A
    by (simp add: zero_name_def file_of_def)
  have len: "sint (hdr_len ?h) = int (length content)" using small_int_word [OF assms(4)] by simp
  have F: "?f = file_name (hdr_gid ?h) (sv_file_cnt ?sv)" by simp
  from handle_send_file_eq [OF _ _ s1(2) assms(3) _ F find name, of p c] c A s1(3) len obtain sv1 s2 where sv1:
    "handle_send_file env p ?h ?sv = Some (forward_to_group env gid (notice_packet ?name ?f ?h) sv1)"
    "sv1 = set_file ?f (Some content) (?sv\<lparr>sv_file_cnt := sv_file_cnt sv + 1, sv_socks := (sv_socks ?sv)(fd \<mapsto> s2)\<rparr>)"
    "same_out s1 s2" by auto
  have socks: "sv_socks sv1 = (sv_socks sv)(fd \<mapsto> s2)" by (simp add: sv1(2) set_file_def)
  have q: "quiet sv sv1" using c(3) by (auto simp: quiet_def socks) (simp_all add: sv1(2) set_file_def)
  have "sk_accept s2 = []" using A c(3) s1(4) sv1(3) by (auto simp: willing_def same_out_def)
  then have will: "willing sv1" using A by (auto simp: willing_def socks)
  have "sound_for sv1 g" using A q unfolding sound_for_def quiet_def by (fastforce simp: socks)
  moreover have "hm_inv (sv_active sv1)" using A q by (simp add: quiet_def sv_inv_def)
  moreover have "sendable (notice_packet ?name ?f ?h)"
    by (rule notice_sendable [OF name(1) file_name_fresh(3) [OF refl]])
  ultimately obtain sv2 where sv2: "forward_loop True (notice_packet ?name ?f ?h) g sv1 = Inr sv2" "quiet sv1 sv2"
      "willing sv2" "sv_files sv2 = sv_files sv1"
      "\<exists>extra. sent_more sv1 sv2 extra"
    using forward_loop_ok [OF _ will] by blast
  have mal: "en_malloc env = (\<lambda>_. True)" using A by blast
  have "group_at sv gid = Inr g" using A by blast
  then have "group_at sv1 gid = Inr g" using q by (simp add: group_at_Inr quiet_def)
  then have "serve env p (arrive_at fd (chop (file_bytes gid uid content)) sv) = Some (Inr sv2)"
    using serve sv1(1) sv2(1) mal by (simp add: forward_to_group_def)
  moreover have "quiet sv sv2" using q sv2(2) by (rule quiet_trans)
  moreover have "file_of sv2 ?f = Some content"
    using file_name_fresh(1) [of ?f gid "sv_file_cnt sv"] by (simp add: file_of_def sv2(4) sv1(2) set_file_def)
  moreover have "\<exists>t'. sv_socks sv2 to = Some t' \<and> sk_in t' = sk_in t \<and> sk_accept t' = []"
    if "to \<noteq> fd" "sv_socks sv to = Some t" for to t
  proof -
    have "sv_socks sv1 to = Some t" using that by (simp add: socks)
    then obtain x where "sv_socks sv2 to = Some (t\<lparr>sk_sent := x\<rparr>)" using sv2(5) by (auto simp: sent_more_def)
    then show ?thesis using sv2(3) by (auto simp: willing_def)
  qed
  ultimately show ?thesis by blast
qed

text \<open>The name of a stored file, taken apart again by the command that downloads it.\<close>

lemma file_name_parts:
  assumes "0 \<le> cnt" and "cnt < 2 ^ 31"
  shows "file_name gid cnt = print_nat (unat gid) @ CHR ''_'' # print_nat (nat cnt) @ ''.file''"
    and "length (file_name gid cnt) \<le> 19" and "plain_name (file_name gid cnt)"
proof -
  have len: "length (print_nat (unat gid)) \<le> 3" "length (print_nat (nat cnt)) \<le> 10"
    using length_print_nat [of "unat gid" 2] unat_bound [of gid] length_print_nat [of "nat cnt" 9] assms
    by auto
  then show f: "file_name gid cnt = print_nat (unat gid) @ CHR ''_'' # print_nat (nat cnt) @ ''.file''"
    using assms by (simp add: file_name_def print_int_def)
  show l: "length (file_name gid cnt) \<le> 19" using len by (simp add: f)
  have "nul \<notin> set (print_nat n)" "space \<notin> set (print_nat n)" for n
    using plain_seps [OF print_nat_plain [of n]] by auto
  then show "plain_name (file_name gid cnt)" using l by (auto simp: plain_name_def f nul_def)
qed

lemma split_two_at:
  assumes "c_str str = Inr (a @ c # b)" and "c \<notin> set a" and "c \<notin> set b"
  shows "split junk str c = Inr (2, [a @ [nul], b @ [junk 1 (length b)]])"
  using split_fields [OF assms(1), of junk c] fields_two [OF assms(2,3)] by simp

lemma digits_plain: "CHR ''_'' \<notin> set (print_nat n)" "CHR ''.'' \<notin> set (print_nat n)" "nul \<notin> set (print_nat n)"
  using print_nat_digits [of _ n] is_digit_plain(8,9,5) by blast+

lemma handle_download_member:
  assumes "0 \<le> cnt" and "cnt < 2 ^ 31" and "hdr_payload recv = file_name gid cnt @ nul # rest" and "hdr_gid recv = gid"
    and "group_at sv gid = Inr g" and "hdr_uid recv \<in> set g"
    and "en_split env 0 1 (length (print_nat (nat cnt) @ ''.file'')) = nul"
    and "sv_data sv q = Some d" and "file_of sv (file_name gid cnt) = content"
  shows "handle_download_file env q recv sv = Inr (put_sock (cl_connfd d)
    (snd (send_file (sock_of sv (cl_connfd d)) gid (of_int cnt) content))
    (sv\<lparr>sv_data := (sv_data sv)(q \<mapsto> d\<lparr>cl_file_id := cnt\<rparr>)\<rparr>))"
proof -
  let ?f = "file_name gid cnt" and ?n = "print_nat (nat cnt)"
  note F = file_name_parts [OF assms(1,2), of gid]
  have nul: "nul \<notin> set ?f" using F(3) by (simp add: plain_name_def)
  have str: "c_str (hdr_payload recv) = Inr ?f" using nul assms(3) by simp
  have "length (''./'' @ ?f) \<le> 99" using F(2) by simp
  then have tk: "take 99 (''./'' @ ?f) = ''./'' @ ?f" by (rule take_all)
  let ?buf = "(''./'' @ ?f) @ replicate (100 - length (''./'' @ ?f)) nul"
  have "c_str ?buf = Inr (''./'' @ ?f)"
    using c_str_replicate [of "''./'' @ ?f" "100 - length (''./'' @ ?f)"] nul F(2) by (simp add: nul_def)
  then have "c_str ?buf = Inr ((''./'' @ print_nat (unat gid)) @ CHR ''_'' # (?n @ ''.file''))" by (simp add: F(1))
  moreover have "CHR ''_'' \<notin> set (''./'' @ print_nat (unat gid))" "CHR ''_'' \<notin> set (?n @ ''.file'')"
    using digits_plain(1) by simp_all
  ultimately have one:
    "split (en_split env 0) ?buf (CHR ''_'') =
      Inr (2, [(''./'' @ print_nat (unat gid)) @ [nul], (?n @ ''.file'') @ [nul]])"
    using split_two_at [of ?buf, where junk = "en_split env 0"] assms(7) by metis
  have "c_str ((?n @ ''.file'') @ [nul]) = Inr (?n @ CHR ''.'' # ''file'')"
    using c_str_terminated [of "?n @ ''.file''" "[]"] digits_plain(3) [of "nat cnt"] by (simp add: nul_def)
  from split_two_at [OF this, of "en_split env 1"] digits_plain have two:
    "\<exists>j. split (en_split env 1) ((?n @ ''.file'') @ [nul]) (CHR ''.'') = Inr (2, [?n @ [nul], j])" by simp
  have id: "c_str (?n @ [nul]) = Inr ?n" using digits_plain(3) by simp
  have stored: "file_of sv (''./'' @ ?f) = content"
    using assms(9) file_name_fresh(1) [OF refl, of gid cnt] by (simp add: file_of_def norm_path_def)
  have member: "g \<noteq> []" "check_user_in_group sv (hdr_uid recv) gid = Inr 0"
    using assms(5,6) by (auto simp: check_user_in_group_def find_member_iff)
  obtain j where two: "split (en_split env 1) ((?n @ ''.file'') @ [nul]) (CHR ''.'') = Inr (2, [?n @ [nul], j])"
    using two by blast
  show ?thesis
    unfolding handle_download_file_def str and_then_Inr tk Let_def assms(4,5) member(2) one two
    using member(1) id one two stored assms(1,8)
    by (simp add: load_client_def split: prod.split)
qed

lemma file_served:
  assumes "delivers chop" and "sv_data sv q = Some d" and "sv_socks sv (cl_connfd d) = Some t"
    and "clean t" and "stream t = []" and "sk_accept t = []"
    and "0 \<le> cnt" and "cnt < 2 ^ 31" and "group_at sv gid = Inr g" and "uid \<in> set g"
    and "en_split env 0 1 (length (print_nat (nat cnt) @ ''.file'')) = nul"
    and "en_malloc env = (\<lambda>_. True)" and "length (en_stack env) = HDR_SIZE"
    and "file_of sv (file_name gid cnt) = Some content" and "length content < 2 ^ 31"
  shows "\<exists>sv' t'. serve env q (arrive_at (cl_connfd d) (chop (packet (download_packet gid uid (file_name gid cnt)))) sv) =
      Some (Inr sv') \<and> sv_socks sv' (cl_connfd d) = Some t' \<and> new_bytes t t' = file_bytes gid (of_int cnt) content"
proof -
  let ?f = "file_name gid cnt"
  let ?h = "download_packet gid uid ?f"
  let ?recv = "?h\<lparr>hdr_payload := take (unat (hdr_len ?h)) (hdr_payload ?h) @ [nul]\<rparr>"
  have len: "unat (hdr_len ?h) = length ?f"
    using file_name_parts(2) [OF assms(7,8), of gid] by (simp add: download_packet_def unat_of_nat)
  have h: "sendable ?h" "hdr_cmd ?h \<noteq> SEND_FILE"
    using len file_name_parts(2) [OF assms(7,8), of gid] by (simp_all add: sendable_def, simp_all add: download_packet_def)
  have recv: "hdr_cmd ?recv = DOWNLOAD_FILE" "hdr_payload ?recv = ?f @ nul # []" "hdr_gid ?recv = gid"
    "hdr_uid ?recv = uid"
    using len by (simp_all add: download_packet_def)
  from serve_reads_packet [OF assms(1-5) h assms(12,13)] obtain s' where s':
    "serve env q (arrive_at (cl_connfd d) (chop (packet ?h)) sv) =
      handle env q ?recv (sv\<lparr>sv_socks := (sv_socks sv)(cl_connfd d \<mapsto> s')\<rparr>)" "same_out t s'" by blast
  let ?sv = "sv\<lparr>sv_socks := (sv_socks sv)(cl_connfd d \<mapsto> s')\<rparr>"
  let ?t = "snd (send_file s' gid (of_int cnt) (Some content))"
  have "handle env q ?recv ?sv = Some (handle_download_file env q ?recv ?sv)" unfolding handle_def recv(1) by simp
  moreover have "handle_download_file env q ?recv ?sv = Inr (put_sock (cl_connfd d)
    (snd (send_file (sock_of ?sv (cl_connfd d)) gid (of_int cnt) (Some content)))
    (?sv\<lparr>sv_data := (sv_data ?sv)(q \<mapsto> d\<lparr>cl_file_id := cnt\<rparr>)\<rparr>))"
    by (rule handle_download_member [OF assms(7,8) recv(2,3), of _ g])
      (use assms(2,9-11,14) recv(4) in \<open>simp_all add: group_at_socks file_of_def\<close>)
  ultimately have "serve env q (arrive_at (cl_connfd d) (chop (packet ?h)) sv) = Some (Inr
      (?sv\<lparr>sv_socks := (sv_socks sv)(cl_connfd d \<mapsto> ?t), sv_data := (sv_data sv)(q \<mapsto> d\<lparr>cl_file_id := cnt\<rparr>)\<rparr>))"
    using s'(1) by (simp add: sock_of_def put_sock_def)
  moreover have "new_bytes t ?t = file_bytes gid (of_int cnt) content"
    using send_file_all [of s' content gid "of_int cnt"] s'(2) assms(6,15)
    by (simp add: new_bytes_def file_bytes_def same_out_def)
  ultimately show ?thesis by simp
qed

text \<open>Both ways through the server: the bytes of a file arrive, and later a packet that asks for it.\<close>

lemma file_through_server:
  assumes "delivers chop" and "serves_group env p gid auid g us fd sv" and "en_fopen env"
    and "length content < 2 ^ 31"
    and "f = file_name gid (sv_file_cnt sv)" and "0 \<le> sv_file_cnt sv" and "sv_file_cnt sv < 2 ^ 31"
    and "sv_data sv q = Some d" and "cl_connfd d \<noteq> fd" and "sv_socks sv (cl_connfd d) = Some t"
    and "clean t" and "stream t = []" and "buid \<in> set g"
    and "en_split env 0 1 (length (print_nat (nat (sv_file_cnt sv)) @ ''.file'')) = nul"
    and "clean (ct_sock b)" and "stream (ct_sock b) = []" and "\<And>n. ce_malloc ceb n"
    and "length (ce_stack ceb) = HDR_SIZE" and "ce_fopen ceb"
  shows "\<exists>sv1 t1 sv2 t2 b'.
    serve env p (arrive_at fd (chop (file_bytes gid auid content)) sv) = Some (Inr sv1) \<and>
    file_of sv1 f = Some content \<and> sv_socks sv1 (cl_connfd d) = Some t1 \<and>
    serve env q (arrive_at (cl_connfd d) (chop (packet (download_packet gid buid f))) sv1) = Some (Inr sv2) \<and>
    sv_socks sv2 (cl_connfd d) = Some t2 \<and>
    server_read_turn ceb (b\<lparr>ct_sock := arrive (chop (new_bytes t1 t2)) (ct_sock b)\<rparr>) = Some (Inr (True, b')) \<and>
    ct_files b' (cfile_name (ct_my_uid b) gid (of_int (sv_file_cnt sv))) = Some content"
proof -
  note A = assms(2) [unfolded serves_group_def]
  from file_stored [OF assms(1-4)] assms(9,10) obtain sv1 t1 where 2:
    "serve env p (arrive_at fd (chop (file_bytes gid auid content)) sv) = Some (Inr sv1)"
    "quiet sv sv1" "file_of sv1 f = Some content" "sv_socks sv1 (cl_connfd d) = Some t1"
    "sk_in t1 = sk_in t" "sk_accept t1 = []" unfolding assms(5) by blast
  have idle: "clean t1" "stream t1 = []" using assms(11,12) 2(5) by (simp_all add: clean_def stream_def)
  have sv1: "sv_data sv1 q = Some d" "group_at sv1 gid = Inr g" "en_malloc env = (\<lambda>_. True)"
    "length (en_stack env) = HDR_SIZE"
    using 2(2) A assms(8) by (auto simp: quiet_def group_at_Inr)
  from file_served [OF assms(1) sv1(1) 2(4) idle 2(6) assms(6,7) sv1(2) assms(13,14) sv1(3,4)
      2(3) [unfolded assms(5)] assms(4)] obtain sv2 t2 where 4:
    "serve env q (arrive_at (cl_connfd d) (chop (packet (download_packet gid buid f))) sv1) = Some (Inr sv2)"
    "sv_socks sv2 (cl_connfd d) = Some t2" "new_bytes t1 t2 = file_bytes gid (of_int (sv_file_cnt sv)) content"
    unfolding assms(5) by blast
  from file_received [OF assms(1,15,16,4,17-19), of gid "of_int (sv_file_cnt sv)"] obtain b' where
    "server_read_turn ceb (b\<lparr>ct_sock := arrive (chop (new_bytes t1 t2)) (ct_sock b)\<rparr>) = Some (Inr (True, b'))"
    "ct_files b' (cfile_name (ct_my_uid b) gid (of_int (sv_file_cnt sv))) = Some content"
    unfolding 4(3) by auto
  then show ?thesis using 2(1,3,4) 4(1,2) by (intro exI conjI)
qed

section \<open>Properties\<close>

text \<open>C4: The whole way of a file. When a member of a group enters \<open>send_file\<close> with a file that it
  has, then however the transport cuts the bytes, the server stores the same bytes under the group's
  number and its file counter; when later another member of the group enters \<open>download\<close> with that
  name, its client asks the server, gets these bytes, and stores them in a file of its own: the two
  members have the same content. The commands read the name of the file as the last word of the line,
  which \<open>split\<close> does not terminate, and the server reads the counter out of the name in the same way;
  so both rely on zero bytes that the allocator left behind these words.\<close>

theorem file_end_to_end:
  assumes "delivers chop" and "client_inv a" and "pending a Requests = Some []" and "sk_accept (ct_sock a) = []"
    and "plain_name name" and "ce_split cea 2 (length name + 1) = nul" and "ct_files a name = Some content"
    and "length content < 2 ^ 31"
    and "serves_group env p gid (ct_my_uid a) g us fd sv" and "en_fopen env"
    and "f = file_name gid (sv_file_cnt sv)" and "0 \<le> sv_file_cnt sv" and "sv_file_cnt sv < 2 ^ 31"
    and "sv_data sv q = Some d" and "cl_connfd d \<noteq> fd" and "sv_socks sv (cl_connfd d) = Some t"
    and "clean t" and "stream t = []"
    and "at_rest ceb b" and "ce_fopen ceb" and "ct_my_uid b \<in> set g" and "ce_split ceb 2 (length f + 1) = nul"
    and "en_split env 0 1 (length (print_nat (nat (sv_file_cnt sv)) @ ''.file'')) = nul"
  shows "\<exists>a' sv1 t1 b1 b2 sv2 t2 b3.
    user_turn cea [] (file_command ''send_file'' gid name) a = Some (Inr a') \<and>
    serve env p (arrive_at fd (chop (new_bytes (ct_sock a) (ct_sock a'))) sv) = Some (Inr sv1) \<and>
    file_of sv1 f = Some content \<and> sv_socks sv1 (cl_connfd d) = Some t1 \<and>
    user_turn ceb [] (file_command ''download'' gid f) b = Some (Inr b1) \<and>
    server_write_turn b1 = Some (Inr b2) \<and>
    serve env q (arrive_at (cl_connfd d) (chop (new_bytes (ct_sock b) (ct_sock b2))) sv1) = Some (Inr sv2) \<and>
    sv_socks sv2 (cl_connfd d) = Some t2 \<and>
    server_read_turn ceb (b2\<lparr>ct_sock := arrive (chop (new_bytes t1 t2)) (ct_sock b2)\<rparr>) = Some (Inr (True, b3)) \<and>
    ct_files b3 (cfile_name (ct_my_uid b) gid (of_int (sv_file_cnt sv))) = Some content"
proof -
  note B = assms(19) [unfolded at_rest_def opens_groups_def]
  from file_uploaded [OF assms(2-8), of gid] obtain a' where 1:
    "user_turn cea [] (file_command ''send_file'' gid name) a = Some (Inr a')"
    "new_bytes (ct_sock a) (ct_sock a') = file_bytes gid (ct_my_uid a) content" by blast
  have name: "plain_name f" unfolding assms(11) by (rule file_name_parts(3) [OF assms(12,13)])
  from download_requested [of b ceb f gid] B name assms(22) obtain b1 b2 where 2:
    "user_turn ceb [] (file_command ''download'' gid f) b = Some (Inr b1)"
    "server_write_turn b1 = Some (Inr b2)"
    "new_bytes (ct_sock b) (ct_sock b2) = packet (download_packet gid (ct_my_uid b) f)"
    "sk_in (ct_sock b2) = sk_in (ct_sock b)" "ct_my_uid b2 = ct_my_uid b" by auto
  have "clean (ct_sock b2)" "stream (ct_sock b2) = []" "\<And>n. ce_malloc ceb n" "length (ce_stack ceb) = HDR_SIZE"
    using 2(4) B by (simp_all add: clean_def stream_def)
  from file_through_server [OF assms(1,9,10,8,11-18,21,23) this assms(20)] show ?thesis
    using 1 2(1-3) unfolding 1(2) [symmetric] 2(3) [symmetric] 2(5) by blast
qed

text \<open>Both users are in group 0, and user 1 has a file.\<close>

definition pair_server :: server where
  "pair_server = talk_server\<lparr>sv_groups := (sv_groups talk_server)[0 := [1, 2]]\<rparr>"

definition ann_client :: client where
  "ann_client = new_client\<lparr>ct_my_uid := 1, ct_files := [''notes'' \<mapsto> ''hello'']\<rparr>"

lemma talk_server_socks: "sv_socks talk_server = [4 \<mapsto> connection [], 5 \<mapsto> connection []]" "sv_file_cnt talk_server = 1"
  by (simp_all add: talk_server_def accept_client_def online_server_def sample_server_def init_server_def)

lemma talk_server_data: "\<exists>c. sv_data talk_server 7 = Some c \<and> cl_connfd c = 4"
  by (simp add: talk_server_def accept_client_def online_server_def sample_server_def init_server_def)

lemma pair_server_serves: "serves_group sample_env 7 0 1 [1, 2] sample_users 4 pair_server"
proof -
  note A = talk_server_facts(5) [unfolded serves_group_def]
  have "groups_ok (sv_groups talk_server) (sv_group_cnt talk_server)" using A by (simp add: sv_inv_def)
  then have "groups_ok (sv_groups pair_server) (sv_group_cnt pair_server)"
    by (auto simp: groups_ok_def pair_server_def nth_list_update dest!: subsetD [OF set_update_subset_insert])
  then have "sv_inv pair_server" using A by (simp add: sv_inv_def pair_server_def)
  moreover have "willing pair_server" using A by (simp add: willing_def pair_server_def)
  moreover have "group_at pair_server 0 = Inr [1, 2]" using A by (auto simp: group_at_Inr pair_server_def)
  moreover have "sound_for pair_server [1, 2]"
    using talk_server_data by (auto simp: sound_for_def pair_server_def talk_server_facts talk_map_facts talk_server_socks)
  moreover have "file_of pair_server CREDENTIAL_FILE_NAME = file_of talk_server CREDENTIAL_FILE_NAME"
    by (simp add: pair_server_def file_of_def)
  ultimately show ?thesis using A by (simp add: serves_group_def) (simp add: pair_server_def)
qed

lemma ann_client_facts: "client_inv ann_client" "pending ann_client Requests = Some []"
proof -
  have "client_inv (new_client\<lparr>ct_my_uid := 1, ct_files := [''notes'' \<mapsto> ''hello'']\<rparr>)"
    using client_reachable_inv [OF new_client_reachable] by simp
  then show "client_inv ann_client" by (simp only: ann_client_def)
qed (simp add: ann_client_def new_client_def init_client_def pending_def family_contents_def empty_heap_def)

theorem file_end_to_end_witness:
  "\<exists>a' sv1 t1 b1 b2 sv2 t2 b3.
    user_turn sample_client_env [] (file_command ''send_file'' 0 ''notes'') ann_client = Some (Inr a') \<and>
    serve sample_env 7 (arrive_at 4 (map (\<lambda>c. Data [c]) (new_bytes (ct_sock ann_client) (ct_sock a'))) pair_server) =
      Some (Inr sv1) \<and>
    file_of sv1 (file_name 0 1) = Some ''hello'' \<and> sv_socks sv1 5 = Some t1 \<and>
    user_turn sample_client_env [] (file_command ''download'' 0 (file_name 0 1)) bob_client = Some (Inr b1) \<and>
    server_write_turn b1 = Some (Inr b2) \<and>
    serve sample_env 8 (arrive_at 5 (map (\<lambda>c. Data [c]) (new_bytes (ct_sock bob_client) (ct_sock b2))) sv1) =
      Some (Inr sv2) \<and>
    sv_socks sv2 5 = Some t2 \<and>
    server_read_turn sample_client_env
      (b2\<lparr>ct_sock := arrive (map (\<lambda>c. Data [c]) (new_bytes t1 t2)) (ct_sock b2)\<rparr>) = Some (Inr (True, b3)) \<and>
    ct_files b3 (cfile_name 2 0 1) = Some ''hello''"
proof -
  have cnt: "sv_file_cnt pair_server = 1" by (simp add: pair_server_def talk_server_socks)
  have data: "sv_data pair_server 8 = Some \<lparr>cl_connfd = 5, cl_message_queue = zero_queue, cl_uid = -1,
      cl_username = zero_name, cl_file_id = 0\<rparr>" by (simp add: pair_server_def talk_server_facts)
  have serves: "serves_group sample_env 7 0 (ct_my_uid ann_client) [1, 2] sample_users 4 pair_server"
    using pair_server_serves by (simp add: ann_client_def)
  have ann: "sk_accept (ct_sock ann_client) = []" "ct_files ann_client ''notes'' = Some ''hello''"
    by (simp_all add: ann_client_def new_client_def init_client_def connection_def)
  have idle: "sv_socks pair_server 5 = Some (connection [])" "clean (connection [])" "stream (connection []) = []"
    by (simp_all add: pair_server_def talk_server_socks connection_def clean_def stream_def)
  have env: "ce_split sample_client_env = (\<lambda>_ _. nul)" "ce_fopen sample_client_env" "en_fopen sample_env"
    "en_split sample_env = (\<lambda>_ _ _. nul)" by (simp_all add: sample_client_env_def sample_env_def)
  from file_end_to_end [OF bytewise ann_client_facts ann(1) _ _ ann(2) _ serves env(3) refl, of sample_client_env 8
      "\<lparr>cl_connfd = 5, cl_message_queue = zero_queue, cl_uid = -1, cl_username = zero_name, cl_file_id = 0\<rparr>"
      "connection []" sample_client_env bob_client] data idle env bob_at_rest cnt
  show ?thesis by (simp add: plain_name_def nul_def)
qed

end
