(* ===== verification/Shared_Socket.thy ===== *)
theory Shared_Socket
  imports Network Interleaving
begin

text \<open>
  Several threads write to one socket: in the client the thread that sends the queued packets and the
  threads that send files, in the server the threads that forward to a user and the user's own thread.
  A packet is one \<open>write\<close>, but \<open>send_file\<close> (\<open>src/util.c\<close>) makes one for its header and one for each
  1024 bytes of the file, and nothing keeps other threads from writing in between.
\<close>

section \<open>Writers\<close>

datatype item = Packet_Item mainhdr | File_Item u8 u16 "char list"

text \<open>A thread: what is left of the file that it is sending, and what it will send then. Files have less
  than 2 GB, so that the \<open>int\<close> that holds the size does.\<close>

datatype writer = Writer (unsent: "char list") (items: "item list")

text \<open>One \<open>write\<close> of a thread.\<close>

fun write_step :: "writer \<Rightarrow> socket \<Rightarrow> (writer \<times> socket) outcome" where
  "write_step (Writer [] []) s = Inr (Writer [] [], s)"
| "write_step (Writer [] (Packet_Item h # xs)) s = and_then (send_main_header h s) (\<lambda>(_, s). Inr (Writer [] xs, s))"
| "write_step (Writer [] (File_Item gid uid content # xs)) s =
     Inr (Writer content xs, snd (sock_write s (hdr_bytes \<lparr>hdr_cmd = SEND_FILE, hdr_gid = gid,
       hdr_uid = uid, hdr_len = of_nat (length content), hdr_payload = []\<rparr>)))"
| "write_step (Writer (b # bs) xs) s =
     Inr (Writer (drop 1024 (b # bs)) xs, snd (sock_write s (take 1024 (b # bs))))"

lemma write_chunk:
  "rest \<noteq> [] \<Longrightarrow> write_step (Writer rest xs) s = Inr (Writer (drop 1024 rest) xs, snd (sock_write s (take 1024 rest)))"
  by (cases rest) simp_all

text \<open>A thread that is not interrupted writes a file as \<open>send_file\<close> does.\<close>

lemma chunks_gets: "gets write_step (Writer rest xs) s (Writer [] xs) (send_chunks (int (length rest)) s rest)"
proof (induction "int (length rest)" s rest rule: send_chunks.induct)
  case (1 s rest)
  show ?case
  proof (cases "rest = []")
    case True
    then show ?thesis by (simp add: send_chunks.simps)
  next
    case False
    with 1 show ?thesis
      by (simp add: send_chunks.simps [of "int (length rest)" s rest] gets_step [of write_step, OF write_chunk] chunk_left
          del: length_drop length_take)
  qed
qed

lemma file_gets:
  "length content < 2 ^ 31 \<Longrightarrow> gets write_step (Writer [] (File_Item gid uid content # xs)) s (Writer [] xs)
    (snd (send_file s gid uid (Some content)))"
  by (rule gets_step, simp, simp add: send_file_def Let_def chunks_gets signed_take_bit_int_eq_self signed_of_nat)

section \<open>The reader\<close>

text \<open>
  The first \<open>n\<close> packets and files that the thread at the other end reads, as the loops of
  \<open>server_read_function\<close> and \<open>client_thread_function\<close> do. \<open>None\<close>: it never returns.
\<close>

fun read_items ::
    "(nat \<Rightarrow> bool) \<Rightarrow> char list \<Rightarrow> (nat \<Rightarrow> char) \<Rightarrow> nat \<Rightarrow> socket \<Rightarrow> (item list \<times> socket) outcome option" where
  "read_items malloc_ok stack junk 0 s = Some (Inr ([], s))"
| "read_items malloc_ok stack junk (Suc n) s =
     (case read_main_header malloc_ok stack junk s of
        Inl e \<Rightarrow> Some (Inl e)
      | Inr (None, s) \<Rightarrow> Some (Inr ([], s))
      | Inr (Some h, s) \<Rightarrow>
          if hdr_cmd h = SEND_FILE then
            (case receive_to_file s (sint (hdr_len h)) True of
               None \<Rightarrow> None
             | Some (Inl e) \<Rightarrow> Some (Inl e)
             | Some (Inr (_, file, s)) \<Rightarrow>
                 map_option (map_sum id (apfst ((#) (File_Item (hdr_gid h) (hdr_uid h) (the file)))))
                   (read_items malloc_ok stack junk n s))
          else map_option (map_sum id (apfst ((#) (Packet_Item h)))) (read_items malloc_ok stack junk n s))"

fun item_ok :: "item \<Rightarrow> bool" where
  "item_ok (Packet_Item h) \<longleftrightarrow> sendable h \<and> hdr_cmd h \<noteq> SEND_FILE"
| "item_ok (File_Item gid uid content) \<longleftrightarrow> length content < 2 ^ 31"

fun item_bytes :: "item \<Rightarrow> char list" where
  "item_bytes (Packet_Item h) = packet h"
| "item_bytes (File_Item gid uid content) = file_bytes gid uid content"

text \<open>A packet arrives with exactly its payload and a terminator.\<close>

fun arrived :: "item \<Rightarrow> item" where
  "arrived (Packet_Item h) = Packet_Item (h\<lparr>hdr_payload := take (unat (hdr_len h)) (hdr_payload h) @ [nul]\<rparr>)"
| "arrived (File_Item gid uid content) = File_Item gid uid content"

text \<open>A file header and at least as many bytes as it announces: they become the file.\<close>

lemma read_file_item:
  assumes "clean s" and "stream s = hdr_bytes \<lparr>hdr_cmd = SEND_FILE, hdr_gid = gid, hdr_uid = uid,
      hdr_len = of_nat n, hdr_payload = []\<rparr> @ bs" and "n < 2 ^ 31" and "n \<le> length bs"
    and "length stack = HDR_SIZE" and "\<And>n. malloc_ok n"
  shows "\<exists>s'. clean s' \<and> stream s' = drop n bs \<and>
    read_items malloc_ok stack junk (Suc k) s =
      map_option (map_sum id (apfst ((#) (File_Item gid uid (take n bs))))) (read_items malloc_ok stack junk k s')"
proof -
  let ?h = "\<lparr>hdr_cmd = SEND_FILE, hdr_gid = gid, hdr_uid = uid, hdr_len = of_nat n, hdr_payload = []\<rparr>"
  from read_main_header_file [OF assms(1,2) _ assms(5), where malloc_ok = malloc_ok and junk = junk] assms(6) obtain s1 where s1:
    "read_main_header malloc_ok stack junk s = Inr (Some ?h, s1)" "clean s1" "stream s1 = bs"
    by auto
  have len: "sint (hdr_len ?h) = int n" using small_int_word(1) [OF assms(3)] by simp
  from receive_loop_enough [OF s1(2), of "int n" "[]"] assms(4) s1(3) obtain s2 where s2:
    "receive_loop (int n) s1 [] = Some (Inr (take n bs, s2))" "clean s2" "stream s2 = drop n bs" by auto
  then have "receive_to_file s1 (sint (hdr_len ?h)) True = Some (Inr (0, Some (take n bs), s2))"
    by (simp only: receive_to_file_def len) simp
  then show ?thesis using s1(1) s2(2,3) by (intro exI [of _ s2]) simp
qed

lemma read_items_all:
  assumes "clean s" and "stream s = concat (map item_bytes xs) @ rest" and "\<forall>x \<in> set xs. item_ok x"
    and "length stack = HDR_SIZE" and "\<And>n. malloc_ok n"
  shows "\<exists>s'. read_items malloc_ok stack junk (length xs) s = Some (Inr (map arrived xs, s')) \<and>
    clean s' \<and> stream s' = rest"
  using assms(1-3)
proof (induction xs arbitrary: s)
  case Nil
  then show ?case by simp
next
  case (Cons x xs)
  show ?case
  proof (cases x)
    case (Packet_Item h)
    with Cons.prems have h: "stream s = packet h @ concat (map item_bytes xs) @ rest" "sendable h" "hdr_cmd h \<noteq> SEND_FILE"
      by simp_all
    from read_main_header_ok [OF Cons.prems(1) h assms(4), where malloc_ok = malloc_ok and junk = junk] assms(5) obtain s1 where
      "read_main_header malloc_ok stack junk s =
        Inr (Some (h\<lparr>hdr_payload := take (unat (hdr_len h)) (hdr_payload h) @ [nul]\<rparr>), s1)"
      "clean s1" "stream s1 = concat (map item_bytes xs) @ rest" by blast
    then show ?thesis using Cons.IH [of s1] Cons.prems(3) h(3) by (auto simp: Packet_Item)
  next
    case (File_Item gid uid content)
    with Cons.prems have f: "stream s = hdr_bytes \<lparr>hdr_cmd = SEND_FILE, hdr_gid = gid, hdr_uid = uid,
        hdr_len = of_nat (length content), hdr_payload = []\<rparr> @ content @ concat (map item_bytes xs) @ rest"
      "length content < 2 ^ 31" by (simp_all add: file_bytes_def)
    from read_file_item [OF Cons.prems(1) f _ assms(4), where malloc_ok = malloc_ok and junk = junk and k = "length xs"] assms(5) obtain s1 where
      "clean s1" "stream s1 = concat (map item_bytes xs) @ rest"
      "read_items malloc_ok stack junk (Suc (length xs)) s =
        map_option (map_sum id (apfst ((#) (File_Item gid uid content)))) (read_items malloc_ok stack junk (length xs) s1)"
      by auto
    then show ?thesis using Cons.IH [of s1] Cons.prems(3) by (auto simp: File_Item)
  qed
qed

section \<open>Schedules\<close>

text \<open>No thread writes while another one is in the middle of a file.\<close>

fun unbroken :: "nat list \<Rightarrow> writer list \<Rightarrow> socket \<Rightarrow> bool" where
  "unbroken [] ts s \<longleftrightarrow> True"
| "unbroken (i # is) ts s \<longleftrightarrow> i < length ts \<and> (\<forall>j < length ts. j \<noteq> i \<longrightarrow> unsent (ts ! j) = []) \<and>
     (case write_step (ts ! i) s of Inl _ \<Rightarrow> True | Inr (t, s') \<Rightarrow> unbroken is (ts[i := t]) s')"

text \<open>What is left of the files that are on their way.\<close>

definition open_rest :: "writer list \<Rightarrow> char list" where
  "open_rest ts = concat (map unsent ts)"

lemma open_rest_one:
  "i < length ts \<Longrightarrow> (\<forall>j < length ts. j \<noteq> i \<longrightarrow> unsent (ts ! j) = []) \<Longrightarrow> open_rest ts = unsent (ts ! i)"
proof (induction ts arbitrary: i)
  case Nil
  then show ?case by simp
next
  case (Cons t ts)
  show ?case
  proof (cases i)
    case 0
    then have "\<forall>u \<in> set ts. unsent u = []" using Cons.prems(2) by (fastforce simp: in_set_conv_nth)
    then show ?thesis by (simp add: 0 open_rest_def)
  next
    case (Suc k)
    then have "unsent t = []" using Cons.prems(2) by force
    moreover have "open_rest ts = unsent (ts ! k)" using Cons.IH [of k] Cons.prems Suc by force
    ultimately show ?thesis by (simp add: Suc open_rest_def)
  qed
qed

text \<open>The parts of a trace that belong to one thread.\<close>

definition by_thread :: "nat \<Rightarrow> (nat \<times> item) list \<Rightarrow> item list" where
  "by_thread i trace = map snd (filter (\<lambda>(j, _). j = i) trace)"

lemma by_thread_simps [simp]:
  "by_thread i [] = []" "by_thread i ((j, x) # trace) = (if j = i then x # by_thread i trace else by_thread i trace)"
  by (simp_all add: by_thread_def)

definition item_threads_ok :: "writer list \<Rightarrow> bool" where
  "item_threads_ok ts \<longleftrightarrow> (\<forall>t \<in> set ts. \<forall>x \<in> set (items t). item_ok x)"

lemma item_threads_okD: "item_threads_ok ts \<Longrightarrow> i < length ts \<Longrightarrow> \<forall>x \<in> set (items (ts ! i)). item_ok x"
  unfolding item_threads_ok_def using nth_mem by blast

lemma write_step_items: "write_step t s = Inr (t', s') \<Longrightarrow> set (items t') \<subseteq> set (items t)"
  by (induction t s rule: write_step.induct) (auto elim!: and_then_InrE)

lemma item_threads_ok_step:
  assumes "item_threads_ok ts" and "i < length ts" and "write_step (ts ! i) s = Inr (t, s')"
  shows "item_threads_ok (ts[i := t])"
  using assms(1) write_step_items [OF assms(3)] item_threads_okD [OF assms(1,2)]
    set_update_subset_insert [of ts i t]
  unfolding item_threads_ok_def by blast

text \<open>One step writes the next bytes of the open file, or nothing, or starts an item.\<close>

lemma write_step_cases:
  assumes "write_step t s = Inr (t', s')" and "sk_accept s = []" and "\<forall>x \<in> set (items t). item_ok x"
  obtains (chunk) "items t' = items t" "sk_sent s' @ unsent t' = sk_sent s @ unsent t" "sk_accept s' = []"
  | (start) x where "items t = x # items t'" "unsent t = []" "sk_sent s' @ unsent t' = sk_sent s @ item_bytes x"
      "sk_accept s' = []"
proof (cases "unsent t")
  case (Cons b bs)
  then have t: "t = Writer (b # bs) (items t)" by (cases t) simp
  have "t' = Writer (drop 1024 (b # bs)) (items t)"
    "s' = s\<lparr>sk_sent := sk_sent s @ take 1024 (b # bs)\<rparr>"
    using assms(1,2) unfolding write_step.simps(4) [of b bs "items t" s, folded t] by simp_all
  then show ?thesis using assms(2) Cons by (intro chunk) simp_all
next
  case Nil
  show ?thesis
  proof (cases "items t")
    case Nil2: Nil
    then have t: "t = Writer [] []" using Nil by (cases t) simp
    then show ?thesis using assms(1,2) by (intro chunk) auto
  next
    case x: (Cons x xs)
    then have t: "t = Writer [] (x # xs)" using Nil by (cases t) simp
    show ?thesis
    proof (cases x)
      case (Packet_Item h)
      then have "send_main_header h s = Inr (0, s\<lparr>sk_sent := sk_sent s @ packet h\<rparr>)"
        using assms(2,3) x by (intro send_main_header_ok) auto
      then show ?thesis using assms(1,2) by (intro start [of x]) (auto simp: t Packet_Item)
    next
      case (File_Item gid uid content)
      then show ?thesis using assms(1,2) by (intro start [of x]) (auto simp: t file_bytes_def)
    qed
  qed
qed

text \<open>What a schedule that breaks no file writes: whole items, those of each thread in order.\<close>

lemma unbroken_trace:
  assumes "run_schedule write_step schedule ts s = Inr (ts', s')" and "unbroken schedule ts s"
    and "sk_accept s = []" and "item_threads_ok ts" and "\<forall>t \<in> set ts'. unsent t = []"
  shows "\<exists>trace. sk_sent s' = sk_sent s @ open_rest ts @ concat (map (\<lambda>x. item_bytes (snd x)) trace) \<and>
    (\<forall>x \<in> set trace. fst x < length ts \<and> item_ok (snd x)) \<and> length ts' = length ts \<and>
    (\<forall>i < length ts. items (ts ! i) = by_thread i trace @ items (ts' ! i))"
  using assms
proof (induction schedule arbitrary: ts s)
  case Nil
  then have "open_rest ts = []" by (auto simp: open_rest_def)
  with Nil show ?case by (intro exI [of _ "[]"]) simp
next
  case (Cons i schedule)
  then obtain t1 s1 where st: "write_step (ts ! i) s = Inr (t1, s1)"
      "run_schedule write_step schedule (ts[i := t1]) s1 = Inr (ts', s')"
    by (auto elim!: and_then_InrE)
  with Cons.prems(2) have i: "i < length ts" "\<forall>j < length ts. j \<noteq> i \<longrightarrow> unsent (ts ! j) = []"
      "unbroken schedule (ts[i := t1]) s1" by auto
  have rest: "open_rest ts = unsent (ts ! i)" "open_rest (ts[i := t1]) = unsent t1"
    using open_rest_one [OF i(1,2)] open_rest_one [of i "ts[i := t1]"] i(1,2) by auto
  have ok: "\<forall>x \<in> set (items (ts ! i)). item_ok x" by (rule item_threads_okD [OF Cons.prems(4) i(1)])
  have next_ok: "item_threads_ok (ts[i := t1])" by (rule item_threads_ok_step [OF Cons.prems(4) i(1) st(1)])
  from st(1) Cons.prems(3) ok show ?case
  proof (cases rule: write_step_cases)
    case chunk
    from Cons.IH [OF st(2) i(3) chunk(3) next_ok Cons.prems(5)] obtain trace where tr:
      "sk_sent s' = sk_sent s1 @ unsent t1 @ concat (map (\<lambda>x. item_bytes (snd x)) trace)"
      "\<forall>x \<in> set trace. fst x < length ts \<and> item_ok (snd x)" "length ts' = length ts"
      "\<forall>j < length ts. items (ts[i := t1] ! j) = by_thread j trace @ items (ts' ! j)"
      unfolding rest(2) by auto
    have "items (ts ! j) = by_thread j trace @ items (ts' ! j)" if "j < length ts" for j
      using tr(4) that chunk(1) i(1) by (cases "j = i") auto
    moreover have "sk_sent s' = sk_sent s @ unsent (ts ! i) @ concat (map (\<lambda>x. item_bytes (snd x)) trace)"
      using tr(1) chunk(2) by (metis append.assoc)
    ultimately show ?thesis using tr(2,3) rest(1) by auto
  next
    case (start x)
    from Cons.IH [OF st(2) i(3) start(4) next_ok Cons.prems(5)] obtain trace where tr:
      "sk_sent s' = sk_sent s1 @ unsent t1 @ concat (map (\<lambda>x. item_bytes (snd x)) trace)"
      "\<forall>x \<in> set trace. fst x < length ts \<and> item_ok (snd x)" "length ts' = length ts"
      "\<forall>j < length ts. items (ts[i := t1] ! j) = by_thread j trace @ items (ts' ! j)"
      unfolding rest(2) by auto
    have "items (ts ! j) = by_thread j ((i, x) # trace) @ items (ts' ! j)" if "j < length ts" for j
      using tr(4) that start(1) i(1) by (cases "j = i") auto
    moreover have "sk_sent s' = sk_sent s @ item_bytes x @ concat (map (\<lambda>x. item_bytes (snd x)) trace)"
      using tr(1) start(3) by (metis append.assoc)
    moreover have "item_ok x" using ok start(1) by simp
    ultimately show ?thesis using tr(2,3) rest(1) start(2) i(1)
      by (intro exI [of _ "(i, x) # trace"]) auto
  qed
qed

text \<open>Packets alone need no care: with no file to send, no schedule can break one.\<close>

definition packets_only :: "writer \<Rightarrow> bool" where
  "packets_only t \<longleftrightarrow> unsent t = [] \<and> (\<forall>x \<in> set (items t). \<exists>h. x = Packet_Item h)"

lemma packets_only_step: "write_step t s = Inr (t', s') \<Longrightarrow> packets_only t \<Longrightarrow> packets_only t'"
  by (induction t s rule: write_step.induct) (auto simp: packets_only_def elim!: and_then_InrE)

lemma packets_unbroken:
  assumes "\<forall>t \<in> set ts. packets_only t"
    and "\<forall>i \<in> set schedule. i < length ts"
  shows "unbroken schedule ts s"
  using assms
proof (induction schedule arbitrary: ts s)
  case Nil
  then show ?case by simp
next
  case (Cons i schedule ts s)
  then have i: "i < length ts" by simp
  have ok: "\<forall>t' \<in> set ts. packets_only t'" using Cons.prems(1) .
  have "unbroken schedule (ts[i := t']) s'" if "write_step (ts ! i) s = Inr (t', s')" for t' s'
  proof (rule Cons.IH)
    have "packets_only t'" using packets_only_step [OF that] ok nth_mem [OF i] by blast
    then show "\<forall>u \<in> set (ts[i := t']). packets_only u" using ok set_update_subset_insert [of ts i t'] by blast
    show "\<forall>j \<in> set schedule. j < length (ts[i := t'])" using Cons.prems(2) by simp
  qed
  moreover have "\<forall>j < length ts. unsent (ts ! j) = []" using ok nth_mem by (auto simp: packets_only_def)
  ultimately show ?case using i by (auto split: sum.split)
qed

section \<open>Properties\<close>

text \<open>C20: Threads that share a socket. Whatever packets and files any number of threads send, under any
  schedule in which no thread writes while another one is in the middle of a file, and however the
  transport cuts the bytes, the thread at the other end reads exactly these packets and files: none is
  lost, none is mixed with another, those of one thread come in their order, and nothing is left over.
  If only packets are sent, every schedule is of this kind.\<close>

theorem unbroken_items_arrive:
  assumes "run_schedule write_step schedule ts s = Inr (ts', s')" and "unbroken schedule ts s"
    and "sk_accept s = []" and "item_threads_ok ts" and "\<forall>t \<in> set ts. unsent t = []" and "\<forall>t \<in> set ts'. unsent t = []"
    and "delivers chop" and "clean t" and "stream t = []"
    and "length stack = HDR_SIZE" and "malloc_ok = (\<lambda>_. True)"
  shows "\<exists>trace t'. read_items malloc_ok stack junk (length trace) (arrive (chop (new_bytes s s')) t) =
      Some (Inr (map (\<lambda>x. arrived (snd x)) trace, t')) \<and> stream t' = [] \<and>
    length ts' = length ts \<and> (\<forall>x \<in> set trace. fst x < length ts) \<and>
    (\<forall>i < length ts. items (ts ! i) = by_thread i trace @ items (ts' ! i))"
proof -
  from unbroken_trace [OF assms(1-4,6)] obtain trace where tr:
    "sk_sent s' = sk_sent s @ open_rest ts @ concat (map (\<lambda>x. item_bytes (snd x)) trace)"
    "\<forall>x \<in> set trace. fst x < length ts \<and> item_ok (snd x)" "length ts' = length ts"
    "\<forall>i < length ts. items (ts ! i) = by_thread i trace @ items (ts' ! i)" by blast
  have "open_rest ts = []" using assms(5) by (simp add: open_rest_def)
  then have "new_bytes s s' = concat (map item_bytes (map snd trace))" by (simp add: new_bytes_def tr(1) comp_def)
  then have "stream (arrive (chop (new_bytes s s')) t) = concat (map item_bytes (map snd trace)) @ []"
    using arrive_clean(2) [OF assms(7-9)] by simp
  from read_items_all [OF arrive_clean(1) [OF assms(7-9)] this _ assms(10), where malloc_ok = malloc_ok and junk = junk] tr(2) assms(11) obtain t' where
    "read_items malloc_ok stack junk (length trace) (arrive (chop (new_bytes s s')) t) =
      Some (Inr (map (\<lambda>x. arrived (snd x)) trace, t'))" "stream t' = []"
    by (auto simp: comp_def)
  then show ?thesis using tr(2-4) by blast
qed

definition sample_writers :: "writer list" where
  "sample_writers = [Writer [] [Packet_Item sample_header], Writer [] [File_Item 0 1 ''abc'']]"

theorem unbroken_items_arrive_witness:
  "\<exists>s' trace t'. run_schedule write_step [1, 1, 0] sample_writers (connection []) =
      Inr ([Writer [] [], Writer [] []], s') \<and>
    read_items (\<lambda>_. True) (replicate HDR_SIZE nul) (\<lambda>_. space) (length trace)
      (arrive (map (\<lambda>c. Data [c]) (new_bytes (connection []) s')) (connection [])) =
        Some (Inr (map (\<lambda>x. arrived (snd x)) trace, t')) \<and> stream t' = [] \<and>
    by_thread 0 trace = [Packet_Item sample_header] \<and> by_thread 1 trace = [File_Item 0 1 ''abc'']"
proof -
  have h: "sendable sample_header" "hdr_cmd sample_header \<noteq> SEND_FILE"
    by (simp_all add: sendable_def sample_header_def)
  obtain s' where run: "run_schedule write_step [1, 1, 0] sample_writers (connection []) =
      Inr ([Writer [] [], Writer [] []], s')" and unb: "unbroken [1, 1, 0] sample_writers (connection [])"
    using send_main_header_ok [OF h(1)]
    by (simp add: sample_writers_def connection_def less_Suc_eq)
  have idle: "sk_accept (connection []) = []" "clean (connection [])" "stream (connection []) = []"
    by (simp_all add: connection_def clean_def stream_def)
  from unbroken_items_arrive [OF run unb idle(1) _ _ _ bytewise idle(2,3), of "replicate HDR_SIZE nul" "\<lambda>_. True" "\<lambda>_. space"] h
  obtain trace t' where
    "read_items (\<lambda>_. True) (replicate HDR_SIZE nul) (\<lambda>_. space) (length trace)
      (arrive (map (\<lambda>c. Data [c]) (new_bytes (connection []) s')) (connection [])) =
        Some (Inr (map (\<lambda>x. arrived (snd x)) trace, t'))" "stream t' = []"
    "\<forall>i < length sample_writers. items (sample_writers ! i) =
      by_thread i trace @ items ([Writer [] [], Writer [] []] ! i)"
    by (auto simp: item_threads_ok_def sample_writers_def)
  moreover from this(3) have "by_thread 0 trace = [Packet_Item sample_header]"
    "by_thread 1 trace = [File_Item 0 1 ''abc'']"
    by (auto simp: sample_writers_def less_Suc_eq all_conj_distrib)
  ultimately show ?thesis using run by blast
qed

lemma chunks_written:
  "sk_accept s = [] \<Longrightarrow> length a = 1024 * k \<Longrightarrow> a @ b \<noteq> [] \<or> k = 0 \<Longrightarrow>
    gets write_step (Writer (a @ b) xs) s (Writer b xs) (s\<lparr>sk_sent := sk_sent s @ a\<rparr>)"
proof (induction k arbitrary: a s)
  case 0
  then show ?case by simp
next
  case (Suc k)
  let ?s = "s\<lparr>sk_sent := sk_sent s @ take 1024 a\<rparr>"
  have "gets write_step (Writer (drop 1024 a @ b) xs) ?s (Writer b xs) (?s\<lparr>sk_sent := sk_sent ?s @ drop 1024 a\<rparr>)"
  proof (rule Suc.IH)
    show "drop 1024 a @ b \<noteq> [] \<or> k = 0" using Suc.prems(2) by (cases k) auto
  qed (use Suc.prems in simp_all)
  moreover have "write_step (Writer (a @ b) xs) s = Inr (Writer (drop 1024 a @ b) xs, ?s)"
    using Suc.prems write_chunk [of "a @ b" xs s] by auto
  ultimately show ?case using gets_step [of write_step] by fastforce
qed

text \<open>C21: Nothing in the code makes the schedules of that kind the only ones: \<open>send_file\<close> writes to
  the socket \<open>directly rather than through queue\<close>. A packet that another thread writes after any number
  of chunks of a file takes the place of the next bytes of the file: the receiver's file goes on with
  the packet, the packet itself is not received, and the last bytes of the file, as many as the
  packet has, stay in the stream and are read as packets.\<close>

theorem packet_in_file:
  assumes "length a = 1024 * k" and "length (a @ b) < 2 ^ 31" and "sendable h" and "sk_accept s = []"
    and "delivers chop" and "clean t" and "stream t = []"
    and "length stack = HDR_SIZE" and "malloc_ok = (\<lambda>_. True)"
  shows "\<exists>schedule s' t'.
    run_schedule write_step schedule [Writer [] [File_Item gid uid (a @ b)], Writer [] [Packet_Item h]] s =
      Inr ([Writer [] [], Writer [] []], s') \<and>
    read_items malloc_ok stack junk 1 (arrive (chop (new_bytes s s')) t) =
      Some (Inr ([File_Item gid uid (a @ take (length b) (packet h @ b))], t')) \<and>
    stream t' = drop (length b) (packet h @ b)"
proof -
  let ?hd = "hdr_bytes \<lparr>hdr_cmd = SEND_FILE, hdr_gid = gid, hdr_uid = uid,
    hdr_len = of_nat (length (a @ b)), hdr_payload = []\<rparr>"
  let ?s1 = "s\<lparr>sk_sent := sk_sent s @ ?hd\<rparr>"
  let ?s2 = "?s1\<lparr>sk_sent := sk_sent ?s1 @ a\<rparr>"
  let ?s3 = "?s2\<lparr>sk_sent := sk_sent ?s2 @ packet h\<rparr>"
  let ?s4 = "?s3\<lparr>sk_sent := sk_sent ?s3 @ b\<rparr>"
  have "a @ b \<noteq> [] \<or> k = 0" using assms(1) by (cases k) auto
  then have "gets write_step (Writer (a @ b) []) ?s1 (Writer b []) ?s2"
    using assms(1,4) by (intro chunks_written) simp_all
  then have "gets write_step (Writer [] [File_Item gid uid (a @ b)]) s (Writer b []) ?s2"
    by (rule gets_step [of write_step, rotated]) (use assms(4) in simp)
  moreover have "write_step (Writer [] [Packet_Item h]) ?s2 = Inr (Writer [] [], ?s3)"
    using send_main_header_ok [OF assms(3), of ?s2] assms(4) by simp
  then have "gets write_step (Writer [] [Packet_Item h]) ?s2 (Writer [] []) ?s3"
    by (rule gets_step [of write_step]) (rule gets_refl)
  moreover have "gets write_step (Writer b []) ?s3 (Writer [] []) ?s4"
    using chunks_gets [of b "[]" ?s3] send_chunks_all [of ?s3 b] assms(4) by simp
  ultimately obtain schedule where run:
    "run_schedule write_step schedule [Writer [] [File_Item gid uid (a @ b)], Writer [] [Packet_Item h]] s =
      Inr ([Writer [] [], Writer [] []], ?s4)"
    using two_turns [of write_step, OF _ _ _ gets_refl] by blast
  have new: "new_bytes s ?s4 = ?hd @ a @ packet h @ b" by (simp add: new_bytes_def)
  note arr = arrive_clean [OF assms(5-7), of "?hd @ a @ packet h @ b"]
  from read_file_item [OF arr(1) arr(2) assms(2) _ assms(8), of malloc_ok junk 0] assms(9) obtain t' where
    "stream t' = drop (length (a @ b)) (a @ packet h @ b)"
    "read_items malloc_ok stack junk 1 (arrive (chop (?hd @ a @ packet h @ b)) t) =
      Some (Inr ([File_Item gid uid (take (length (a @ b)) (a @ packet h @ b))], t'))"
    by auto
  then show ?thesis using run by (intro exI [of _ schedule] exI [of _ ?s4] exI [of _ t']) (simp only: new, simp)
qed

theorem packet_in_file_witness:
  "\<exists>schedule s' t'.
    run_schedule write_step schedule [Writer [] [File_Item 0 1 ([] @ ''hello'')], Writer [] [Packet_Item sample_header]]
      (connection []) = Inr ([Writer [] [], Writer [] []], s') \<and>
    read_items (\<lambda>_. True) (replicate HDR_SIZE nul) (\<lambda>_. space) 1
      (arrive (map (\<lambda>c. Data [c]) (new_bytes (connection []) s')) (connection [])) =
      Some (Inr ([File_Item 0 1 ([] @ take (length ''hello'') (packet sample_header @ ''hello''))], t')) \<and>
    stream t' = drop (length ''hello'') (packet sample_header @ ''hello'')"
  by (rule packet_in_file [where k = 0, OF _ _ _ _ bytewise])
    (simp_all add: sendable_def sample_header_def connection_def clean_def stream_def)

end
