(* ===== verification/Server_Isolation.thy ===== *)
theory Server_Isolation
  imports Invitation
begin

text \<open>
  Which connections a packet of one client can touch. Nothing here depends on how much the sockets
  accept or on allocations: whatever happens, a command reads and writes only the connection it came
  from, those of the group that it is for, and that of the user it invites.
\<close>

section \<open>The connections that a call leaves alone\<close>

definition only_socks :: "nat set \<Rightarrow> server \<Rightarrow> server \<Rightarrow> bool" where
  "only_socks F sv sv' \<longleftrightarrow> (\<forall>fd. fd \<notin> F \<longrightarrow> sv_socks sv' fd = sv_socks sv fd)"

lemma only_socks_refl [simp]: "only_socks F sv sv"
  by (simp add: only_socks_def)

lemma only_socks_trans: "only_socks F a b \<Longrightarrow> only_socks G b c \<Longrightarrow> only_socks (F \<union> G) a c"
  by (simp add: only_socks_def)

lemma only_socks_mono: "only_socks F a b \<Longrightarrow> F \<subseteq> G \<Longrightarrow> only_socks G a b"
  by (auto simp: only_socks_def)

lemma only_socks_upd [simp]:
  "only_socks F a (b\<lparr>sv_data := d\<rparr>) = only_socks F a b" "only_socks F a (b\<lparr>sv_active := m\<rparr>) = only_socks F a b"
  "only_socks F a (b\<lparr>sv_groups := g\<rparr>) = only_socks F a b" "only_socks F a (b\<lparr>sv_group_cnt := n\<rparr>) = only_socks F a b"
  "only_socks F a (b\<lparr>sv_file_cnt := k\<rparr>) = only_socks F a b" "only_socks F a (set_file f x b) = only_socks F a b"
  "only_socks F (a\<lparr>sv_data := d\<rparr>) b = only_socks F a b" "only_socks F (a\<lparr>sv_active := m\<rparr>) b = only_socks F a b"
  "only_socks F (a\<lparr>sv_groups := g\<rparr>) b = only_socks F a b" "only_socks F (a\<lparr>sv_group_cnt := n\<rparr>) b = only_socks F a b"
  "only_socks F (a\<lparr>sv_file_cnt := k\<rparr>) b = only_socks F a b" "only_socks F (set_file f x a) b = only_socks F a b"
  by (simp_all add: only_socks_def set_file_def)

lemma put_sock_only: "fd \<in> F \<Longrightarrow> only_socks F a b \<Longrightarrow> only_socks F a (put_sock fd s b)"
  by (auto simp: only_socks_def put_sock_def)

lemma send_on_only: "send_on h fd sv = Inr (r, sv') \<Longrightarrow> only_socks {fd} sv sv'"
  by (auto simp: send_on_def only_socks_def split: option.splits elim!: and_then_InrE)

lemma reply_only: "reply p h sv = Inr sv' \<Longrightarrow> \<exists>c. sv_data sv p = Some c \<and> only_socks {cl_connfd c} sv sv'"
  by (auto simp: reply_def dest!: send_on_only elim!: and_then_InrE)

text \<open>The connections to which the table of active users leads for a list of users.\<close>

definition conns_of :: "server \<Rightarrow> u16 list \<Rightarrow> nat set" where
  "conns_of sv us = {cl_connfd d | u q d. u \<in> set us \<and> hm_lookup (sv_active sv) (ucast u) = Some (Some q) \<and>
     sv_data sv q = Some d}"

lemma conns_of_cong: "sv_active a = sv_active b \<Longrightarrow> sv_data a = sv_data b \<Longrightarrow> conns_of a us = conns_of b us"
  by (simp add: conns_of_def)

lemma forward_loop_only:
  "forward_loop ok h us sv = Inr sv' \<Longrightarrow> hm_inv (sv_active sv) \<Longrightarrow> only_socks (conns_of sv us) sv sv'"
proof (induction us arbitrary: sv)
  case Nil
  then show ?case by simp
next
  case (Cons u us)
  have sub: "conns_of sv us \<subseteq> conns_of sv (u # us)" by (auto simp: conns_of_def)
  show ?case
  proof (cases "hm_lookup (sv_active sv) (ucast u)")
    case None
    then have "forward_loop ok h us sv = Inr sv'" using Cons.prems by (simp add: hashmap_get_lookup)
    then show ?thesis using Cons.IH Cons.prems(2) only_socks_mono [OF _ sub] by blast
  next
    case (Some v)
    then obtain q d r sv1 where q: "v = Some q" "sv_data sv q = Some d"
        "send_on (h\<lparr>hdr_payload := take (unat (hdr_len h)) (hdr_payload h)\<rparr>) (cl_connfd d) sv = Inr (r, sv1)"
        "forward_loop ok h us sv1 = Inr sv'"
      using Cons.prems by (auto simp: hashmap_get_lookup elim!: and_then_InrE split: if_splits)
    have same: "sv_active sv1 = sv_active sv" "sv_data sv1 = sv_data sv"
      using send_on_quiet [OF q(3)] by (simp_all add: quiet_def)
    have "only_socks (conns_of sv us) sv1 sv'"
      using Cons.IH [OF q(4)] Cons.prems(2) conns_of_cong [OF same] same by simp
    with send_on_only [OF q(3)] have "only_socks ({cl_connfd d} \<union> conns_of sv us) sv sv'" by (rule only_socks_trans)
    moreover have "cl_connfd d \<in> conns_of sv (u # us)" using Some q(1,2) by (auto simp: conns_of_def)
    ultimately show ?thesis using sub by (auto elim: only_socks_mono)
  qed
qed

lemma forward_to_group_only:
  assumes "forward_to_group env gid h sv = Inr sv'" and "hm_inv (sv_active sv)"
  obtains g where "group_at sv gid = Inr g" "only_socks (conns_of sv g) sv sv'"
  using assms by (auto simp: forward_to_group_def dest: forward_loop_only elim!: and_then_InrE)

section \<open>The connections that a command touches\<close>

text \<open>The connection of the user that an invitation names.\<close>

definition invited_conn :: "server \<Rightarrow> mainhdr \<Rightarrow> nat \<Rightarrow> bool" where
  "invited_conn sv recv fd \<longleftrightarrow> (\<exists>name k q d. strncpy zero_name (hdr_payload recv) (unat (hdr_len recv)) = Inr name \<and>
     find_uid (file_of sv CREDENTIAL_FILE_NAME) name = Inr k \<and> 0 < k \<and>
     hm_lookup (sv_active sv) (of_int k) = Some (Some q) \<and> sv_data sv q = Some d \<and> cl_connfd d = fd)"

text \<open>The other connections that a command may write to.\<close>

definition addressed :: "server \<Rightarrow> mainhdr \<Rightarrow> nat \<Rightarrow> bool" where
  "addressed sv recv fd \<longleftrightarrow> (\<exists>g. group_at sv (hdr_gid recv) = Inr g \<and>
     (hdr_cmd recv = SEND_CHAT \<and> hdr_uid recv \<in> set g \<and> fd \<in> conns_of sv g \<or>
      hdr_cmd recv = SEND_FILE \<and> fd \<in> conns_of sv g \<or>
      hdr_cmd recv = INVITE \<and> hdr_uid recv \<in> set g \<and> invited_conn sv recv fd))"

lemma set_file_data [simp]: "sv_data (set_file f x sv) = sv_data sv" "sv_active (set_file f x sv) = sv_active sv"
  by (simp_all add: set_file_def)

lemma handle_usr_create_only:
  "handle_usr_create env p recv sv = Inr sv' \<Longrightarrow> sv_data sv p = Some c \<Longrightarrow> only_socks {cl_connfd c} sv sv'"
  by (auto simp: handle_usr_create_def Let_def elim!: and_then_InrE dest!: reply_only)

lemma handle_usr_login_only:
  "handle_usr_login env p recv sv = Inr sv' \<Longrightarrow> sv_data sv p = Some c \<Longrightarrow> only_socks {cl_connfd c} sv sv'"
  by (auto simp: handle_usr_login_def elim!: and_then_InrE split: if_splits dest!: reply_only)

lemma handle_create_group_only:
  "handle_create_group env p recv sv = Inr sv' \<Longrightarrow> sv_data sv p = Some c \<Longrightarrow> only_socks {cl_connfd c} sv sv'"
  by (auto simp: handle_create_group_def Let_def elim!: and_then_InrE split: if_splits dest!: reply_only)

lemma handle_active_list_only:
  "handle_active_list env p recv sv = Inr sv' \<Longrightarrow> sv_data sv p = Some c \<Longrightarrow> only_socks {cl_connfd c} sv sv'"
  by (auto simp: handle_active_list_def get_active_users_str_def Let_def elim!: and_then_InrE
      split: if_splits dest!: reply_only)

lemma handle_download_file_only:
  "handle_download_file env p recv sv = Inr sv' \<Longrightarrow> sv_data sv p = Some c \<Longrightarrow> only_socks {cl_connfd c} sv sv'"
  by (auto simp: handle_download_file_def Let_def elim!: and_then_InrE split: if_splits prod.splits
      intro!: put_sock_only)

lemma handle_invite_resp_only: "handle_invite_resp env recv sv = Inr sv' \<Longrightarrow> only_socks {} sv sv'"
  by (auto simp: handle_invite_resp_def add_user_to_group_def elim!: and_then_InrE split: if_splits list.splits)

lemma handle_invite_only:
  assumes "handle_invite env recv sv = Inr sv'" and "hm_inv (sv_active sv)" and "hdr_cmd recv = INVITE"
  shows "only_socks {fd. addressed sv recv fd} sv sv'"
proof (cases "sv' = sv")
  case False
  with assms(1,2) obtain g name k q send where g: "group_at sv (hdr_gid recv) = Inr g"
      "check_user_in_group sv (hdr_uid recv) (hdr_gid recv) = Inr 0"
      "strncpy zero_name (hdr_payload recv) (unat (hdr_len recv)) = Inr name"
      "find_uid (file_of sv CREDENTIAL_FILE_NAME) name = Inr k" "0 < k"
      "hashmap_get (sv_active sv) (of_int k) = Inr (MAP_OK, Some q)" "reply q send sv = Inr sv'"
    by (auto simp: handle_invite_def not_le elim!: and_then_InrE split: if_splits)
  then have "hdr_uid recv \<in> set g" by (auto simp: check_user_in_group_def find_member_iff split: if_splits)
  moreover have "hm_lookup (sv_active sv) (of_int k) = Some (Some q)"
    using g(6) assms(2) by (auto simp: hashmap_get_lookup split: option.splits)
  moreover obtain d where d: "sv_data sv q = Some d" "only_socks {cl_connfd d} sv sv'"
    using reply_only [OF g(7)] by blast
  ultimately have "addressed sv recv (cl_connfd d)"
    using g(1,3-5) assms(3) unfolding addressed_def invited_conn_def by blast
  then show ?thesis using d(2) by (auto elim: only_socks_mono)
qed simp

lemma new_packet_gid: "new_packet env cmd gid uid len = Inr h \<Longrightarrow> hdr_gid h = gid \<and> hdr_len h = len"
  by (auto simp: new_packet_def create_and_fill_hdr_def deref_def split: option.splits if_splits)

lemma handle_send_chat_only:
  assumes "handle_send_chat env recv sv = Inr sv'" and "hm_inv (sv_active sv)" and "hdr_cmd recv = SEND_CHAT"
  shows "only_socks {fd. addressed sv recv fd} sv sv'"
proof (cases "sv' = sv")
  case False
  with assms(1) obtain g gid send where g: "group_at sv (hdr_gid recv) = Inr g"
      "check_user_in_group sv (hdr_uid recv) (hdr_gid recv) = Inr 0"
      "forward_to_group env (hdr_gid recv) send sv = Inr sv'"
    by (auto simp: handle_send_chat_def new_packet_def create_and_fill_hdr_def deref_def
        elim!: and_then_InrE split: if_splits option.splits)
  have "hdr_uid recv \<in> set g" using g(1,2) by (auto simp: check_user_in_group_def find_member_iff split: if_splits)
  moreover have "only_socks (conns_of sv g) sv sv'" using forward_to_group_only [OF g(3) assms(2)] g(1) by auto
  ultimately show ?thesis using g(1) assms(3) by (auto simp: addressed_def elim: only_socks_mono)
qed simp

lemma handle_send_file_only:
  assumes "handle_send_file env p recv sv = Some (Inr sv')" and "hm_inv (sv_active sv)" and "hdr_cmd recv = SEND_FILE"
    and "sv_data sv p = Some c"
  shows "only_socks ({cl_connfd c} \<union> {fd. addressed sv recv fd}) sv sv'"
proof -
  obtain content s' sv1 h where
    sv1: "sv1 = (let sv2 = put_sock (cl_connfd c) s' (sv\<lparr>sv_file_cnt := sv_file_cnt sv + 1\<rparr>) in
        case content of None \<Rightarrow> sv2 | Some _ \<Rightarrow> set_file (file_name (hdr_gid recv) (sv_file_cnt sv)) content sv2)"
    and f: "forward_to_group env (hdr_gid recv) h sv1 = Inr sv'"
    using assms(1,4)
    by (auto simp: handle_send_file_def Let_def split: sum.splits prod.splits
        elim!: and_then_InrE dest!: new_packet_gid)
  have q: "sv_active sv1 = sv_active sv" "sv_data sv1 = sv_data sv" "sv_groups sv1 = sv_groups sv"
    by (simp_all add: sv1 Let_def put_sock_def set_file_def split: option.split)
  have "only_socks {cl_connfd c} sv sv1"
    by (auto simp: sv1 Let_def intro!: put_sock_only split: option.split)
  moreover obtain g where g: "group_at sv1 (hdr_gid recv) = Inr g" "only_socks (conns_of sv1 g) sv1 sv'"
    using forward_to_group_only [OF f] assms(2) q(1) by auto
  ultimately have "only_socks ({cl_connfd c} \<union> conns_of sv g) sv sv'"
    using only_socks_trans conns_of_cong [OF q(1,2)] by metis
  moreover have "group_at sv (hdr_gid recv) = Inr g" using g(1) q(3) by (simp add: group_at_Inr)
  ultimately show ?thesis using assms(3) by (auto simp: addressed_def elim!: only_socks_mono)
qed

lemma handle_only:
  assumes "handle env p recv sv = Some (Inr sv')" and "hm_inv (sv_active sv)" and "sv_data sv p = Some c"
  shows "only_socks (insert (cl_connfd c) (Collect (addressed sv recv))) sv sv'"
proof -
  let ?P = "only_socks (insert (cl_connfd c) (Collect (addressed sv recv))) sv sv'"
  have own: "only_socks {cl_connfd c} sv sv' \<Longrightarrow> ?P" and other: "only_socks (Collect (addressed sv recv)) sv sv' \<Longrightarrow> ?P"
    and none: "only_socks {} sv sv' \<Longrightarrow> ?P"
    by (auto elim: only_socks_mono)
  have all: "handle_usr_create env p recv sv = Inr sv' \<Longrightarrow> ?P" "handle_usr_login env p recv sv = Inr sv' \<Longrightarrow> ?P"
    "handle_create_group env p recv sv = Inr sv' \<Longrightarrow> ?P" "handle_active_list env p recv sv = Inr sv' \<Longrightarrow> ?P"
    "handle_download_file env p recv sv = Inr sv' \<Longrightarrow> ?P" "handle_invite_resp env recv sv = Inr sv' \<Longrightarrow> ?P"
    "hdr_cmd recv = INVITE \<Longrightarrow> handle_invite env recv sv = Inr sv' \<Longrightarrow> ?P"
    "hdr_cmd recv = SEND_CHAT \<Longrightarrow> handle_send_chat env recv sv = Inr sv' \<Longrightarrow> ?P"
    "hdr_cmd recv = SEND_FILE \<Longrightarrow> handle_send_file env p recv sv = Some (Inr sv') \<Longrightarrow> ?P"
    using own [OF handle_usr_create_only [OF _ assms(3)]] own [OF handle_usr_login_only [OF _ assms(3)]]
      own [OF handle_create_group_only [OF _ assms(3)]] own [OF handle_active_list_only [OF _ assms(3)]]
      own [OF handle_download_file_only [OF _ assms(3)]] none [OF handle_invite_resp_only]
      other [OF handle_invite_only [OF _ assms(2)]] other [OF handle_send_chat_only [OF _ assms(2)]]
      handle_send_file_only [OF _ assms(2) _ assms(3)] by simp_all
  consider "hdr_cmd recv = USR_CREATE" | "hdr_cmd recv = USR_LOGIN" | "hdr_cmd recv = CREATE_GROUP"
    | "hdr_cmd recv = INVITE" | "hdr_cmd recv = INVITE_RESP" | "hdr_cmd recv = SEND_CHAT"
    | "hdr_cmd recv = ACTIVE_LIST" | "hdr_cmd recv = SEND_FILE" | "hdr_cmd recv = DOWNLOAD_FILE"
    | "sv' = sv" using assms(1) by (auto simp: handle_def split: if_splits)
  then show ?thesis using assms(1) by cases (simp_all add: handle_def all)
qed

lemma addressed_socks: "addressed (put_sock k s sv) recv fd = addressed sv recv fd"
  by (simp add: addressed_def invited_conn_def conns_of_def group_at_def put_sock_def file_of_def)

lemma serve_only:
  assumes "serve env p sv = Some (Inr sv')" and "hm_inv (sv_active sv)" and "sv_data sv p = Some c"
    and "fd \<noteq> cl_connfd c" and "sv_socks sv' fd \<noteq> sv_socks sv fd"
  shows "\<exists>recv s. read_main_header (en_malloc env) (en_stack env) (en_junk env) (sock_of sv (cl_connfd c)) =
    Inr (Some recv, s) \<and> addressed sv recv fd"
proof -
  obtain recv s where r: "read_main_header (en_malloc env) (en_stack env) (en_junk env) (sock_of sv (cl_connfd c)) =
      Inr (recv, s)"
    using assms(1,3) by (auto simp: serve_def load_client_def split: sum.splits elim!: and_then_InrE)
  let ?sv = "put_sock (cl_connfd c) s sv"
  have same: "sv_socks ?sv fd = sv_socks sv fd" "sv_data ?sv p = Some c" "hm_inv (sv_active ?sv)"
    using assms(2-4) by (simp_all add: put_sock_def)
  show ?thesis
  proof (cases recv)
    case None
    then have "exit_thread p ?sv = Inr sv'" using assms(1,3) r by (simp add: serve_def load_client_def)
    then have "sv_socks sv' fd = sv_socks ?sv fd"
      using assms(4) same(2) by (auto simp: exit_thread_def Let_def elim!: and_then_InrE split: if_splits)
    then show ?thesis using assms(5) same(1) by simp
  next
    case (Some h)
    then have "handle env p h ?sv = Some (Inr sv')" using assms(1,3) r by (simp add: serve_def load_client_def)
    from handle_only [OF this same(3,2)] have "addressed sv h fd"
      using assms(4,5) same(1) by (auto simp: only_socks_def addressed_socks)
    then show ?thesis using r Some by blast
  qed
qed

section \<open>Properties\<close>

text \<open>C8: What happens on one connection touches no other, except as the command says. In any state with
  the server's invariant, which all reachable states have, under any failures of allocations, reads and writes: if a turn of the thread
  of one client changes what is sent or received on another connection, then it has read a packet
  that is a chat message of a member to its group, and the connection is one of an online member; or
  a file for the group; or an invitation by a member, and the connection is that of the user it
  names. No one else gets a byte of a group's messages.\<close>

theorem others_untouched:
  assumes "sv_inv sv" and "serve env p sv = Some (Inr sv')" and "sv_data sv p = Some c"
    and "fd \<noteq> cl_connfd c" and "sv_socks sv' fd \<noteq> sv_socks sv fd"
  shows "\<exists>recv s g. read_main_header (en_malloc env) (en_stack env) (en_junk env) (sock_of sv (cl_connfd c)) =
      Inr (Some recv, s) \<and> group_at sv (hdr_gid recv) = Inr g \<and>
    (hdr_cmd recv = SEND_CHAT \<and> hdr_uid recv \<in> set g \<and> fd \<in> conns_of sv g \<or>
     hdr_cmd recv = SEND_FILE \<and> fd \<in> conns_of sv g \<or>
     hdr_cmd recv = INVITE \<and> hdr_uid recv \<in> set g \<and> invited_conn sv recv fd)"
proof -
  have "hm_inv (sv_active sv)" using assms(1) by (simp add: sv_inv_def)
  from serve_only [OF assms(2) this assms(3-5)] show ?thesis unfolding addressed_def by blast
qed

theorem others_untouched_witness:
  "\<exists>sv' recv s g. serve sample_env 7 (arrive_at 4 (map (\<lambda>c. Data [c]) (packet (invite_packet 0 1 ''bob''))) talk_server) =
      Some (Inr sv') \<and>
    read_main_header (en_malloc sample_env) (en_stack sample_env) (en_junk sample_env)
      (sock_of (arrive_at 4 (map (\<lambda>c. Data [c]) (packet (invite_packet 0 1 ''bob''))) talk_server) 4) =
      Inr (Some recv, s) \<and>
    group_at (arrive_at 4 (map (\<lambda>c. Data [c]) (packet (invite_packet 0 1 ''bob''))) talk_server) (hdr_gid recv) =
      Inr g \<and>
    (hdr_cmd recv = SEND_CHAT \<and> hdr_uid recv \<in> set g \<and>
       5 \<in> conns_of (arrive_at 4 (map (\<lambda>c. Data [c]) (packet (invite_packet 0 1 ''bob''))) talk_server) g \<or>
     hdr_cmd recv = SEND_FILE \<and>
       5 \<in> conns_of (arrive_at 4 (map (\<lambda>c. Data [c]) (packet (invite_packet 0 1 ''bob''))) talk_server) g \<or>
     hdr_cmd recv = INVITE \<and> hdr_uid recv \<in> set g \<and>
       invited_conn (arrive_at 4 (map (\<lambda>c. Data [c]) (packet (invite_packet 0 1 ''bob''))) talk_server) recv 5)"
proof -
  let ?sv = "arrive_at 4 (map (\<lambda>c. Data [c]) (packet (invite_packet 0 1 ''bob''))) talk_server"
  note T = talk_server_facts(5) [unfolded serves_group_def]
  have k: "find_uid (file_of talk_server CREDENTIAL_FILE_NAME) (name_buf ''bob'') = Inr (uint (2 :: u16))"
    unfolding talk_server_facts(4) using find_uid_cred [OF sample_rep c_str_bufs(1) [OF sample_ok(3)]]
    by (simp add: sample_users_def)
  obtain c s where c: "sv_data talk_server 7 = Some c" "cl_connfd c = 4" "sv_socks talk_server 4 = Some s"
    using T by blast
  have inv: "sv_inv ?sv"
    using T c(3) by (auto simp: sv_inv_def arrive_at_def clients_ok_def split: if_splits)
  from invitation_forwarded [OF bytewise talk_server_facts(5) _ _ k _ _ talk_server_facts(1), of "connection []"]
  obtain sv' t' where sv': "serve sample_env 7 ?sv = Some (Inr sv')" "sv_socks sv' 5 = Some t'"
      "new_bytes (connection []) t' = packet (invitation 0 1)"
    by (auto simp: MAX_CHAR_USERID_def nul_def talk_server_facts talk_map_facts connection_def clean_def stream_def)
  have data: "sv_data ?sv 7 = Some c" "5 \<noteq> cl_connfd c" using c by (simp_all add: arrive_at_def)
  have "t' \<noteq> connection []" using sv'(3) by (auto simp: new_bytes_def packet_def hdr_bytes_def)
  then have diff: "sv_socks sv' 5 \<noteq> sv_socks ?sv 5" using sv'(2) by (simp add: arrive_at_def talk_server_facts)
  from others_untouched [OF inv sv'(1) data diff, unfolded c(2)] show ?thesis using sv'(1) by blast
qed

end
