(* ===== verification/Server_Files.thy ===== *)
theory Server_Files
  imports File_Sharing Startup
begin

text \<open>
  The files of the server over any run: lines of \<open>credential.txt\<close> are only added, so that who can log
  in can always log in, and what was stored for a group is never overwritten.
\<close>

section \<open>Searching a longer credential file\<close>

definition whole_lines :: "char list \<Rightarrow> bool" where
  "whole_lines f \<longleftrightarrow> f = [] \<or> last f = newline"

lemma whole_lines_append: "whole_lines f \<Longrightarrow> whole_lines g \<Longrightarrow> whole_lines (f @ g)"
  by (cases "g = []") (auto simp: whole_lines_def)

lemma take_line_append:
  "whole_lines f \<Longrightarrow> f \<noteq> [] \<Longrightarrow> take_line n (f @ g) = take_line n f"
proof (induction n f rule: take_line.induct)
  case (3 n c f)
  then show ?case by (cases "f = []") (auto simp: whole_lines_def)
qed simp_all

lemma whole_lines_rest: "whole_lines f \<Longrightarrow> whole_lines (drop n f)"
  by (cases "n < length f") (auto simp: whole_lines_def last_drop)

lemma take_line_length: "length (take_line n f) \<le> length f"
  by (induction n f rule: take_line.induct) auto

lemma file_lines_more: "whole_lines f \<Longrightarrow> file_lines (f @ g) = file_lines f @ file_lines g"
proof (induction f rule: file_lines.induct)
  case (1 f)
  show ?case
  proof (cases "f = []")
    case True
    then show ?thesis by (simp add: file_lines.simps [of "[]"] fgets_def)
  next
    case False
    let ?l = "take_line 255 f"
    have l: "take_line 255 (f @ g) = ?l" by (rule take_line_append [OF 1(2) False])
    have "file_lines (drop (length ?l) f @ g) = file_lines (drop (length ?l) f) @ file_lines g"
      using 1(1) [of "(?l, drop (length ?l) f)"] False whole_lines_rest [OF 1(2)] by (simp add: fgets_def)
    then show ?thesis
      using False l take_line_length [of 255 f]
      by (simp add: file_lines.simps [of f] file_lines.simps [of "f @ g"] fgets_def)
  qed
qed

lemma match_loop_more:
  "match_user_pw_loop n w ls uid = Inr k \<Longrightarrow> 0 < k \<Longrightarrow> match_user_pw_loop n w (ls @ ms) uid = Inr k"
  by (induction ls arbitrary: uid) (fastforce simp: Let_def elim!: and_then_InrE split: if_splits)+

lemma find_uid_loop_more:
  "find_uid_loop n ls uid = Inr k \<Longrightarrow> 0 < k \<Longrightarrow> find_uid_loop n (ls @ ms) uid = Inr k"
  by (induction ls arbitrary: uid) (fastforce simp: Let_def elim!: and_then_InrE split: if_splits)+

section \<open>The files over a run\<close>

definition cred_text :: "server \<Rightarrow> char list" where
  "cred_text sv = (case file_of sv CREDENTIAL_FILE_NAME of None \<Rightarrow> [] | Some f \<Rightarrow> f)"

definition files_kept :: "server \<Rightarrow> server \<Rightarrow> bool" where
  "files_kept sv sv' \<longleftrightarrow> (\<exists>extra. cred_text sv' = cred_text sv @ extra \<and> whole_lines extra) \<and>
     sv_file_cnt sv \<le> sv_file_cnt sv' \<and>
     (\<forall>gid n. 0 \<le> n \<longrightarrow> n < sv_file_cnt sv \<longrightarrow> n < 2 ^ 31 \<longrightarrow>
        file_of sv' (file_name gid n) = file_of sv (file_name gid n))"

definition same_files :: "server \<Rightarrow> server \<Rightarrow> bool" where
  "same_files sv sv' \<longleftrightarrow> sv_files sv' = sv_files sv \<and> sv_file_cnt sv' = sv_file_cnt sv"

lemma same_files_kept: "same_files sv sv' \<Longrightarrow> files_kept sv sv'"
  by (simp add: same_files_def files_kept_def cred_text_def file_of_def whole_lines_def)

lemma files_kept_refl: "files_kept sv sv"
  by (simp add: files_kept_def whole_lines_def)

lemma files_kept_trans: "files_kept a b \<Longrightarrow> files_kept b c \<Longrightarrow> files_kept a c"
  unfolding files_kept_def by (fastforce intro: whole_lines_append)

lemma same_files_trans: "same_files a b \<Longrightarrow> same_files b c \<Longrightarrow> same_files a c"
  by (simp add: same_files_def)

lemma same_files_upd [simp]:
  "same_files a (b\<lparr>sv_data := d\<rparr>) = same_files a b" "same_files a (b\<lparr>sv_active := m\<rparr>) = same_files a b"
  "same_files a (b\<lparr>sv_groups := g\<rparr>) = same_files a b" "same_files a (b\<lparr>sv_group_cnt := n\<rparr>) = same_files a b"
  "same_files a (b\<lparr>sv_socks := f\<rparr>) = same_files a b" "same_files a (put_sock k s b) = same_files a b"
  "same_files (a\<lparr>sv_data := d\<rparr>) b = same_files a b" "same_files (a\<lparr>sv_active := m\<rparr>) b = same_files a b"
  "same_files (a\<lparr>sv_groups := g\<rparr>) b = same_files a b" "same_files (a\<lparr>sv_group_cnt := n\<rparr>) b = same_files a b"
  "same_files a a"
  by (simp_all add: same_files_def put_sock_def)

lemma send_on_files: "send_on h fd sv = Inr (r, sv') \<Longrightarrow> same_files sv sv'"
  by (auto simp: send_on_def split: option.splits elim!: and_then_InrE)

lemma reply_files: "reply p h sv = Inr sv' \<Longrightarrow> same_files sv sv'"
  by (auto simp: reply_def dest!: send_on_files elim!: and_then_InrE)

lemma forward_loop_files: "forward_loop ok h us sv = Inr sv' \<Longrightarrow> same_files sv sv'"
proof (induction ok h us sv rule: forward_loop.induct)
  case (2 ok h u us sv)
  then show ?case
    by (fastforce elim!: and_then_InrE split: if_splits dest: send_on_files intro: same_files_trans)
qed simp

lemma forward_to_group_files: "forward_to_group env gid h sv = Inr sv' \<Longrightarrow> same_files sv sv'"
  by (auto simp: forward_to_group_def dest: forward_loop_files elim!: and_then_InrE)

lemmas files_calls = send_on_files reply_files forward_to_group_files

section \<open>What each command does to the files\<close>

lemma file_name_distinct:
  assumes "file_name gid n = file_name gid' m" and "0 \<le> n" and "n < 2 ^ 31" and "0 \<le> m"
  shows "n = m"
proof -
  let ?full = "print_nat (unat gid') @ CHR ''_'' # print_nat (nat m) @ ''.file''"
  have m: "file_name gid' m = take 99 ?full" using assms(4) by (simp add: file_name_def print_int_def)
  note n = file_name_parts [OF assms(2,3), of gid]
  have "length (take 99 ?full) \<le> 19" using n(2) assms(1) m by simp
  then have "length ?full \<le> 99" unfolding length_take by linarith
  then have "take 99 ?full = ?full" by (rule take_all)
  then have eq: "print_nat (unat gid) @ CHR ''_'' # print_nat (nat n) @ ''.file'' = ?full"
    using n(1) m assms(1) by simp
  have "takeWhile (\<lambda>c. c \<noteq> CHR ''_'') (print_nat k @ CHR ''_'' # r) = print_nat k"
    "dropWhile (\<lambda>c. c \<noteq> CHR ''_'') (print_nat k @ CHR ''_'' # r) = CHR ''_'' # r" for k r
    using digits_plain(1) [of k] by (simp_all add: takeWhile_append2 dropWhile_append2 del: takeWhile_append1)
  then have "print_nat (nat n) @ ''.file'' = print_nat (nat m) @ ''.file''" using eq by (metis list.inject)
  then have "scan_int (print_nat (nat n)) = scan_int (print_nat (nat m))" by (simp only: append_same_eq)
  then have "int (nat n) = int (nat m)"
    using scan_int_print_nat [of "[]" "nat n"] scan_int_print_nat [of "[]" "nat m"] by (simp only: append_Nil2) simp
  then show ?thesis using assms(2,4) by simp
qed

lemma set_file_cred:
  "cred_text (set_file CREDENTIAL_FILE_NAME f sv) = (case f of None \<Rightarrow> [] | Some t \<Rightarrow> t)"
  by (simp add: cred_text_def file_of_def set_file_def)

lemma norm_names: "norm_path CREDENTIAL_FILE_NAME = ''credential.txt''" "norm_path ACTIVE_USER_FILE_NAME = ''active_name.txt''"
  by (simp_all add: norm_path_def CREDENTIAL_FILE_NAME_def ACTIVE_USER_FILE_NAME_def)

lemma file_name_other:
  "norm_path (file_name gid n) \<noteq> ''credential.txt''" "norm_path (file_name gid n) \<noteq> ''active_name.txt''"
proof -
  show "norm_path (file_name gid n) \<noteq> ''credential.txt''"
    using file_name_fresh(1,2) [OF refl, of gid n] by simp
  obtain c cs where c: "print_nat (unat gid) = c # cs" using print_nat_ne by (cases "print_nat (unat gid)") auto
  then have "is_digit c" using hd_print_nat [of "unat gid"] by simp
  then have "file_name gid n \<noteq> ''active_name.txt''"
    by (auto simp: file_name_def c numeral_eq_Suc is_digit_def)
  then show "norm_path (file_name gid n) \<noteq> ''active_name.txt''" using file_name_fresh(1) [OF refl, of gid n] by simp
qed

lemma kept_cred:
  assumes "(case f of None \<Rightarrow> [] | Some t \<Rightarrow> t) = cred_text sv @ extra" and "whole_lines extra"
  shows "files_kept sv (set_file CREDENTIAL_FILE_NAME f sv)"
  using assms set_file_cred [of f sv] set_file_other [of CREDENTIAL_FILE_NAME _ f sv] file_name_other(1)
  by (auto simp: files_kept_def norm_names set_file_def) metis

lemma kept_active: "files_kept sv (set_file ACTIVE_USER_FILE_NAME f sv)"
proof -
  have "cred_text (set_file ACTIVE_USER_FILE_NAME f sv) = cred_text sv"
    using set_file_other [of ACTIVE_USER_FILE_NAME CREDENTIAL_FILE_NAME f sv] by (simp add: cred_text_def norm_names)
  then show ?thesis
    using set_file_other [of ACTIVE_USER_FILE_NAME _ f sv] file_name_other(2)
    by (auto simp: files_kept_def norm_names set_file_def whole_lines_def) metis
qed

lemma kept_stored:
  assumes "0 \<le> sv_file_cnt sv" and "sv_file_cnt sv < sv_file_cnt sv1" and "sv_files sv1 = sv_files sv"
  shows "files_kept sv (set_file (file_name gid (sv_file_cnt sv)) f sv1)"
proof -
  let ?f = "file_name gid (sv_file_cnt sv)"
  have same: "file_of sv1 = file_of sv" using assms(3) by (simp add: file_of_def fun_eq_iff)
  have "cred_text (set_file ?f f sv1) = cred_text sv"
    using set_file_other [of ?f CREDENTIAL_FILE_NAME f sv1] file_name_other(1) [of gid "sv_file_cnt sv"]
    by (simp add: cred_text_def norm_names same)
  moreover have "file_of (set_file ?f f sv1) (file_name gid' n) = file_of sv (file_name gid' n)"
    if "0 \<le> n" "n < sv_file_cnt sv" "n < 2 ^ 31" for gid' n
  proof -
    have "file_name gid' n \<noteq> ?f" using file_name_distinct [of gid' n gid "sv_file_cnt sv"] that assms(1) by auto
    then have "norm_path ?f \<noteq> norm_path (file_name gid' n)"
      using file_name_fresh(1) [OF refl, of gid "sv_file_cnt sv"] file_name_fresh(1) [OF refl, of gid' n] by simp
    then show ?thesis using set_file_other same by simp
  qed
  moreover have "sv_file_cnt (set_file ?f f sv1) = sv_file_cnt sv1" by (simp add: set_file_def)
  ultimately show ?thesis using assms(2) by (auto simp: files_kept_def whole_lines_def)
qed

lemma create_user_adds:
  assumes "create_user ok f n w = Inr (r, f')"
  shows "\<exists>extra. (case f' of None \<Rightarrow> [] | Some t \<Rightarrow> t) = (case f of None \<Rightarrow> [] | Some t \<Rightarrow> t) @ extra \<and> whole_lines extra"
  using assms
  by (auto simp: create_user_def Let_def whole_lines_def elim!: and_then_InrE split: if_splits option.splits)

lemma handle_usr_create_files:
  assumes "handle_usr_create env p recv sv = Inr sv'"
  shows "files_kept sv sv'"
proof -
  obtain n w r f send where "create_user (en_fopen env) (file_of sv CREDENTIAL_FILE_NAME) n w = Inr (r, f)"
      "reply p send (set_file CREDENTIAL_FILE_NAME f sv) = Inr sv'"
    using assms by (auto simp: handle_usr_create_def Let_def elim!: and_then_InrE)
  then show ?thesis
    using create_user_adds kept_cred files_kept_trans same_files_kept reply_files unfolding cred_text_def by metis
qed

lemma handle_same_files:
  "handle_usr_login env p recv sv = Inr sv' \<Longrightarrow> same_files sv sv'"
  "handle_create_group env p recv sv = Inr sv' \<Longrightarrow> same_files sv sv'"
  "handle_invite env recv sv = Inr sv' \<Longrightarrow> same_files sv sv'"
  "handle_invite_resp env recv sv = Inr sv' \<Longrightarrow> same_files sv sv'"
  "handle_send_chat env recv sv = Inr sv' \<Longrightarrow> same_files sv sv'"
  "handle_download_file env p recv sv = Inr sv' \<Longrightarrow> same_files sv sv'"
  by (auto simp: handle_usr_login_def handle_create_group_def handle_invite_def handle_invite_resp_def
      handle_send_chat_def handle_download_file_def add_user_to_group_def Let_def
      elim!: and_then_InrE split: if_splits prod.splits list.splits dest!: files_calls)

lemma handle_active_list_files:
  assumes "handle_active_list env p recv sv = Inr sv'"
  shows "files_kept sv sv'"
proof -
  obtain f send where "reply p send (set_file ACTIVE_USER_FILE_NAME f sv) = Inr sv'"
    using assms by (auto simp: handle_active_list_def get_active_users_str_def Let_def elim!: and_then_InrE split: if_splits)
  then show ?thesis using kept_active files_kept_trans same_files_kept reply_files by metis
qed

lemma handle_send_file_files:
  assumes "handle_send_file env p recv sv = Some (Inr sv')" and "0 \<le> sv_file_cnt sv"
  shows "files_kept sv sv'"
proof -
  obtain fd content s' sv1 gid h where
    sv1: "sv1 = (let sv2 = put_sock fd s' (sv\<lparr>sv_file_cnt := sv_file_cnt sv + 1\<rparr>) in
        case content of None \<Rightarrow> sv2 | Some _ \<Rightarrow> set_file (file_name (hdr_gid recv) (sv_file_cnt sv)) content sv2)"
    and f: "forward_to_group env gid h sv1 = Inr sv'"
    using assms(1)
    by (auto simp: handle_send_file_def Let_def split: sum.splits prod.splits elim!: and_then_InrE)
  let ?sv2 = "put_sock fd s' (sv\<lparr>sv_file_cnt := sv_file_cnt sv + 1\<rparr>)"
  have "files_kept sv ?sv2"
    by (simp add: files_kept_def put_sock_def cred_text_def file_of_def whole_lines_def)
  moreover have "files_kept sv (set_file (file_name (hdr_gid recv) (sv_file_cnt sv)) content ?sv2)"
    by (rule kept_stored [OF assms(2)]) (simp_all add: put_sock_def)
  ultimately have "files_kept sv sv1" by (auto simp: sv1 Let_def split: option.split)
  then show ?thesis using files_kept_trans same_files_kept forward_to_group_files [OF f] by blast
qed

lemma handle_files:
  assumes "handle env p recv sv = Some (Inr sv')" and "0 \<le> sv_file_cnt sv"
  shows "files_kept sv sv'"
proof -
  have all: "handle_usr_create env p recv sv = Inr sv' \<Longrightarrow> ?thesis" "handle_usr_login env p recv sv = Inr sv' \<Longrightarrow> ?thesis"
    "handle_create_group env p recv sv = Inr sv' \<Longrightarrow> ?thesis" "handle_active_list env p recv sv = Inr sv' \<Longrightarrow> ?thesis"
    "handle_download_file env p recv sv = Inr sv' \<Longrightarrow> ?thesis" "handle_invite_resp env recv sv = Inr sv' \<Longrightarrow> ?thesis"
    "handle_invite env recv sv = Inr sv' \<Longrightarrow> ?thesis" "handle_send_chat env recv sv = Inr sv' \<Longrightarrow> ?thesis"
    "handle_send_file env p recv sv = Some (Inr sv') \<Longrightarrow> ?thesis"
    using handle_usr_create_files handle_active_list_files handle_send_file_files [OF _ assms(2)]
      handle_same_files [THEN same_files_kept] by simp_all
  consider "hdr_cmd recv = USR_CREATE" | "hdr_cmd recv = USR_LOGIN" | "hdr_cmd recv = CREATE_GROUP"
    | "hdr_cmd recv = INVITE" | "hdr_cmd recv = INVITE_RESP" | "hdr_cmd recv = SEND_CHAT"
    | "hdr_cmd recv = ACTIVE_LIST" | "hdr_cmd recv = SEND_FILE" | "hdr_cmd recv = DOWNLOAD_FILE"
    | "sv' = sv" using assms(1) by (auto simp: handle_def split: if_splits)
  then show ?thesis using assms(1) by cases (simp_all add: handle_def all files_kept_refl)
qed

lemma serve_files:
  assumes "serve env p sv = Some (Inr sv')" and "0 \<le> sv_file_cnt sv"
  shows "files_kept sv sv'"
proof -
  obtain c where c: "sv_data sv p = Some c"
    using assms(1) by (auto simp: serve_def load_client_def split: option.splits)
  obtain recv s where r: "read_main_header (en_malloc env) (en_stack env) (en_junk env) (sock_of sv (cl_connfd c)) =
      Inr (recv, s)"
    using assms(1) c by (auto simp: serve_def load_client_def split: sum.splits elim!: and_then_InrE)
  let ?sv = "put_sock (cl_connfd c) s sv"
  have same: "same_files sv ?sv" by simp
  show ?thesis
  proof (cases recv)
    case None
    then have "exit_thread p ?sv = Inr sv'" using assms(1) c r by (simp add: serve_def load_client_def)
    then have "same_files ?sv sv'"
      by (auto simp: exit_thread_def Let_def elim!: and_then_InrE split: if_splits)
    then show ?thesis using same same_files_trans same_files_kept by blast
  next
    case (Some h)
    then have "handle env p h ?sv = Some (Inr sv')" using assms(1) c r by (simp add: serve_def load_client_def)
    from handle_files [OF this] have "files_kept ?sv sv'" using assms(2) by (simp add: put_sock_def)
    then show ?thesis using same same_files_kept files_kept_trans by blast
  qed
qed

lemma accept_turn_files: "accept_ok ac sv \<Longrightarrow> accept_turn ac sv = Inr sv' \<Longrightarrow> same_files sv sv'"
  by (erule (1) accept_turn_cases) (simp_all add: accept_client_def)

section \<open>Runs\<close>

interpretation records: ordered_system server_step "\<lambda>sv. 0 \<le> sv_file_cnt sv" files_kept
proof unfold_locales
  show "0 \<le> sv_file_cnt sv' \<and> files_kept sv sv'" if "0 \<le> sv_file_cnt sv" "server_step sv sv'" for sv sv'
  proof -
    have "files_kept sv sv'"
      using that(2) by cases (blast intro: same_files_kept accept_turn_files serve_files [OF _ that(1)])+
    then show ?thesis using that(1) by (auto simp: files_kept_def)
  qed
qed (rule files_kept_refl, erule (1) files_kept_trans)

lemma reachable_files: "reachable sv \<Longrightarrow> 0 \<le> sv_file_cnt sv"
proof -
  assume "reachable sv"
  then obtain sc argv files fd sv0 where start: "server_main sc argv files = Running (fd, Some sv0)"
      and run: "server_step\<^sup>*\<^sup>* sv0 sv"
    by (auto simp: reachable_run)
  have "sv_file_cnt sv0 = 1" using start by (auto simp: server_main_running init_server_def dest!: sym [of "Some _"])
  then show ?thesis using records.run_inv [OF run] by simp
qed

lemma find_kept:
  assumes "files_kept sv sv'" and "whole_lines (cred_text sv)"
  shows "whole_lines (cred_text sv')"
    and "find_uid (file_of sv CREDENTIAL_FILE_NAME) n = Inr k \<Longrightarrow> 0 < k \<Longrightarrow>
      find_uid (file_of sv' CREDENTIAL_FILE_NAME) n = Inr k"
    and "match_user_pw (file_of sv CREDENTIAL_FILE_NAME) n w = Inr k \<Longrightarrow> 0 < k \<Longrightarrow>
      match_user_pw (file_of sv' CREDENTIAL_FILE_NAME) n w = Inr k"
proof -
  obtain extra where extra: "cred_text sv' = cred_text sv @ extra" "whole_lines extra"
    using assms(1) by (auto simp: files_kept_def)
  show "whole_lines (cred_text sv')" using extra assms(2) by (simp add: whole_lines_append)
  have lines: "file_lines (cred_text sv') = file_lines (cred_text sv) @ file_lines extra"
    using file_lines_more [OF assms(2)] extra(1) by simp
  have none: "file_lines [] = []" by (simp add: file_lines.simps [of "[]"] fgets_def)
  show "find_uid (file_of sv' CREDENTIAL_FILE_NAME) n = Inr k"
    if "find_uid (file_of sv CREDENTIAL_FILE_NAME) n = Inr k" "0 < k"
    using that find_uid_loop_more [of n _ 0 k "file_lines extra"] lines none
    by (auto simp: find_uid_def cred_text_def split: option.splits)
  show "match_user_pw (file_of sv' CREDENTIAL_FILE_NAME) n w = Inr k"
    if "match_user_pw (file_of sv CREDENTIAL_FILE_NAME) n w = Inr k" "0 < k"
    using that match_loop_more [of n w _ 0 k "file_lines extra"] lines none
    by (auto simp: match_user_pw_def cred_text_def split: option.splits)
qed

section \<open>Registration\<close>

lemma set_file_same: "set_file f (file_of sv f) sv = sv"
  by (simp add: set_file_def file_of_def fun_upd_triv)

lemma usr_create_eq:
  assumes "connected sv p c" and "en_fopen env" and "\<And>k. en_malloc env k"
    and "cred_rep (file_of sv CREDENTIAL_FILE_NAME) us" and "length us < MAX_USERS"
    and "user_ok (n, w)" and "CHR '':'' \<notin> set n"
  shows "handle_usr_create env p (login_request USR_CREATE n w) sv =
    (if \<exists>u \<in> set us. prefix (fst u) n
     then Inr (sv\<lparr>sv_socks := sent_on sv c (answer USR_CREATE 0 0 ERR_USERNAME_EXIST)\<rparr>)
     else Inr ((set_file CREDENTIAL_FILE_NAME (Some (cred_file (us @ [(n, w)]))) sv)
       \<lparr>sv_socks := sent_on sv c (answer USR_CREATE 0 (of_nat (length us + 1)) 0)\<rparr>))"
proof -
  note U = user_okD [OF assms(6)]
  have len: "length n < MAX_CHAR_USERID" "length w < MAX_CHAR_USERPASS" using assms(6) by (auto simp: user_ok_def)
  have "parse_username_pw zero_name zero_pw (hdr_payload (login_request USR_CREATE n w))
      (sint (hdr_len (login_request USR_CREATE n w))) = Inr (0, name_buf n, pw_buf w)"
    using parse_login_request [of n w USR_CREATE] U len assms(7)
    by (simp add: plain_seps MAX_CHAR_USERID_def MAX_CHAR_USERPASS_def)
  moreover note c_str_bufs [OF assms(6)]
  moreover have "hdr_cmd (login_request USR_CREATE n w) = USR_CREATE" by (simp add: login_request_def)
  moreover note create = create_user_cred [OF assms(4) c_str_bufs [OF assms(6)]]
  ultimately have run: "handle_usr_create env p (login_request USR_CREATE n w) sv =
    (if \<exists>u \<in> set us. prefix (fst u) n then reply p (answer USR_CREATE 0 0 ERR_USERNAME_EXIST) sv
     else let sv1 = set_file CREDENTIAL_FILE_NAME (Some (cred_file (us @ [(n, w)]))) sv
       in and_then (match_user_pw (file_of sv1 CREDENTIAL_FILE_NAME) (name_buf n) (pw_buf w))
         (\<lambda>k. reply p (answer USR_CREATE 0 (of_int k) 0) sv1))"
    using assms(2) by (simp add: handle_usr_create_def new_packet_one [OF assms(3)] Let_def set_file_same and_then_assoc)
  show ?thesis
  proof (cases "\<exists>u \<in> set us. prefix (fst u) n")
    case True
    then show ?thesis using run reply_connected [OF answer_sendable assms(1)] by simp
  next
    case False
    let ?sv1 = "set_file CREDENTIAL_FILE_NAME (Some (cred_file (us @ [(n, w)]))) sv"
    have "create_user True (file_of sv CREDENTIAL_FILE_NAME) (name_buf n) (pw_buf w) =
        Inr (int (length us) + 1, Some (cred_file (us @ [(n, w)])))" using create False by simp
    from create_user_registers [OF assms(4,6,5) this] False
    have "match_user_pw (file_of ?sv1 CREDENTIAL_FILE_NAME) (name_buf n) (pw_buf w) = Inr (int (length us + 1))"
      by (simp add: file_of_def set_file_def ac_simps)
    moreover have "connected ?sv1 p c" using assms(1) by (simp add: connected_def set_file_def)
    from reply_connected [OF answer_sendable this]
    have "reply p (answer USR_CREATE 0 (of_nat (length us + 1)) 0) ?sv1 =
      Inr (?sv1\<lparr>sv_socks := sent_on sv c (answer USR_CREATE 0 (of_nat (length us + 1)) 0)\<rparr>)"
      using sent_on_same [of ?sv1 sv c c] by (simp add: set_file_def)
    ultimately show ?thesis using run False by (simp only: Let_def if_False and_then_Inr of_int_of_nat_eq)
  qed
qed

lemma whole_cred_file: "whole_lines (cred_file us)"
proof -
  have "whole_lines (concat (cred_lines i us))" for i
  proof (induction us arbitrary: i)
    case (Cons u us)
    have "whole_lines (cred_line i u)" by (simp add: whole_lines_def cred_line_def)
    then show ?case using Cons by (simp add: whole_lines_append)
  qed (simp add: whole_lines_def)
  then show ?thesis by (simp add: cred_file_def)
qed

section \<open>Properties\<close>

text \<open>Who can log in can always log in. From any reachable state whose credential file consists of
  whole lines, over any run of the server, whatever its clients send and whichever calls fail: a name
  and password that match user \<open>k\<close> match the same user ever after, and the file still consists of whole
  lines.\<close>

lemma logins_persist:
  assumes "reachable sv" and "server_step\<^sup>*\<^sup>* sv sv'" and "whole_lines (cred_text sv)"
    and "match_user_pw (file_of sv CREDENTIAL_FILE_NAME) username password = Inr k" and "0 < k"
  shows "match_user_pw (file_of sv' CREDENTIAL_FILE_NAME) username password = Inr k \<and>
    whole_lines (cred_text sv')"
  using find_kept(1,3) [OF conjunct2 [OF records.run_inv [OF assms(2) reachable_files [OF assms(1)]]] assms(3)]
    assms(4,5) by blast

text \<open>A connection that asks to register the user \<open>cy\<close>.\<close>

definition registering :: server where
  "registering = accept_client 7 4 (connection []) zero_name (init_server new_map sample_files)"

lemma registering_facts:
  "reachable registering" "connected registering 7 \<lparr>cl_connfd = 4, cl_message_queue = zero_queue, cl_uid = -1,
    cl_username = zero_name, cl_file_id = 0\<rparr>"
  "file_of registering CREDENTIAL_FILE_NAME = Some (cred_file sample_users)" "0 \<le> sv_file_cnt registering"
proof -
  have "server_step (init_server new_map sample_files) registering" unfolding registering_def
    by (rule step_accept(3)) (simp_all add: init_server_def zero_name_def)
  then show "reachable registering" by (rule reachable.step [OF reachable_new_map])
qed (simp_all add: registering_def accept_client_def init_server_def connected_def connection_def file_of_def
    sample_files_def norm_path_def CREDENTIAL_FILE_NAME_def)

text \<open>C15: Registration. Over a credential file of any users, a request to register a name is refused with
  \<open>ERR_USERNAME_EXIST\<close> and changes no file if a registered name is the name or a prefix of it;
  otherwise the user is appended, the answer carries the number of the new user, and in all later
  runs of the server the name and password log in under this number.\<close>

theorem registration_lasts:
  assumes "connected sv p c" and "en_fopen env" and "\<And>k. en_malloc env k"
    and "cred_rep (file_of sv CREDENTIAL_FILE_NAME) us" and "length us < MAX_USERS"
    and "user_ok (n, w)" and "CHR '':'' \<notin> set n" and "0 \<le> sv_file_cnt sv"
  shows "\<exists>sv1. handle env p (login_request USR_CREATE n w) sv = Some (Inr sv1) \<and>
    (if \<exists>u \<in> set us. prefix (fst u) n
     then sv1 = sv\<lparr>sv_socks := sent_on sv c (answer USR_CREATE 0 0 ERR_USERNAME_EXIST)\<rparr>
     else sv_socks sv1 = sent_on sv c (answer USR_CREATE 0 (of_nat (length us + 1)) 0) \<and>
       cred_rep (file_of sv1 CREDENTIAL_FILE_NAME) (us @ [(n, w)]) \<and>
       (\<forall>sv2. server_step\<^sup>*\<^sup>* sv1 sv2 \<longrightarrow>
         match_user_pw (file_of sv2 CREDENTIAL_FILE_NAME) (name_buf n) (pw_buf w) = Inr (int (length us) + 1)))"
proof -
  have create: "handle env p (login_request USR_CREATE n w) sv = Some (handle_usr_create env p (login_request USR_CREATE n w) sv)"
    by (simp add: handle_def login_request_def)
  note eq = usr_create_eq [OF assms(1-7)]
  show ?thesis
  proof (cases "\<exists>u \<in> set us. prefix (fst u) n")
    case True
    then show ?thesis using create eq by simp
  next
    case False
    let ?sv = "(set_file CREDENTIAL_FILE_NAME (Some (cred_file (us @ [(n, w)]))) sv)
       \<lparr>sv_socks := sent_on sv c (answer USR_CREATE 0 (of_nat (length us + 1)) 0)\<rparr>"
    have f: "file_of ?sv CREDENTIAL_FILE_NAME = Some (cred_file (us @ [(n, w)]))" "0 \<le> sv_file_cnt ?sv"
      using assms(8) by (simp_all add: file_of_def set_file_def)
    have "create_user True (file_of sv CREDENTIAL_FILE_NAME) (name_buf n) (pw_buf w) =
        Inr (int (length us) + 1, Some (cred_file (us @ [(n, w)])))"
      using create_user_cred [OF assms(4) c_str_bufs [OF assms(6)]] False by simp
    from create_user_registers [OF assms(4,6,5) this] False
    have new: "cred_rep (file_of ?sv CREDENTIAL_FILE_NAME) (us @ [(n, w)])"
      "match_user_pw (file_of ?sv CREDENTIAL_FILE_NAME) (name_buf n) (pw_buf w) = Inr (int (length us) + 1)"
      by (simp_all add: file_of_def set_file_def)
    have "match_user_pw (file_of sv2 CREDENTIAL_FILE_NAME) (name_buf n) (pw_buf w) = Inr (int (length us) + 1)"
      if "server_step\<^sup>*\<^sup>* ?sv sv2" for sv2
      by (rule find_kept(3) [OF conjunct2 [OF records.run_inv [OF that f(2)]] _ new(2)])
        (simp_all add: cred_text_def file_of_def set_file_def whole_cred_file)
    then show ?thesis using False create eq new(1) by (intro exI [of _ ?sv]) simp
  qed
qed

theorem registration_lasts_witness:
  "\<exists>sv1 c. handle sample_env 7 (login_request USR_CREATE ''cy'' ''z'') registering = Some (Inr sv1) \<and>
    (if \<exists>u \<in> set sample_users. prefix (fst u) ''cy''
     then sv1 = registering\<lparr>sv_socks := sent_on registering c (answer USR_CREATE 0 0 ERR_USERNAME_EXIST)\<rparr>
     else sv_socks sv1 = sent_on registering c (answer USR_CREATE 0 (of_nat (length sample_users + 1)) 0) \<and>
       cred_rep (file_of sv1 CREDENTIAL_FILE_NAME) (sample_users @ [(''cy'', ''z'')]) \<and>
       (\<forall>sv2. server_step\<^sup>*\<^sup>* sv1 sv2 \<longrightarrow>
         match_user_pw (file_of sv2 CREDENTIAL_FILE_NAME) (name_buf ''cy'') (pw_buf ''z'') =
           Inr (int (length sample_users) + 1)))"
proof -
  have "cred_rep (file_of registering CREDENTIAL_FILE_NAME) sample_users"
    using sample_rep by (simp add: registering_facts(3))
  from registration_lasts [OF registering_facts(2) _ _ this _ sample_ok(1) _ registering_facts(4), of sample_env]
  show ?thesis by (simp add: sample_env_def sample_users_def MAX_USERS_def) blast
qed

text \<open>C33: What was stored for a group stays. From any state with a counter that is not negative, which
  all reachable states have, over any run of the server, one turn after the other (threads that interrupt each other are in theory
  \<open>File_Races\<close>): the counter only grows, and no file that was
  stored under a number below it is written again, whatever files are sent later to which group and
  under which name.\<close>

theorem stored_files_stay:
  assumes "0 \<le> sv_file_cnt sv" and "server_step\<^sup>*\<^sup>* sv sv'"
    and "0 \<le> m" and "m < sv_file_cnt sv" and "m < 2 ^ 31"
  shows "file_of sv' (file_name gid m) = file_of sv (file_name gid m) \<and> sv_file_cnt sv \<le> sv_file_cnt sv'"
  using records.run_inv [OF assms(2,1)] assms(3-5) by (auto simp: files_kept_def)

definition storing :: server where
  "storing = registering\<lparr>sv_file_cnt := 5, sv_files := [''0_3.file'' \<mapsto> ''hi'']\<rparr>"

theorem stored_files_stay_witness:
  "file_of (accept_client 8 5 (connection []) zero_name storing) (file_name 0 3) = file_of storing (file_name 0 3) \<and>
    sv_file_cnt storing \<le> sv_file_cnt (accept_client 8 5 (connection []) zero_name storing)"
proof (rule stored_files_stay)
  have "server_step storing (accept_client 8 5 (connection []) zero_name storing)"
    by (rule step_accept(3)) (simp_all add: storing_def registering_def accept_client_def init_server_def zero_name_def)
  then show "server_step\<^sup>*\<^sup>* storing (accept_client 8 5 (connection []) zero_name storing)" by (rule r_into_rtranclp)
qed (simp_all add: storing_def)

end
