(* ===== verification/Server_Service.thy ===== *)
theory Server_Service
  imports Server_Files "HOL-Library.Multiset"
begin

text \<open>
  The server as a service: accounts, sessions, who is online and the members of the groups, and what
  each connection, each packet and each end of a connection does to them. Every run of the server is
  such a run, event by event, and who is online or in a group is so because of a packet.
\<close>

section \<open>The entries of a table\<close>

text \<open>The slots in use, with the pointers they hold; several slots may hold one key.\<close>

definition hm_slots :: "'v hashmap_map \<Rightarrow> (u64 \<times> 'v option) multiset" where
  "hm_slots m = mset (map (\<lambda>e. (el_key e, el_data e)) (filter el_in_use (hm_data m)))"

definition hm_entries :: "'v hashmap_map \<Rightarrow> (u64 \<times> 'v) set" where
  "hm_entries m = {(k, v). (k, Some v) \<in># hm_slots m}"

text \<open>
  What a table with room for \<open>r\<close> more calls is after a put and after a remove: the put adds a slot or
  takes one of the same key, and without room does nothing; the remove frees one slot of the key, if
  there is one.
\<close>

definition entered ::
    "u64 \<Rightarrow> 'v option \<Rightarrow> (u64 \<times> 'v option) multiset \<times> nat \<Rightarrow> (u64 \<times> 'v option) multiset \<times> nat \<Rightarrow> bool" where
  "entered k v t t' \<longleftrightarrow>
     (if snd t = 0 then t' = t
      else snd t' = snd t - 1 \<and> (fst t' = add_mset (k, v) (fst t) \<or>
        (\<exists>d. (k, d) \<in># fst t \<and> fst t' = add_mset (k, v) (fst t - {#(k, d)#}))))"

definition struck ::
    "u64 \<Rightarrow> (u64 \<times> 'v option) multiset \<times> nat \<Rightarrow> (u64 \<times> 'v option) multiset \<times> nat \<Rightarrow> bool" where
  "struck k t t' \<longleftrightarrow>
     (if \<exists>d. (k, d) \<in># fst t
      then snd t' = Suc (snd t) \<and> (\<exists>d. (k, d) \<in># fst t \<and> fst t' = fst t - {#(k, d)#})
      else t' = t)"

lemma mset_filter_update:
  assumes "i < length xs"
  shows "mset (map f (filter P (xs[i := y]))) =
    (if P y then {#f y#} else {#}) + (mset (map f (filter P xs)) - (if P (xs ! i) then {#f (xs ! i)#} else {#}))"
proof -
  have "xs ! i \<in># mset xs" using assms by simp
  then obtain M where M: "mset xs = add_mset (xs ! i) M" by (metis insert_DiffM)
  then have "mset (xs[i := y]) = add_mset y M" using assms by (simp add: mset_update)
  with M show ?thesis by (simp add: mset_filter)
qed

lemma slot_in_slots:
  assumes "hm_inv m"
  shows "(k, d) \<in># hm_slots m \<longleftrightarrow> (\<exists>i < hm_table_size m. slot_holds m k i \<and> el_data (hm_data m ! i) = d)"
  using hm_invD(3) [OF assms] by (auto simp: hm_slots_def slot_holds_def in_set_conv_nth)

lemma slots_put:
  assumes inv: "hm_inv m" and put: "hashmap_put ok m k v = Inr (r, m')"
  shows "hm_inv m' \<and> entered k v (hm_slots m, hm_room m) (hm_slots m', hm_room m')"
proof (cases "0 < hm_room m")
  case True
  then have r: "hm_size m < int (hm_table_size m)" using hm_room_simps(1) [OF inv] by simp
  obtain i where i: "find (slot_usable m k) (walk_of m k) = Some i" by (rule usable_slot_ex [OF inv r])
  then have lt: "i < hm_table_size m" and us: "slot_usable m k i"
    using find_SomeD [OF i] set_walk_of [OF inv, of k] by auto
  have m': "m' = put_slot m i k v" using put hashmap_put_room [OF inv r i] by simp
  have len: "i < length (hm_data m)" using lt hm_invD(3) [OF inv] by simp
  have "hm_slots m' = add_mset (k, v) (hm_slots m -
      (if el_in_use (hm_data m ! i) then {#(el_key (hm_data m ! i), el_data (hm_data m ! i))#} else {#}))"
    unfolding hm_slots_def m' put_slot_def using mset_filter_update [OF len, of "\<lambda>e. (el_key e, el_data e)" el_in_use]
    by simp
  moreover have "hm_room m' = hm_room m - 1" using r by (simp add: m' hm_room_def put_slot_def)
  moreover have "(k, el_data (hm_data m ! i)) \<in># hm_slots m \<and> el_key (hm_data m ! i) = k" if "el_in_use (hm_data m ! i)"
    using us that lt by (auto simp: slot_in_slots [OF inv] slot_usable_def slot_holds_def)
  ultimately show ?thesis using True hm_inv_put_slot [OF inv r lt] m' by (auto simp: entered_def)
next
  case False
  then have "r = MAP_OMEM \<and> m' = m"
    using put by (cases rule: hashmap_put_cases [OF inv, of ok k v]) auto
  then show ?thesis using inv False by (simp add: entered_def)
qed

lemma slots_remove:
  assumes inv: "hm_inv m" and rm: "hashmap_remove m k = Inr (r, m')"
  shows "struck k (hm_slots m, hm_room m) (hm_slots m', hm_room m')"
proof (cases "find (slot_holds m k) (walk_of m k)")
  case None
  then have "(k, d) \<notin># hm_slots m" for d
    using set_walk_of [OF inv, of k] by (auto simp: slot_in_slots [OF inv] find_None_iff)
  moreover have "m' = m" using rm hashmap_remove_eq [OF inv, of k] None by simp
  ultimately show ?thesis by (simp add: struck_def)
next
  case (Some i)
  have holds: "slot_holds m k i" and lt: "i < hm_table_size m"
    using find_SomeD [OF Some] set_walk_of [OF inv, of k] by auto
  have m': "m' = clear_slot m i" using rm hashmap_remove_eq [OF inv, of k] Some by simp
  have len: "i < length (hm_data m)" using lt hm_invD(3) [OF inv] by simp
  have "hm_slots m' = hm_slots m - {#(k, el_data (hm_data m ! i))#}"
    unfolding hm_slots_def m' clear_slot_def using mset_filter_update [OF len, of "\<lambda>e. (el_key e, el_data e)" el_in_use] holds
    by (simp add: slot_holds_def empty_element_def)
  moreover have "(k, el_data (hm_data m ! i)) \<in># hm_slots m" using holds lt by (auto simp: slot_in_slots [OF inv])
  moreover have "hm_room m' = Suc (hm_room m)"
    using hm_invD(6) [OF inv] by (simp add: m' hm_room_def clear_slot_def)
  ultimately show ?thesis by (auto simp: struck_def)
qed

lemma entries_put:
  assumes "hm_inv m" and "hashmap_put ok m k (Some v) = Inr (r, m')"
  shows "hm_entries m' \<subseteq> insert (k, v) (hm_entries m)"
  using slots_put [OF assms] by (auto simp: entered_def hm_entries_def split: if_splits dest: in_diffD)

lemma entries_remove:
  assumes "hm_inv m" and "hashmap_remove m k = Inr (r, m')"
  shows "hm_entries m' \<subseteq> hm_entries m"
  using slots_remove [OF assms] by (auto simp: struck_def hm_entries_def split: if_splits dest: in_diffD)

lemma lookup_entry:
  assumes "hm_inv m" and "hm_lookup m k = Some (Some v)"
  shows "(k, v) \<in> hm_entries m"
proof -
  obtain i where i: "find (slot_holds m k) (walk_of m k) = Some i" "el_data (hm_data m ! i) = Some v"
    using assms(2) by (auto simp: hm_lookup_def)
  then show ?thesis
    using find_SomeD [OF i(1)] set_walk_of [OF assms(1), of k] by (auto simp: hm_entries_def slot_in_slots [OF assms(1)])
qed

lemma slots_new: "hashmap_new a b = Some m \<Longrightarrow> hm_slots m = {#}"
  by (auto simp: hashmap_new_def hm_slots_def empty_element_def split: if_splits)

lemma entries_new: "hashmap_new a b = Some m \<Longrightarrow> hm_entries m = {}"
  by (simp add: hm_entries_def slots_new)

section \<open>The service\<close>

record service =
  sr_accounts :: "char list"
  sr_sessions :: "nat \<rightharpoonup> u16"
  sr_online :: "(u64 \<times> nat option) multiset"
  sr_room :: nat
  sr_members :: "nat \<Rightarrow> u16 set"

text \<open>
  What happens to the server: a connection, with what the calls of its turn return, and a thread that
  reads a packet, or nothing because the connection has ended.
\<close>

datatype service_event = Connect accept_calls | Read env nat "mainhdr option"

definition served :: "accept_calls \<Rightarrow> bool" where
  "served ac \<longleftrightarrow> ac_cond ac = 0 \<and> ac_mutex ac = 0 \<and> ac_create ac = 0"

text \<open>The line that a registration adds to the accounts, and the user of a login.\<close>

definition registration :: "char list \<Rightarrow> mainhdr \<Rightarrow> string option" where
  "registration accounts h =
     (case parse_username_pw zero_name zero_pw (hdr_payload h) (sint (hdr_len h)) of
        Inl _ \<Rightarrow> None
      | Inr (_, n, w) \<Rightarrow>
          (case (create_user_loop n (file_lines accounts) 1, c_str n, c_str w) of
             (Inr (False, k), Inr name, Inr password) \<Rightarrow>
               Some (print_int k @ space # name @ space # password @ [newline])
           | _ \<Rightarrow> None))"

definition user_of :: "char list \<Rightarrow> mainhdr \<Rightarrow> int option" where
  "user_of accounts h =
     (case parse_username_pw zero_name zero_pw (hdr_payload h) (sint (hdr_len h)) of
        Inl _ \<Rightarrow> None
      | Inr (_, n, w) \<Rightarrow>
          (case match_user_pw (Some accounts) n w of
             Inl _ \<Rightarrow> None
           | Inr k \<Rightarrow> if 0 < k then Some k else None))"

definition accepts_invite :: "env \<Rightarrow> mainhdr \<Rightarrow> (nat \<Rightarrow> u16 set) \<Rightarrow> bool" where
  "accepts_invite env h members \<longleftrightarrow> hdr_uid h \<noteq> 0 \<and> unat (hdr_len h) < MAX_CHAR_USERID \<and>
     members (unat (hdr_gid h)) \<noteq> {} \<and> hdr_uid h \<notin> members (unat (hdr_gid h)) \<and>
     hd (hdr_payload h) = CHR ''a'' \<and> en_malloc env NODE_SIZE"

text \<open>Whether a packet changes anything.\<close>

definition effective :: "env \<Rightarrow> mainhdr \<Rightarrow> service \<Rightarrow> bool" where
  "effective env h a \<longleftrightarrow>
     (if hdr_cmd h = USR_CREATE then en_fopen env \<and> registration (sr_accounts a) h \<noteq> None
      else if hdr_cmd h = USR_LOGIN then user_of (sr_accounts a) h \<noteq> None
      else if hdr_cmd h = CREATE_GROUP then hdr_uid h \<noteq> 0
      else if hdr_cmd h = INVITE_RESP then accepts_invite env h (sr_members a)
      else False)"

text \<open>
  A new session belongs to user -1. Where it ends, one entry of its user goes; user 0 has none to lose.
  When the table of active users has no room, a login is answered but not entered. A new group is the
  first one without members.
\<close>

inductive service_step :: "service_event \<Rightarrow> service \<Rightarrow> service \<Rightarrow> bool" where
  arrive: "served ac \<Longrightarrow> ac_malloc ac = Some p \<Longrightarrow> sr_sessions a p = None \<Longrightarrow>
    service_step (Connect ac) a (a\<lparr>sr_sessions := (sr_sessions a)(p \<mapsto> -1)\<rparr>)"
| unserved: "\<not> served ac \<Longrightarrow> service_step (Connect ac) a a"
| leave: "sr_sessions a p = Some u \<Longrightarrow> u \<noteq> 0 \<Longrightarrow> struck (ucast u) (sr_online a, sr_room a) (on, r) \<Longrightarrow>
    service_step (Read env p None) a (a\<lparr>sr_sessions := (sr_sessions a)(p := None), sr_online := on, sr_room := r\<rparr>)"
| leave_none: "sr_sessions a p = Some 0 \<Longrightarrow>
    service_step (Read env p None) a (a\<lparr>sr_sessions := (sr_sessions a)(p := None)\<rparr>)"
| register: "sr_sessions a p \<noteq> None \<Longrightarrow> hdr_cmd h = USR_CREATE \<Longrightarrow> en_fopen env \<Longrightarrow>
    registration (sr_accounts a) h = Some line \<Longrightarrow>
    service_step (Read env p (Some h)) a (a\<lparr>sr_accounts := sr_accounts a @ line\<rparr>)"
| login: "sr_sessions a p \<noteq> None \<Longrightarrow> hdr_cmd h = USR_LOGIN \<Longrightarrow> user_of (sr_accounts a) h = Some k \<Longrightarrow>
    entered (of_int k) (Some p) (sr_online a, sr_room a) (on, r) \<Longrightarrow>
    service_step (Read env p (Some h)) a
      (a\<lparr>sr_sessions := (sr_sessions a)(p \<mapsto> of_int k), sr_online := on, sr_room := r\<rparr>)"
| found: "sr_sessions a p \<noteq> None \<Longrightarrow> hdr_cmd h = CREATE_GROUP \<Longrightarrow> hdr_uid h \<noteq> 0 \<Longrightarrow>
    i < GROUP_NUM_MAX \<Longrightarrow> sr_members a i = {} \<Longrightarrow> \<forall>j < i. sr_members a j \<noteq> {} \<Longrightarrow>
    service_step (Read env p (Some h)) a (a\<lparr>sr_members := (sr_members a)(i := {hdr_uid h})\<rparr>)"
| join: "sr_sessions a p \<noteq> None \<Longrightarrow> hdr_cmd h = INVITE_RESP \<Longrightarrow> accepts_invite env h (sr_members a) \<Longrightarrow>
    i = unat (hdr_gid h) \<Longrightarrow>
    service_step (Read env p (Some h)) a (a\<lparr>sr_members := (sr_members a)(i := insert (hdr_uid h) (sr_members a i))\<rparr>)"
| nothing: "sr_sessions a p \<noteq> None \<Longrightarrow> \<not> effective env h a \<Longrightarrow> service_step (Read env p (Some h)) a a"

text \<open>Only which of several entries of one user is taken is left open.\<close>

lemma entered_room: "entered k v t t' \<Longrightarrow> entered k v t t'' \<Longrightarrow> snd t' = snd t''"
  by (auto simp: entered_def split: if_splits)

lemma struck_room: "struck k t t' \<Longrightarrow> struck k t t'' \<Longrightarrow> snd t' = snd t''"
  by (auto simp: struck_def split: if_splits)

lemma service_step_determined:
  assumes "service_step ev a b" and "service_step ev a c"
  shows "sr_accounts b = sr_accounts c \<and> sr_sessions b = sr_sessions c \<and> sr_room b = sr_room c \<and>
    sr_members b = sr_members c"
  using assms(1)
proof cases
  case F: (found p h i env)
  from assms(2) show ?thesis
  proof (cases rule: service_step.cases)
    case G: (found q g j env')
    have "i = j" using F(7,8) G(7,8) by (metis linorder_neqE_nat)
    then show ?thesis using F(1,2) G(1,2) by simp
  qed (use F in \<open>simp_all add: effective_def\<close>)
qed (use assms(2) in \<open>cases rule: service_step.cases; auto simp: effective_def dest: entered_room struck_room\<close>)+

definition members_of :: "u16 list list \<Rightarrow> nat \<Rightarrow> u16 set" where
  "members_of gs i = (if i < length gs then set (gs ! i) else {})"

lemma members_of_upd: "i < length gs \<Longrightarrow> members_of (gs[i := g]) = (members_of gs)(i := set g)"
  by (auto simp: members_of_def fun_eq_iff nth_list_update)

definition service_of :: "server \<Rightarrow> service" where
  "service_of sv = \<lparr>sr_accounts = cred_text sv, sr_sessions = (\<lambda>p. map_option cl_uid (sv_data sv p)),
     sr_online = hm_slots (sv_active sv), sr_room = hm_room (sv_active sv),
     sr_members = members_of (sv_groups sv)\<rparr>"

text \<open>The steps of the server with what happens in them.\<close>

inductive server_does :: "service_event \<Rightarrow> server \<Rightarrow> server \<Rightarrow> bool" where
  connect: "accept_ok ac sv \<Longrightarrow> accept_turn ac sv = Inr sv' \<Longrightarrow> server_does (Connect ac) sv sv'"
| read: "sv_data sv p = Some c \<Longrightarrow>
    read_main_header (en_malloc env) (en_stack env) (en_junk env) (sock_of sv (cl_connfd c)) = Inr (recv, s) \<Longrightarrow>
    serve env p sv = Some (Inr sv') \<Longrightarrow> server_does (Read env p recv) sv sv'"

section \<open>Each command\<close>

lemma quiet_service: "quiet sv sv' \<Longrightarrow> cred_text sv' = cred_text sv \<Longrightarrow> service_of sv' = service_of sv"
  by (simp add: service_of_def quiet_def)

lemma same_cred: "same_files sv sv' \<Longrightarrow> cred_text sv' = cred_text sv"
  by (simp add: same_files_def cred_text_def file_of_def)

lemma match_text: "match_user_pw (file_of sv CREDENTIAL_FILE_NAME) n w = match_user_pw (Some (cred_text sv)) n w"
  by (auto simp: match_user_pw_def cred_text_def file_lines.simps [of "[]"] fgets_def split: option.splits)

text \<open>A registration.\<close>

lemma create_user_text:
  assumes "create_user ok f n w = Inr (r, f')"
  shows "(case f' of None \<Rightarrow> [] | Some t \<Rightarrow> t) = (case f of None \<Rightarrow> [] | Some t \<Rightarrow> t) @
    (if ok then case (create_user_loop n (file_lines (case f of None \<Rightarrow> [] | Some t \<Rightarrow> t)) 1, c_str n, c_str w) of
       (Inr (False, k), Inr name, Inr password) \<Rightarrow> print_int k @ space # name @ space # password @ [newline]
     | _ \<Rightarrow> [] else [])"
proof (cases ok)
  case False
  then show ?thesis using assms by (simp add: create_user_def)
next
  case True
  define t where "t = (case f of None \<Rightarrow> [] | Some t \<Rightarrow> t)"
  have run: "and_then (create_user_loop n (file_lines t) 1) (\<lambda>(exists, count).
      if exists then Inr (ERR_USERNAME_EXIST, Some t)
      else and_then (c_str n) (\<lambda>u. and_then (c_str w) (\<lambda>p.
        Inr (count, Some (t @ print_int count @ space # u @ space # p @ [newline]))))) = Inr (r, f')"
    using assms True unfolding create_user_def Let_def t_def by simp
  then obtain ex k where l: "create_user_loop n (file_lines t) 1 = Inr (ex, k)" by (auto elim!: and_then_InrE)
  show ?thesis
  proof (cases ex)
    case True
    then show ?thesis using run l \<open>ok\<close> unfolding t_def [symmetric] by auto
  next
    case False
    then obtain u p where "c_str n = Inr u" "c_str w = Inr p" using run l by (auto elim!: and_then_InrE)
    then show ?thesis using run l \<open>ok\<close> False unfolding t_def [symmetric] by auto
  qed
qed

lemma usr_create_text:
  assumes "handle_usr_create env p recv sv = Inr sv'"
  shows "cred_text sv' = cred_text sv @
    (if en_fopen env then case registration (cred_text sv) recv of None \<Rightarrow> [] | Some line \<Rightarrow> line else [])"
proof -
  obtain x n w r f send where c: "parse_username_pw zero_name zero_pw (hdr_payload recv) (sint (hdr_len recv)) = Inr (x, n, w)"
      "create_user (en_fopen env) (file_of sv CREDENTIAL_FILE_NAME) n w = Inr (r, f)"
      "reply p send (set_file CREDENTIAL_FILE_NAME f sv) = Inr sv'"
    using assms by (auto simp: handle_usr_create_def Let_def elim!: and_then_InrE)
  have "cred_text sv' = (case f of None \<Rightarrow> [] | Some t \<Rightarrow> t)"
    using same_cred [OF reply_files [OF c(3)]] set_file_cred by simp
  with create_user_text [OF c(2)] show ?thesis
    by (auto simp: registration_def c(1) cred_text_def split: sum.splits bool.splits)
qed

lemma usr_create_service:
  assumes "handle_usr_create env p recv sv = Inr sv'" and "sv_data sv p \<noteq> None" and "hdr_cmd recv = USR_CREATE"
  shows "service_step (Read env p (Some recv)) (service_of sv) (service_of sv')"
proof -
  have eq: "service_of sv' = (service_of sv)\<lparr>sr_accounts := cred_text sv @
      (if en_fopen env then case registration (cred_text sv) recv of None \<Rightarrow> [] | Some line \<Rightarrow> line else [])\<rparr>"
    using handle_usr_create_quiet [OF assms(1)] usr_create_text [OF assms(1)] by (simp add: service_of_def quiet_def)
  have acc: "sr_accounts (service_of sv) = cred_text sv" and p: "sr_sessions (service_of sv) p \<noteq> None"
    using assms(2) by (simp_all add: service_of_def)
  show ?thesis
  proof (cases "en_fopen env \<and> registration (cred_text sv) recv \<noteq> None")
    case True
    then obtain line where "en_fopen env" "registration (sr_accounts (service_of sv)) recv = Some line"
      unfolding acc by blast
    from service_step.register [OF p assms(3) this] show ?thesis using \<open>registration _ _ = _\<close> True
      by (simp add: eq acc)
  next
    case False
    then have "service_of sv' = (service_of sv)\<lparr>sr_accounts := sr_accounts (service_of sv)\<rparr>" by (auto simp: eq acc)
    then have "service_of sv' = service_of sv" by simp
    moreover have "\<not> effective env recv (service_of sv)" using False assms(3) by (simp add: effective_def acc)
    ultimately show ?thesis using service_step.nothing [OF p] by simp
  qed
qed

text \<open>A login.\<close>

lemma login_changes:
  assumes "handle_usr_login env p recv sv = Inr sv'"
  shows "case user_of (cred_text sv) recv of
      None \<Rightarrow> quiet sv sv'
    | Some k \<Rightarrow> \<exists>r n w c name st active.
        parse_username_pw zero_name zero_pw (hdr_payload recv) (sint (hdr_len recv)) = Inr (r, n, w) \<and>
        match_user_pw (file_of sv CREDENTIAL_FILE_NAME) n w = Inr k \<and> 0 < k \<and> sv_data sv p = Some c \<and>
        hashmap_put (en_calloc env) (sv_active sv) (of_int k) (Some p) = Inr (st, active) \<and>
        quiet (sv\<lparr>sv_data := (sv_data sv)(p \<mapsto> c\<lparr>cl_uid := of_int k, cl_username := name\<rparr>), sv_active := active\<rparr>) sv'"
proof -
  obtain r n w k where k: "parse_username_pw zero_name zero_pw (hdr_payload recv) (sint (hdr_len recv)) = Inr (r, n, w)"
      "match_user_pw (file_of sv CREDENTIAL_FILE_NAME) n w = Inr k"
    using assms by (auto simp: handle_usr_login_def elim!: and_then_InrE)
  then have u: "user_of (cred_text sv) recv = (if 0 < k then Some k else None)"
    by (simp add: user_of_def match_text)
  show ?thesis
  proof (cases "0 < k")
    case True
    with assms k have "\<exists>c name st active. sv_data sv p = Some c \<and>
        hashmap_put (en_calloc env) (sv_active sv) (of_int k) (Some p) = Inr (st, active) \<and>
        quiet (sv\<lparr>sv_data := (sv_data sv)(p \<mapsto> c\<lparr>cl_uid := of_int k, cl_username := name\<rparr>), sv_active := active\<rparr>) sv'"
      by (fastforce simp: handle_usr_login_def elim!: and_then_InrE dest: reply_quiet)
    with True k show ?thesis by (simp add: u)
  next
    case False
    with assms k have "quiet sv sv'" by (auto simp: handle_usr_login_def elim!: and_then_InrE dest: reply_quiet)
    with False show ?thesis by (simp add: u)
  qed
qed

lemma login_service:
  assumes "handle_usr_login env p recv sv = Inr sv'" and "sv_data sv p \<noteq> None" and "hdr_cmd recv = USR_LOGIN"
    and "hm_inv (sv_active sv)"
  shows "service_step (Read env p (Some recv)) (service_of sv) (service_of sv')"
proof -
  have cred: "cred_text sv' = cred_text sv" by (rule same_cred [OF handle_same_files(1) [OF assms(1)]])
  have acc: "sr_accounts (service_of sv) = cred_text sv" and p: "sr_sessions (service_of sv) p \<noteq> None"
    using assms(2) by (simp_all add: service_of_def)
  show ?thesis
  proof (cases "user_of (cred_text sv) recv")
    case None
    then have "service_of sv' = service_of sv" using login_changes [OF assms(1)] cred quiet_service by simp
    then show ?thesis using service_step.nothing [OF p] None assms(3) by (simp add: effective_def acc)
  next
    case (Some k)
    with login_changes [OF assms(1)] obtain c name st active where l:
      "hashmap_put (en_calloc env) (sv_active sv) (of_int k) (Some p) = Inr (st, active)" "sv_data sv p = Some c"
      "quiet (sv\<lparr>sv_data := (sv_data sv)(p \<mapsto> c\<lparr>cl_uid := of_int k, cl_username := name\<rparr>), sv_active := active\<rparr>) sv'"
      by auto
    have "service_of sv' = (service_of sv)\<lparr>sr_sessions := (sr_sessions (service_of sv))(p \<mapsto> of_int k),
        sr_online := hm_slots active, sr_room := hm_room active\<rparr>"
      using l(3) cred by (auto simp: service_of_def quiet_def)
    moreover have "entered (of_int k) (Some p) (sr_online (service_of sv), sr_room (service_of sv)) (hm_slots active, hm_room active)"
      using slots_put [OF assms(4) l(1)] by (simp add: service_of_def)
    ultimately show ?thesis using service_step.login [OF p assms(3)] Some by (simp add: acc)
  qed
qed

text \<open>The groups.\<close>

lemma create_group_service:
  assumes "handle_create_group env p recv sv = Inr sv'" and "sv_data sv p \<noteq> None" and "hdr_cmd recv = CREATE_GROUP"
    and "sv_inv sv"
  shows "service_step (Read env p (Some recv)) (service_of sv) (service_of sv')"
proof -
  have cred: "cred_text sv' = cred_text sv" by (rule same_cred [OF handle_same_files(2) [OF assms(1)]])
  have p: "sr_sessions (service_of sv) p \<noteq> None" using assms(2) by (simp add: service_of_def)
  have gs: "\<forall>i < sv_group_cnt sv. sv_groups sv ! i \<noteq> []" "length (sv_groups sv) = GROUP_NUM_MAX"
    using assms(4) by (auto simp: sv_inv_def groups_ok_def)
  show ?thesis
  proof (cases "hdr_uid recv = 0")
    case True
    then have "quiet sv sv'" using handle_create_group_changes [OF assms(1) gs] by simp
    then have "service_of sv' = service_of sv" using cred quiet_service by blast
    then show ?thesis using service_step.nothing [OF p] True assms(3) by (simp add: effective_def)
  next
    case False
    from handle_create_group_made [OF assms(1) False gs] obtain i where
      i: "i < GROUP_NUM_MAX" "sv_groups sv ! i = []" "\<forall>j < i. sv_groups sv ! j \<noteq> []"
      and q: "quiet (sv\<lparr>sv_group_cnt := i, sv_groups := (sv_groups sv)[i := [hdr_uid recv]]\<rparr>) sv'" by blast
    have "service_of sv' = (service_of sv)\<lparr>sr_members := (sr_members (service_of sv))(i := {hdr_uid recv})\<rparr>"
      using q cred i(1) gs(2) by (simp add: service_of_def quiet_def members_of_upd)
    moreover have "sr_members (service_of sv) i = {}" "\<forall>j < i. sr_members (service_of sv) j \<noteq> {}"
      using i gs(2) by (simp_all add: service_of_def members_of_def)
    ultimately show ?thesis using service_step.found [OF p assms(3) False i(1)] by simp
  qed
qed

lemma invite_resp_service:
  assumes "handle_invite_resp env recv sv = Inr sv'" and "sv_data sv p \<noteq> None" and "hdr_cmd recv = INVITE_RESP"
  shows "service_step (Read env p (Some recv)) (service_of sv) (service_of sv')"
proof -
  let ?i = "unat (hdr_gid recv)"
  let ?g = "sv_groups sv ! ?i"
  have p: "sr_sessions (service_of sv) p \<noteq> None" using assms(2) by (simp add: service_of_def)
  have mem: "sr_members (service_of sv) = members_of (sv_groups sv)" by (simp add: service_of_def)
  show ?thesis
  proof (cases "accepts_invite env recv (sr_members (service_of sv))")
    case True
    then have acc: "members_of (sv_groups sv) ?i \<noteq> {}" "hdr_uid recv \<notin> members_of (sv_groups sv) ?i" "hdr_uid recv \<noteq> 0"
        "unat (hdr_len recv) < MAX_CHAR_USERID" "hd (hdr_payload recv) = CHR ''a''" "en_malloc env NODE_SIZE"
      by (simp_all add: accepts_invite_def mem)
    then have i: "?i < length (sv_groups sv)" "set ?g = members_of (sv_groups sv) ?i"
      by (auto simp: members_of_def split: if_splits)
    have g: "?g \<noteq> []" "hdr_uid recv \<notin> set ?g" using acc(1,2) unfolding i(2) [symmetric] by auto
    have "hdr_payload recv \<noteq> []"
    proof
      assume "hdr_payload recv = []"
      with assms(1) acc(3-6) g i(1) show False
        by (simp add: handle_invite_resp_def check_header_invite_ok group_at_def check_user_in_group_def find_member_iff)
    qed
    from handle_invite_resp_eq [OF i(1) this, of env] assms(1) acc(3-6) g
    have "sv' = sv\<lparr>sv_groups := (sv_groups sv)[?i := ?g @ [hdr_uid recv]]\<rparr>" by (auto simp: Let_def)
    then have "service_of sv' = (service_of sv)\<lparr>sr_members := (sr_members (service_of sv))
        (?i := insert (hdr_uid recv) (sr_members (service_of sv) ?i))\<rparr>"
      using i g by (simp add: service_of_def cred_text_def file_of_def members_of_upd)
    then show ?thesis using service_step.join [OF p assms(3) True refl] by simp
  next
    case False
    have "sv' = sv"
    proof (cases "?i < length (sv_groups sv) \<and> hdr_payload recv \<noteq> []")
      case True
      then have "members_of (sv_groups sv) ?i = set ?g" by (simp add: members_of_def)
      with False assms(1) handle_invite_resp_eq [of recv sv env] True show ?thesis
        by (auto simp: Let_def accepts_invite_def mem split: if_splits)
    next
      case False
      with assms(1) show ?thesis
        by (auto simp: handle_invite_resp_def group_at_def split: if_splits list.splits elim!: and_then_InrE)
    qed
    then show ?thesis using service_step.nothing [OF p] False assms(3) by (simp add: effective_def)
  qed
qed

text \<open>The commands that the service does not notice.\<close>

lemma active_list_cred:
  assumes "handle_active_list env p recv sv = Inr sv'"
  shows "cred_text sv' = cred_text sv"
proof -
  obtain f send where "reply p send (set_file ACTIVE_USER_FILE_NAME f sv) = Inr sv'"
    using assms by (auto simp: handle_active_list_def get_active_users_str_def Let_def elim!: and_then_InrE split: if_splits)
  then have "cred_text sv' = cred_text (set_file ACTIVE_USER_FILE_NAME f sv)" by (intro same_cred reply_files)
  also have "\<dots> = cred_text sv"
    using set_file_other [of ACTIVE_USER_FILE_NAME CREDENTIAL_FILE_NAME f sv] by (simp add: cred_text_def norm_names)
  finally show ?thesis .
qed

lemma send_file_cred:
  assumes "handle_send_file env p recv sv = Some (Inr sv')"
  shows "cred_text sv' = cred_text sv"
proof -
  obtain fd content s' sv1 gid h where
    sv1: "sv1 = (let sv2 = put_sock fd s' (sv\<lparr>sv_file_cnt := sv_file_cnt sv + 1\<rparr>) in
        case content of None \<Rightarrow> sv2 | Some _ \<Rightarrow> set_file (file_name (hdr_gid recv) (sv_file_cnt sv)) content sv2)"
    and f: "forward_to_group env gid h sv1 = Inr sv'"
    using assms by (auto simp: handle_send_file_def Let_def split: sum.splits prod.splits elim!: and_then_InrE)
  have "cred_text (put_sock fd s' (sv\<lparr>sv_file_cnt := sv_file_cnt sv + 1\<rparr>)) = cred_text sv"
    by (simp add: put_sock_def cred_text_def file_of_def)
  moreover have "cred_text (set_file (file_name (hdr_gid recv) (sv_file_cnt sv)) content t) = cred_text t" for t
    using set_file_other [of "file_name (hdr_gid recv) (sv_file_cnt sv)" CREDENTIAL_FILE_NAME content t]
      file_name_other(1) by (simp add: cred_text_def norm_names)
  ultimately have "cred_text sv1 = cred_text sv" by (auto simp: sv1 Let_def split: option.split)
  then show ?thesis using same_cred [OF forward_to_group_files [OF f]] by simp
qed

lemma download_same:
  assumes "handle_download_file env p recv sv = Inr sv'"
  shows "service_of sv' = service_of sv"
proof -
  have cred: "cred_text sv' = cred_text sv" by (rule same_cred [OF handle_same_files(6) [OF assms]])
  from handle_download_file_changes [OF assms] show ?thesis
  proof (elim disjE exE conjE)
    fix c id
    assume "sv_data sv p = Some c" "quiet (sv\<lparr>sv_data := (sv_data sv)(p \<mapsto> c\<lparr>cl_file_id := id\<rparr>)\<rparr>) sv'"
    then show ?thesis using cred by (auto simp: service_of_def quiet_def)
  qed simp
qed

lemma other_same:
  assumes "handle env p recv sv = Some (Inr sv')"
    and "hdr_cmd recv \<notin> {USR_CREATE, USR_LOGIN, CREATE_GROUP, INVITE_RESP}"
  shows "service_of sv' = service_of sv"
proof -
  note same = quiet_service [OF handle_invite_quiet] quiet_service [OF handle_send_chat_quiet]
    quiet_service [OF handle_active_list_quiet] quiet_service [OF handle_send_file_quiet] download_same
  note cred = handle_same_files(3,5) [THEN same_cred] active_list_cred send_file_cred
  consider "hdr_cmd recv = INVITE" | "hdr_cmd recv = SEND_CHAT" | "hdr_cmd recv = ACTIVE_LIST"
    | "hdr_cmd recv = SEND_FILE" | "hdr_cmd recv = DOWNLOAD_FILE" | "sv' = sv"
    using assms by (auto simp: handle_def split: if_splits)
  then show ?thesis using assms(1) same cred by cases (simp_all add: handle_def)
qed

lemma handle_service:
  assumes "handle env p recv sv = Some (Inr sv')" and "sv_inv sv" and "sv_data sv p \<noteq> None"
  shows "service_step (Read env p (Some recv)) (service_of sv) (service_of sv')"
proof -
  have hm: "hm_inv (sv_active sv)" using assms(2) by (simp add: sv_inv_def)
  have p: "sr_sessions (service_of sv) p \<noteq> None" using assms(3) by (simp add: service_of_def)
  consider "hdr_cmd recv = USR_CREATE" | "hdr_cmd recv = USR_LOGIN" | "hdr_cmd recv = CREATE_GROUP"
    | "hdr_cmd recv = INVITE_RESP" | (other) "hdr_cmd recv \<notin> {USR_CREATE, USR_LOGIN, CREATE_GROUP, INVITE_RESP}" by blast
  then show ?thesis
  proof cases
    case other
    then show ?thesis using other_same [OF assms(1) other] service_step.nothing [OF p] by (simp add: effective_def)
  qed (use assms(1) usr_create_service [OF _ assms(3)] login_service [OF _ assms(3) _ hm]
      create_group_service [OF _ assms(3) _ assms(2)] invite_resp_service [OF _ assms(3)] in \<open>simp_all add: handle_def\<close>)
qed

lemma exit_service:
  assumes "exit_thread p sv = Inr sv'" and "hm_inv (sv_active sv)"
  shows "service_step (Read env p None) (service_of sv) (service_of sv')"
proof -
  obtain c where c: "sv_data sv p = Some c" using assms(1) by (auto simp: exit_thread_def elim!: and_then_InrE)
  then have u: "sr_sessions (service_of sv) p = Some (cl_uid c)" by (simp add: service_of_def)
  have pos: "0 < uint (cl_uid c) \<longleftrightarrow> cl_uid c \<noteq> 0"
    using uint_nonnegative [of "cl_uid c"] by (auto simp: less_le uint_0_iff)
  show ?thesis
  proof (cases "cl_uid c = 0")
    case True
    then have "sv' = sv\<lparr>sv_socks := (sv_socks sv)(cl_connfd c := None), sv_data := (sv_data sv)(p := None)\<rparr>"
      using assms(1) c by (simp add: exit_thread_def load_client_def Let_def)
    then have "service_of sv' = (service_of sv)\<lparr>sr_sessions := (sr_sessions (service_of sv))(p := None)\<rparr>"
      by (auto simp: service_of_def cred_text_def file_of_def)
    then show ?thesis using service_step.leave_none [of "service_of sv" p env] u True by simp
  next
    case False
    then obtain r active where rm: "hashmap_remove (sv_active sv) (ucast (cl_uid c)) = Inr (r, active)"
        "sv' = sv\<lparr>sv_socks := (sv_socks sv)(cl_connfd c := None), sv_active := active, sv_data := (sv_data sv)(p := None)\<rparr>"
      using assms(1) c pos by (auto simp: exit_thread_def load_client_def Let_def elim!: and_then_InrE)
    then have "service_of sv' = (service_of sv)\<lparr>sr_sessions := (sr_sessions (service_of sv))(p := None),
        sr_online := hm_slots active, sr_room := hm_room active\<rparr>"
      by (auto simp: service_of_def cred_text_def file_of_def)
    moreover have "struck (ucast (cl_uid c)) (sr_online (service_of sv), sr_room (service_of sv)) (hm_slots active, hm_room active)"
      using slots_remove [OF assms(2) rm(1)] by (simp add: service_of_def)
    ultimately show ?thesis using service_step.leave [OF u False, of "hm_slots active" "hm_room active" env] by simp
  qed
qed

section \<open>Steps\<close>

lemma serve_reads:
  assumes "serve env p sv = Some (Inr sv')"
  obtains c recv s where "sv_data sv p = Some c"
    "read_main_header (en_malloc env) (en_stack env) (en_junk env) (sock_of sv (cl_connfd c)) = Inr (recv, s)"
    "recv = None \<Longrightarrow> exit_thread p (put_sock (cl_connfd c) s sv) = Inr sv'"
    "\<And>h. recv = Some h \<Longrightarrow> handle env p h (put_sock (cl_connfd c) s sv) = Some (Inr sv')"
proof -
  obtain c where c: "sv_data sv p = Some c"
    using assms by (auto simp: serve_def load_client_def split: option.splits)
  obtain recv s where r: "read_main_header (en_malloc env) (en_stack env) (en_junk env) (sock_of sv (cl_connfd c)) =
      Inr (recv, s)"
    using assms c by (auto simp: serve_def load_client_def split: sum.splits elim!: and_then_InrE)
  from c r show ?thesis by (rule that) (use assms c r in \<open>simp_all add: serve_def load_client_def\<close>)
qed

lemma serve_service:
  assumes "serve env p sv = Some (Inr sv')" and "sv_inv sv" and "sv_data sv p = Some c"
    and "read_main_header (en_malloc env) (en_stack env) (en_junk env) (sock_of sv (cl_connfd c)) = Inr (recv, s)"
  shows "service_step (Read env p recv) (service_of sv) (service_of sv')"
proof -
  let ?sv = "put_sock (cl_connfd c) s sv"
  have same: "service_of ?sv = service_of sv" by (rule quiet_service [OF quiet_upd(4)]) (simp add: cred_text_def file_of_def put_sock_def)
  have inv: "sv_inv ?sv" using quiet_inv [OF quiet_upd(4)] assms(2) by blast
  have data: "sv_data ?sv p \<noteq> None" using assms(3) by (simp add: put_sock_def)
  show ?thesis
  proof (cases recv)
    case None
    then have "exit_thread p ?sv = Inr sv'" using assms(1,3,4) by (simp add: serve_def load_client_def)
    from exit_service [OF this, of env] show ?thesis using inv None by (simp add: same sv_inv_def)
  next
    case (Some h)
    then have "handle env p h ?sv = Some (Inr sv')" using assms(1,3,4) by (simp add: serve_def load_client_def)
    from handle_service [OF this inv data] show ?thesis by (simp add: same Some)
  qed
qed

lemma accept_service:
  assumes "accept_ok ac sv" and "accept_turn ac sv = Inr sv'"
  shows "service_step (Connect ac) (service_of sv) (service_of sv')"
  using assms
proof (cases rule: accept_turn_cases)
  case (served p)
  then have "service_of sv' = (service_of sv)\<lparr>sr_sessions := (sr_sessions (service_of sv))(p \<mapsto> -1)\<rparr>"
    by (auto simp: service_of_def accept_client_def cred_text_def file_of_def fun_eq_iff)
  moreover have "sr_sessions (service_of sv) p = None" using served(2) by (simp add: service_of_def)
  ultimately show ?thesis using service_step.arrive [of ac p "service_of sv"] served(1,3-5) by (simp add: served_def)
next
  case unserved
  then have "service_of sv' = service_of sv" by (simp add: service_of_def cred_text_def file_of_def)
  then show ?thesis using service_step.unserved [of ac "service_of sv"] unserved(1) by (simp add: served_def)
qed

lemma does_step: "server_step sv sv' \<longleftrightarrow> (\<exists>ev. server_does ev sv sv')"
proof
  assume "server_step sv sv'"
  then show "\<exists>ev. server_does ev sv sv'"
  proof cases
    case (turn p env)
    from serve_reads [OF turn(2)] server_does.read [OF _ _ turn(2)] show ?thesis by metis
  qed (blast intro: server_does.connect)
next
  assume "\<exists>ev. server_does ev sv sv'"
  then show "server_step sv sv'" by (auto elim!: server_does.cases intro: server_step.intros)
qed

section \<open>Runs\<close>

text \<open>A run with the list of its events.\<close>

inductive traced :: "('e \<Rightarrow> 's \<Rightarrow> 's \<Rightarrow> bool) \<Rightarrow> 's \<Rightarrow> 'e list \<Rightarrow> 's \<Rightarrow> bool" for trans where
  start: "traced trans s [] s"
| step: "traced trans s evs t \<Longrightarrow> trans e t u \<Longrightarrow> traced trans s (evs @ [e]) u"

lemma traced_steps:
  assumes "\<And>s s'. step s s' \<longleftrightarrow> (\<exists>e. doing e s s')"
  shows "step\<^sup>*\<^sup>* s s' \<longleftrightarrow> (\<exists>evs. traced doing s evs s')"
proof
  assume "step\<^sup>*\<^sup>* s s'"
  then show "\<exists>evs. traced doing s evs s'"
    by (induction rule: rtranclp_induct) (auto simp: assms intro: traced.intros)
next
  assume "\<exists>evs. traced doing s evs s'"
  then obtain evs where "traced doing s evs s'" by blast
  then show "step\<^sup>*\<^sup>* s s'"
    by (induction rule: traced.induct) (use assms in \<open>blast intro: rtranclp.rtrancl_into_rtrancl\<close>)+
qed

text \<open>A system whose steps from states with the invariant are, through \<open>abs\<close>, steps of another one for
  the same event.\<close>

locale simulation =
  fixes trans :: "'e \<Rightarrow> 's \<Rightarrow> 's \<Rightarrow> bool" and inv :: "'s \<Rightarrow> bool"
    and spec :: "'e \<Rightarrow> 'a \<Rightarrow> 'a \<Rightarrow> bool" and abs :: "'s \<Rightarrow> 'a"
  assumes step_inv: "inv s \<Longrightarrow> trans e s s' \<Longrightarrow> inv s'"
    and step_spec: "inv s \<Longrightarrow> trans e s s' \<Longrightarrow> spec e (abs s) (abs s')"
begin

lemma run_spec: "traced trans s evs s' \<Longrightarrow> inv s \<Longrightarrow> inv s' \<and> traced spec (abs s) evs (abs s')"
proof (induction rule: traced.induct)
  case (step s evs t e u)
  then show ?case using step_inv step_spec by (blast intro: traced.step)
qed (auto intro: traced.start)

end

interpretation service: simulation server_does sv_inv service_step service_of
proof unfold_locales
  fix ev sv sv'
  assume inv: "sv_inv sv" and step: "server_does ev sv sv'"
  then show "sv_inv sv'" using sys.run_inv [OF r_into_rtranclp] does_step by blast
  show "service_step ev (service_of sv) (service_of sv')"
    using step by cases (use inv accept_service serve_service in blast)+
qed

section \<open>Why a user is online, and why one is in a group\<close>

text \<open>A system in which a fact that becomes true has a cause in the step that makes it true.\<close>

locale caused =
  fixes trans :: "'s \<Rightarrow> 's \<Rightarrow> bool" and inv :: "'s \<Rightarrow> bool"
    and fact :: "'s \<Rightarrow> 'f \<Rightarrow> bool" and cause :: "'s \<Rightarrow> 's \<Rightarrow> 'f \<Rightarrow> bool"
  assumes keeps_inv: "inv s \<Longrightarrow> trans s s' \<Longrightarrow> inv s'"
    and new_fact: "inv s \<Longrightarrow> trans s s' \<Longrightarrow> fact s' f \<Longrightarrow> fact s f \<or> cause s s' f"
begin

lemma has_cause:
  "trans\<^sup>*\<^sup>* s0 s \<Longrightarrow> inv s0 \<Longrightarrow> \<not> fact s0 f \<Longrightarrow>
    inv s \<and> (fact s f \<longrightarrow> (\<exists>t t'. trans\<^sup>*\<^sup>* s0 t \<and> cause t t' f \<and> trans t t' \<and> trans\<^sup>*\<^sup>* t' s))"
proof (induction rule: rtranclp_induct)
  case (step t u)
  then have t: "inv t" "fact t f \<longrightarrow> (\<exists>v v'. trans\<^sup>*\<^sup>* s0 v \<and> cause v v' f \<and> trans v v' \<and> trans\<^sup>*\<^sup>* v' t)" by blast+
  show ?case
  proof (intro conjI impI)
    show "inv u" using keeps_inv t(1) step(2) by blast
    assume "fact u f"
    then have "fact t f \<or> cause t u f" using new_fact t(1) step(2) by blast
    then show "\<exists>v v'. trans\<^sup>*\<^sup>* s0 v \<and> cause v v' f \<and> trans v v' \<and> trans\<^sup>*\<^sup>* v' u"
      using t(2) step(1,2) by (meson rtranclp.rtrancl_into_rtrancl rtranclp.rtrancl_refl)
  qed
qed simp

end

definition turn_with :: "env \<Rightarrow> nat \<Rightarrow> mainhdr \<Rightarrow> server \<Rightarrow> server \<Rightarrow> bool" where
  "turn_with env p recv sv sv' \<longleftrightarrow> serve env p sv = Some (Inr sv') \<and> (\<exists>c s. sv_data sv p = Some c \<and>
     read_main_header (en_malloc env) (en_stack env) (en_junk env) (sock_of sv (cl_connfd c)) = Inr (Some recv, s))"

definition login_turn :: "server \<Rightarrow> server \<Rightarrow> u64 \<times> nat \<Rightarrow> bool" where
  "login_turn sv sv' e \<longleftrightarrow> (\<exists>env recv r n w k. turn_with env (snd e) recv sv sv' \<and> hdr_cmd recv = USR_LOGIN \<and>
     parse_username_pw zero_name zero_pw (hdr_payload recv) (sint (hdr_len recv)) = Inr (r, n, w) \<and>
     match_user_pw (file_of sv CREDENTIAL_FILE_NAME) n w = Inr k \<and> 0 < k \<and> fst e = of_int k)"

definition join_turn :: "server \<Rightarrow> server \<Rightarrow> nat \<times> u16 \<Rightarrow> bool" where
  "join_turn sv sv' e \<longleftrightarrow> (\<exists>env p recv. turn_with env p recv sv sv' \<and> hdr_uid recv = snd e \<and> snd e \<noteq> 0 \<and>
     (hdr_cmd recv = CREATE_GROUP \<and> members_of (sv_groups sv) (fst e) = {} \<or>
      hdr_cmd recv = INVITE_RESP \<and> unat (hdr_gid recv) = fst e \<and> members_of (sv_groups sv) (fst e) \<noteq> {} \<and>
        hd (hdr_payload recv) = CHR ''a''))"

lemma handle_entries:
  assumes "handle env p recv sv = Some (Inr sv')" and "hm_inv (sv_active sv)"
    and "e \<in> hm_entries (sv_active sv')" and "e \<notin> hm_entries (sv_active sv)"
  shows "hdr_cmd recv = USR_LOGIN \<and> (\<exists>r n w k. e = (of_int k, p) \<and>
    parse_username_pw zero_name zero_pw (hdr_payload recv) (sint (hdr_len recv)) = Inr (r, n, w) \<and>
    match_user_pw (file_of sv CREDENTIAL_FILE_NAME) n w = Inr k \<and> 0 < k)"
proof -
  have ne: "sv_active sv' \<noteq> sv_active sv" using assms(3,4) by auto
  then have "\<not> quiet sv sv'" "sv' \<noteq> sv" by (auto simp: quiet_def)
  moreover have "sv_active sv' = sv_active sv" if "handle_create_group env p recv sv = Inr sv'"
    using that by (auto simp: handle_create_group_def Let_def quiet_def elim!: and_then_InrE split: if_splits dest!: reply_quiet)
  moreover have "sv_active sv' = sv_active sv" if "handle_invite_resp env recv sv = Inr sv'"
    using that by (auto simp: handle_invite_resp_def add_user_to_group_def Let_def elim!: and_then_InrE split: if_splits list.splits prod.splits)
  moreover have "sv_active sv' = sv_active sv" if "handle_download_file env p recv sv = Inr sv'"
    using handle_download_file_changes [OF that] by (auto simp: quiet_def)
  ultimately have l: "hdr_cmd recv = USR_LOGIN" "handle_usr_login env p recv sv = Inr sv'" and nq: "\<not> quiet sv sv'"
    using assms(1) ne handle_usr_create_quiet handle_invite_quiet handle_send_chat_quiet handle_active_list_quiet
      handle_send_file_quiet by (auto simp: handle_def split: if_splits)
  from login_changes [OF l(2)] nq obtain r n w k st active where k:
    "parse_username_pw zero_name zero_pw (hdr_payload recv) (sint (hdr_len recv)) = Inr (r, n, w)"
    "match_user_pw (file_of sv CREDENTIAL_FILE_NAME) n w = Inr k" "0 < k"
    "hashmap_put (en_calloc env) (sv_active sv) (of_int k) (Some p) = Inr (st, active)" "sv_active sv' = active"
    by (auto simp: quiet_def split: option.splits)
  then have "e = (of_int k, p)" using entries_put [OF assms(2) k(4)] assms(3,4) by blast
  then show ?thesis using l(1) k(1-3) by blast
qed

lemma handle_members:
  assumes "handle env p recv sv = Some (Inr sv')" and "sv_inv sv"
    and "u \<in> members_of (sv_groups sv') i" and "u \<notin> members_of (sv_groups sv) i"
  shows "hdr_uid recv = u \<and> u \<noteq> 0 \<and> (hdr_cmd recv = CREATE_GROUP \<and> members_of (sv_groups sv) i = {} \<or>
    hdr_cmd recv = INVITE_RESP \<and> unat (hdr_gid recv) = i \<and> members_of (sv_groups sv) i \<noteq> {} \<and>
      hd (hdr_payload recv) = CHR ''a'')"
proof -
  have hm: "hm_inv (sv_active sv)" using assms(2) by (simp add: sv_inv_def)
  have gs: "\<forall>i < sv_group_cnt sv. sv_groups sv ! i \<noteq> []" "length (sv_groups sv) = GROUP_NUM_MAX"
    using assms(2) by (auto simp: sv_inv_def groups_ok_def)
  have ne: "sv_groups sv' \<noteq> sv_groups sv" using assms(3,4) by auto
  then have nq: "\<not> quiet sv sv'" "sv' \<noteq> sv" by (auto simp: quiet_def)
  moreover have "sv_groups sv' = sv_groups sv" if "handle_usr_login env p recv sv = Inr sv'"
    using login_changes [OF that] by (auto simp: quiet_def split: option.splits)
  moreover have "sv_groups sv' = sv_groups sv" if "handle_download_file env p recv sv = Inr sv'"
    using handle_download_file_changes [OF that] by (auto simp: quiet_def)
  ultimately consider (create) "hdr_cmd recv = CREATE_GROUP" "handle_create_group env p recv sv = Inr sv'"
    | (resp) "hdr_cmd recv = INVITE_RESP" "handle_invite_resp env recv sv = Inr sv'"
    using assms(1) ne handle_usr_create_quiet handle_invite_quiet handle_send_chat_quiet handle_active_list_quiet
      handle_send_file_quiet by (auto simp: handle_def split: if_splits)
  then show ?thesis
  proof cases
    case create
    from handle_create_group_changes [OF create(2) gs] nq(1) obtain n where n: "n < GROUP_NUM_MAX" "sv_groups sv ! n = []"
        "hdr_uid recv \<noteq> 0" "sv_groups sv' = (sv_groups sv)[n := [hdr_uid recv]]"
      by (auto simp: quiet_def)
    then have "members_of (sv_groups sv') = (members_of (sv_groups sv))(n := {hdr_uid recv})"
      using gs(2) by (simp add: members_of_upd)
    then have "i = n" "u = hdr_uid recv" using assms(3,4) by (auto split: if_splits)
    moreover have "members_of (sv_groups sv) n = {}" using n(2) by (simp add: members_of_def)
    ultimately show ?thesis using create(1) n(3) by simp
  next
    case resp
    let ?g = "unat (hdr_gid recv)"
    have ok: "?g < length (sv_groups sv)" "hdr_payload recv \<noteq> []"
      using resp(2) ne by (auto simp: handle_invite_resp_def group_at_def split: if_splits list.splits elim!: and_then_InrE)
    from handle_invite_resp_eq [OF this, of env] resp(2) ne
    have j: "hdr_uid recv \<noteq> 0" "sv_groups sv ! ?g \<noteq> []" "hd (hdr_payload recv) = CHR ''a''"
        "sv_groups sv' = (sv_groups sv)[?g := sv_groups sv ! ?g @ [hdr_uid recv]]"
      by (auto simp: Let_def split: if_splits)
    then have "members_of (sv_groups sv') = (members_of (sv_groups sv))
        (?g := insert (hdr_uid recv) (members_of (sv_groups sv) ?g))"
      using ok(1) by (simp add: members_of_upd members_of_def [of _ ?g])
    then have "i = ?g" "u = hdr_uid recv" using assms(3,4) by (auto split: if_splits)
    moreover have "members_of (sv_groups sv) ?g \<noteq> {}" using j(2) ok(1) by (simp add: members_of_def)
    ultimately show ?thesis using resp(1) j(1,3) by simp
  qed
qed

lemma step_keeps: "sv_inv sv \<Longrightarrow> server_step sv sv' \<Longrightarrow> sv_inv sv'"
  using sys.run_inv [OF r_into_rtranclp] by blast

lemma accept_turn_same:
  "accept_ok ac sv \<Longrightarrow> accept_turn ac sv = Inr sv' \<Longrightarrow> sv_active sv' = sv_active sv \<and> sv_groups sv' = sv_groups sv"
  by (erule (1) accept_turn_cases) (simp_all add: accept_client_def)

lemma exit_same:
  assumes "exit_thread p sv = Inr sv'" and "hm_inv (sv_active sv)"
  shows "hm_entries (sv_active sv') \<subseteq> hm_entries (sv_active sv) \<and> sv_groups sv' = sv_groups sv"
  using assms(1) entries_remove [OF assms(2)]
  by (fastforce simp: exit_thread_def Let_def split: if_splits elim!: and_then_InrE)

lemma serve_turn:
  assumes "serve env p sv = Some (Inr sv')"
  shows "\<exists>fd s. exit_thread p (put_sock fd s sv) = Inr sv' \<or>
    (\<exists>recv. turn_with env p recv sv sv' \<and> handle env p recv (put_sock fd s sv) = Some (Inr sv'))"
proof (rule serve_reads [OF assms])
  fix c :: client_thread_data and recv s
  assume "sv_data sv p = Some c" "read_main_header (en_malloc env) (en_stack env) (en_junk env)
        (sock_of sv (cl_connfd c)) = Inr (recv, s)"
    and "recv = None \<Longrightarrow> exit_thread p (put_sock (cl_connfd c) s sv) = Inr sv'"
    and "\<And>h. recv = Some h \<Longrightarrow> handle env p h (put_sock (cl_connfd c) s sv) = Some (Inr sv')"
  then show ?thesis using assms by (cases recv) (fastforce simp: turn_with_def)+
qed

lemma put_sock_same:
  "sv_active (put_sock fd s sv) = sv_active sv" "file_of (put_sock fd s sv) = file_of sv"
  "sv_groups (put_sock fd s sv) = sv_groups sv" "sv_inv (put_sock fd s sv) = sv_inv sv"
  using quiet_inv [OF quiet_upd(4)] by (simp_all add: put_sock_def file_of_def fun_eq_iff)

interpretation online: caused server_step sv_inv "\<lambda>sv e. e \<in> hm_entries (sv_active sv)" login_turn
proof unfold_locales
  fix sv sv' e
  assume inv: "sv_inv sv" and step: "server_step sv sv'" and new: "e \<in> hm_entries (sv_active sv')"
  have hm: "hm_inv (sv_active sv)" using inv by (simp add: sv_inv_def)
  show "e \<in> hm_entries (sv_active sv) \<or> login_turn sv sv' e"
    using step
  proof cases
    case (connect ac)
    then show ?thesis using accept_turn_same new by simp
  next
    case (turn p env)
    from serve_turn [OF turn(2)] show ?thesis
    proof (elim exE disjE conjE)
      fix fd s
      assume "exit_thread p (put_sock fd s sv) = Inr sv'"
      from exit_same [OF this] show ?thesis using hm new by (auto simp: put_sock_same)
    next
      fix fd s recv
      assume t: "turn_with env p recv sv sv'" and h: "handle env p recv (put_sock fd s sv) = Some (Inr sv')"
      from handle_entries [OF h _ new] hm t show ?thesis
        unfolding put_sock_same by (cases e) (fastforce simp: login_turn_def)
    qed
  qed
qed (rule step_keeps)

interpretation joined: caused server_step sv_inv "\<lambda>sv e. snd e \<in> members_of (sv_groups sv) (fst e)" join_turn
proof unfold_locales
  fix sv sv' e
  assume inv: "sv_inv sv" and step: "server_step sv sv'" and new: "snd e \<in> members_of (sv_groups sv') (fst e)"
  show "snd e \<in> members_of (sv_groups sv) (fst e) \<or> join_turn sv sv' e"
    using step
  proof cases
    case (connect ac)
    then show ?thesis using accept_turn_same new by simp
  next
    case (turn p env)
    from serve_turn [OF turn(2)] show ?thesis
    proof (elim exE disjE conjE)
      fix fd s
      assume "exit_thread p (put_sock fd s sv) = Inr sv'"
      from exit_same [OF this] show ?thesis using inv new by (simp add: put_sock_same sv_inv_def)
    next
      fix fd s recv
      assume t: "turn_with env p recv sv sv'" and h: "handle env p recv (put_sock fd s sv) = Some (Inr sv')"
      from handle_members [OF h _ new] inv t show ?thesis
        unfolding put_sock_same by (auto simp: join_turn_def)
    qed
  qed
qed (rule step_keeps)

section \<open>Properties\<close>

text \<open>A run of two steps: a client connects, and its first packet is handled.\<close>

definition sample_start :: server where
  "sample_start = init_server new_map sample_files"

definition calling :: "mainhdr \<Rightarrow> server" where
  "calling h = accept_client 7 4 (connection (map (\<lambda>c. Data [c]) (packet h))) zero_name sample_start"

lemma first_packet:
  assumes "sendable h" and "hdr_cmd h \<noteq> SEND_FILE"
    and "hdr_payload h = take (unat (hdr_len h)) (hdr_payload h) @ [nul]"
  shows "\<exists>ac. server_does (Connect ac) sample_start (calling h)"
    and "\<exists>s. serve sample_env 7 (calling h) = handle sample_env 7 h (put_sock 4 s (calling h)) \<and>
      connected (put_sock 4 s (calling h)) 7 \<lparr>cl_connfd = 4, cl_message_queue = zero_queue, cl_uid = -1,
        cl_username = zero_name, cl_file_id = 0\<rparr> \<and> sv_inv (put_sock 4 s (calling h)) \<and>
      (\<exists>s'. read_main_header (en_malloc sample_env) (en_stack sample_env) (en_junk sample_env)
        (sock_of (calling h) 4) = Inr (Some h, s'))"
proof -
  let ?s = "connection (map (\<lambda>c. Data [c]) (packet h))"
  have step: "accept_ok (accepting 7 4 ?s zero_name) sample_start" "accept_turn (accepting 7 4 ?s zero_name) sample_start = Inr (calling h)"
    "server_step sample_start (calling h)"
    unfolding calling_def by (rule step_accept; simp add: sample_start_def init_server_def zero_name_def)+
  then show "\<exists>ac. server_does (Connect ac) sample_start (calling h)" by (blast intro: server_does.connect)
  have "sv_inv sample_start" unfolding sample_start_def by (rule init_server_inv [OF new_map_new])
  then have inv: "sv_inv (calling h)" using step_keeps step(3) by blast
  have "clean ?s" "stream ?s = packet h @ []"
    using bytewise by (simp_all add: connection_def clean_def stream_def delivers_def)
  from read_main_header_ok [OF this assms(1,2), where malloc_ok = "en_malloc sample_env"
      and stack = "en_stack sample_env" and junk = "en_junk sample_env"]
  obtain s where s: "read_main_header (en_malloc sample_env) (en_stack sample_env) (en_junk sample_env) ?s =
      Inr (Some (h\<lparr>hdr_payload := take (unat (hdr_len h)) (hdr_payload h) @ [nul]\<rparr>), s)" "same_out ?s s"
    by (auto simp: sample_env_def)
  have "h\<lparr>hdr_payload := take (unat (hdr_len h)) (hdr_payload h) @ [nul]\<rparr> = h"
    by (simp only: assms(3) [symmetric]) simp
  then have header: "read_main_header (en_malloc sample_env) (en_stack sample_env) (en_junk sample_env)
      (sock_of (calling h) 4) = Inr (Some h, s)"
    using s(1) by (simp add: calling_def accept_client_def sock_of_def)
  have "serve sample_env 7 (calling h) = handle sample_env 7 h (put_sock 4 s (calling h))"
    using header by (simp add: serve_def load_client_def) (simp add: calling_def accept_client_def)
  moreover have "connected (put_sock 4 s (calling h)) 7 \<lparr>cl_connfd = 4, cl_message_queue = zero_queue, cl_uid = -1,
      cl_username = zero_name, cl_file_id = 0\<rparr>"
    using s(2) by (simp add: connected_def put_sock_def calling_def accept_client_def same_out_def connection_def)
  ultimately show "\<exists>s. serve sample_env 7 (calling h) = handle sample_env 7 h (put_sock 4 s (calling h)) \<and>
      connected (put_sock 4 s (calling h)) 7 \<lparr>cl_connfd = 4, cl_message_queue = zero_queue, cl_uid = -1,
        cl_username = zero_name, cl_file_id = 0\<rparr> \<and> sv_inv (put_sock 4 s (calling h)) \<and>
      (\<exists>s'. read_main_header (en_malloc sample_env) (en_stack sample_env) (en_junk sample_env)
        (sock_of (calling h) 4) = Inr (Some h, s'))"
    using inv header by (auto simp: put_sock_same)
qed

lemma calling_facts:
  "sv_data (calling h) 7 \<noteq> None" "sv_active (calling h) = new_map" "sv_groups (calling h) = replicate GROUP_NUM_MAX []"
  "file_of (calling h) CREDENTIAL_FILE_NAME = Some (cred_file sample_users)"
  by (simp_all add: calling_def sample_start_def init_server_def accept_client_def file_of_def
      sample_files_def norm_path_def CREDENTIAL_FILE_NAME_def)

lemma called:
  assumes "\<exists>ac. server_does (Connect ac) sample_start (calling h)" and "serve sample_env 7 (calling h) = Some (Inr sv)"
  shows "server_step\<^sup>*\<^sup>* sample_start sv"
  using server_step.turn [OF calling_facts(1) assms(2)] assms(1) does_step by (meson converse_rtranclp_into_rtranclp r_into_rtranclp)

lemma start_facts:
  assumes "server_main sc argv files = Running (fd, Some sv0)"
  shows "sv_inv sv0" "hm_entries (sv_active sv0) = {}" "members_of (sv_groups sv0) = (\<lambda>_. {})"
    "service_of sv0 = \<lparr>sr_accounts = (case files (norm_path CREDENTIAL_FILE_NAME) of None \<Rightarrow> [] | Some t \<Rightarrow> t),
       sr_sessions = Map.empty, sr_online = {#}, sr_room = INITIAL_SIZE, sr_members = (\<lambda>_. {})\<rparr>"
proof -
  obtain active where a: "hashmap_new (sc_malloc sc) (sc_calloc sc) = Some active" and sv0: "sv0 = init_server active files"
    using assms by (auto simp: server_main_running dest!: sym [of "Some _"])
  show "sv_inv sv0" using server_main_inv [OF assms] .
  show "hm_entries (sv_active sv0) = {}" using entries_new [OF a] by (simp add: sv0 init_server_def)
  show groups: "members_of (sv_groups sv0) = (\<lambda>_. {})"
    by (auto simp: sv0 init_server_def members_of_def fun_eq_iff)
  show "service_of sv0 = \<lparr>sr_accounts = (case files (norm_path CREDENTIAL_FILE_NAME) of None \<Rightarrow> [] | Some t \<Rightarrow> t),
       sr_sessions = Map.empty, sr_online = {#}, sr_room = INITIAL_SIZE, sr_members = (\<lambda>_. {})\<rparr>"
    using groups slots_new [OF a] hm_room_new [OF hashmap_new_Some [OF a]]
    by (simp add: service_of_def cred_text_def file_of_def) (simp add: sv0 init_server_def)
qed

text \<open>\<open>bob\<close>, who is user 2, connects and logs in.\<close>

lemma login_run:
  obtains ac sv where
    "traced server_does sample_start [Connect ac, Read sample_env 7 (Some (login_request USR_LOGIN ''bob'' ''pw''))] sv"
    "hm_lookup (sv_active sv) 2 = Some (Some 7)"
proof -
  let ?h = "login_request USR_LOGIN ''bob'' ''pw''"
  have h: "sendable ?h" "hdr_cmd ?h \<noteq> SEND_FILE" "hdr_payload ?h = take (unat (hdr_len ?h)) (hdr_payload ?h) @ [nul]"
    by (simp_all add: sendable_def login_request_def)
  obtain s where s: "serve sample_env 7 (calling ?h) = handle sample_env 7 ?h (put_sock 4 s (calling ?h))"
      "connected (put_sock 4 s (calling ?h)) 7 \<lparr>cl_connfd = 4, cl_message_queue = zero_queue, cl_uid = -1,
        cl_username = zero_name, cl_file_id = 0\<rparr>" "sv_inv (put_sock 4 s (calling ?h))"
      "\<exists>s'. read_main_header (en_malloc sample_env) (en_stack sample_env) (en_junk sample_env)
        (sock_of (calling ?h) 4) = Inr (Some ?h, s')"
    using first_packet(2) [OF h] by blast
  have k: "match_user_pw (file_of (put_sock 4 s (calling ?h)) CREDENTIAL_FILE_NAME) (name_buf ''bob'') (pw_buf ''pw'') = Inr 2"
    unfolding put_sock_same calling_facts using match_user_pw_cred [OF sample_rep c_str_bufs [OF sample_ok(3)]]
    by (simp add: sample_users_def)
  have room: "0 < hm_room (sv_active (put_sock 4 s (calling ?h)))"
    using hm_room_new [OF new_map_new] by (simp add: put_sock_same calling_facts INITIAL_SIZE_def)
  have mal: "en_malloc sample_env i" for i by (simp add: sample_env_def)
  from handle_usr_login_eq [OF s(3,2) room mal sample_ok(3) _ k] obtain sv where
    sv: "handle_usr_login sample_env 7 ?h (put_sock 4 s (calling ?h)) = Inr sv"
      "hm_lookup (sv_active sv) = (hm_lookup (sv_active (put_sock 4 s (calling ?h))))(2 \<mapsto> Some 7)" by auto
  then have run: "serve sample_env 7 (calling ?h) = Some (Inr sv)" using s(1) by (simp add: handle_def login_request_def)
  obtain c where c: "sv_data (calling ?h) 7 = Some c" "cl_connfd c = 4" by (simp add: calling_def accept_client_def)
  obtain ac where "server_does (Connect ac) sample_start (calling ?h)" using first_packet(1) [OF h] by blast
  moreover have "server_does (Read sample_env 7 (Some ?h)) (calling ?h) sv"
    using s(4) c server_does.read [OF c(1) _ run] by auto
  ultimately have "traced server_does sample_start [Connect ac, Read sample_env 7 (Some ?h)] sv"
    by (rule traced.step [OF traced.step [OF traced.start, of server_does, unfolded append_Nil], unfolded append_Cons append_Nil])
  moreover have "hm_lookup (sv_active sv) 2 = Some (Some 7)" using sv(2) by simp
  ultimately show ?thesis by (rule that)
qed

text \<open>C7: The server is a service, event by event. It starts with the accounts of the credential file,
  without sessions, with nobody online, room for 1024 entries and empty groups. Its runs are the runs
  with a list of events (a connection, or the packet that a thread reads, or that it reads none), and
  for every such list the service makes the same run: what each event does to the accounts, the
  sessions, the users online and the members of the groups is fixed by the event and the state, except
  which of several entries of one user is taken (lemma \<open>service_step_determined\<close>). So a registration appends its line exactly when the
  name is not taken, a login with accepted credentials enters its user while there is room, the end of a
  connection removes an entry of its user, and only a yes to an invitation and a new group change
  the members; nothing else changes anything. Among the calls that may fail are \<open>malloc\<close>, \<open>calloc\<close>,
  \<open>fopen\<close> for writing, the reads and writes of the sockets, and the start of a thread; a turn that
  crashes or blocks is no step. \<open>accept\<close>, \<open>fprintf\<close>, \<open>fwrite\<close> and the \<open>fopen\<close> of an existing file for
  reading are taken to succeed.\<close>

theorem server_refines_service:
  assumes "server_main sc argv files = Running (fd, Some sv0)"
  shows "service_of sv0 = \<lparr>sr_accounts = (case files (norm_path CREDENTIAL_FILE_NAME) of None \<Rightarrow> [] | Some t \<Rightarrow> t),
      sr_sessions = Map.empty, sr_online = {#}, sr_room = INITIAL_SIZE, sr_members = (\<lambda>_. {})\<rparr> \<and>
    (\<forall>sv. server_step\<^sup>*\<^sup>* sv0 sv \<longleftrightarrow> (\<exists>evs. traced server_does sv0 evs sv)) \<and>
    (\<forall>evs sv. traced server_does sv0 evs sv \<longrightarrow> traced service_step (service_of sv0) evs (service_of sv))"
  using service.run_spec start_facts(1,4) [OF assms] traced_steps [of server_step server_does, OF does_step] by blast

theorem server_refines_service_witness:
  "\<exists>ac sv. traced service_step
      \<lparr>sr_accounts = cred_file sample_users, sr_sessions = Map.empty, sr_online = {#}, sr_room = 1024, sr_members = (\<lambda>_. {})\<rparr>
      [Connect ac, Read sample_env 7 (Some (login_request USR_LOGIN ''bob'' ''pw''))] (service_of sv) \<and>
    (2, Some 7) \<in># sr_online (service_of sv)"
proof -
  obtain ac sv where run: "traced server_does sample_start
        [Connect ac, Read sample_env 7 (Some (login_request USR_LOGIN ''bob'' ''pw''))] sv"
      "hm_lookup (sv_active sv) 2 = Some (Some 7)" by (rule login_run)
  note start = server_refines_service [OF started_server [of sample_files], folded sample_start_def]
  have "service_of sample_start = \<lparr>sr_accounts = cred_file sample_users, sr_sessions = Map.empty, sr_online = {#},
      sr_room = 1024, sr_members = (\<lambda>_. {})\<rparr>"
    using start by (simp add: sample_files_def norm_names INITIAL_SIZE_def)
  moreover have "sv_inv sv" using service.run_spec [OF run(1)] start_facts(1) [OF started_server] by (simp add: sample_start_def)
  then have "(2, Some 7) \<in># sr_online (service_of sv)"
    using lookup_entry [of "sv_active sv" 2 7] run(2) by (simp add: service_of_def hm_entries_def sv_inv_def)
  ultimately show ?thesis using start run(1) by metis
qed

text \<open>C9: No one is online without a login. If, in a state that the server reaches from its start, the
  table of active users maps the number \<open>u\<close> to the connection \<open>p\<close>, then in some turn before, the thread
  of \<open>p\<close> has read a login packet whose name and password matched user \<open>u\<close> in the credential file of that
  time.\<close>

theorem online_by_login:
  assumes "server_main sc argv files = Running (fd, Some sv0)" and "server_step\<^sup>*\<^sup>* sv0 sv"
    and "hm_lookup (sv_active sv) u = Some (Some p)"
  shows "\<exists>t t'. server_step\<^sup>*\<^sup>* sv0 t \<and> login_turn t t' (u, p) \<and> server_step t t' \<and> server_step\<^sup>*\<^sup>* t' sv"
proof -
  note start = start_facts [OF assms(1)]
  have no: "(u, p) \<notin> hm_entries (sv_active sv0)" using start(2) by simp
  from online.has_cause [OF assms(2) start(1) no] have inv: "sv_inv sv" and cause: "(u, p) \<in> hm_entries (sv_active sv) \<longrightarrow>
      (\<exists>t t'. server_step\<^sup>*\<^sup>* sv0 t \<and> login_turn t t' (u, p) \<and> server_step t t' \<and> server_step\<^sup>*\<^sup>* t' sv)" by blast+
  have "(u, p) \<in> hm_entries (sv_active sv)" using inv assms(3) by (intro lookup_entry) (simp_all add: sv_inv_def)
  then show ?thesis using cause by blast
qed

theorem online_by_login_witness:
  "\<exists>sv t t'. server_step\<^sup>*\<^sup>* (init_server new_map sample_files) t \<and> login_turn t t' (2, 7) \<and> server_step t t' \<and>
    server_step\<^sup>*\<^sup>* t' sv"
proof -
  obtain ac sv where run: "traced server_does sample_start
        [Connect ac, Read sample_env 7 (Some (login_request USR_LOGIN ''bob'' ''pw''))] sv"
      "hm_lookup (sv_active sv) 2 = Some (Some 7)" by (rule login_run)
  then have "server_step\<^sup>*\<^sup>* (init_server new_map sample_files) sv"
    using traced_steps [of server_step server_does, OF does_step] by (auto simp: sample_start_def)
  from online_by_login [OF started_server this run(2)] show ?thesis by blast
qed

text \<open>C28: No one is in a group without a request. If, in a state that the server reaches from its start,
  the user \<open>u\<close> is in group \<open>i\<close>, then in some turn before, a client sent in this user's name the request for a
  new group, when group \<open>i\<close> was empty, or a yes to an invitation into group \<open>i\<close>, when it had members;
  and \<open>u\<close> is not 0. (Whether an invitation was sent is not asked.)\<close>

theorem members_by_request:
  assumes "server_main sc argv files = Running (fd, Some sv0)" and "server_step\<^sup>*\<^sup>* sv0 sv"
    and "i < GROUP_NUM_MAX" and "u \<in> set (sv_groups sv ! i)"
  shows "\<exists>t t'. server_step\<^sup>*\<^sup>* sv0 t \<and> join_turn t t' (i, u) \<and> server_step t t' \<and> server_step\<^sup>*\<^sup>* t' sv"
proof -
  note start = start_facts [OF assms(1)]
  have no: "\<not> snd (i, u) \<in> members_of (sv_groups sv0) (fst (i, u))" using start(3) by simp
  note cause = joined.has_cause [OF assms(2) start(1) no]
  then have "length (sv_groups sv) = GROUP_NUM_MAX" by (simp add: sv_inv_def groups_ok_def)
  then show ?thesis using cause assms(3,4) by (simp add: members_of_def)
qed

theorem members_by_request_witness:
  "\<exists>sv t t'. server_step\<^sup>*\<^sup>* (init_server new_map sample_files) t \<and> join_turn t t' (0, 2) \<and> server_step t t' \<and>
    server_step\<^sup>*\<^sup>* t' sv"
proof -
  let ?h = "sample_request CREATE_GROUP 0 2 [nul]"
  have h: "sendable ?h" "hdr_cmd ?h \<noteq> SEND_FILE" "hdr_payload ?h = take (unat (hdr_len ?h)) (hdr_payload ?h) @ [nul]"
    by (simp_all add: sendable_def sample_request_def)
  obtain s where s: "serve sample_env 7 (calling ?h) = handle sample_env 7 ?h (put_sock 4 s (calling ?h))"
      "connected (put_sock 4 s (calling ?h)) 7 \<lparr>cl_connfd = 4, cl_message_queue = zero_queue, cl_uid = -1,
        cl_username = zero_name, cl_file_id = 0\<rparr>" "sv_inv (put_sock 4 s (calling ?h))"
    using first_packet(2) [OF h] by blast
  have mal: "en_malloc sample_env i" for i by (simp add: sample_env_def)
  have g: "sv_groups (put_sock 4 s (calling ?h)) = replicate GROUP_NUM_MAX []" by (simp add: put_sock_same calling_facts)
  obtain sv where sv: "handle_create_group sample_env 7 ?h (put_sock 4 s (calling ?h)) = Inr sv"
      "sv_groups sv = (replicate GROUP_NUM_MAX [])[0 := [2]]"
    using create_group_free [OF s(3,2) mal, of 0 ?h] g by (auto simp: sample_request_def GROUP_NUM_MAX_def)
  then have "serve sample_env 7 (calling ?h) = Some (Inr sv)" using s(1) by (simp add: handle_def sample_request_def)
  from called [OF first_packet(1) [OF h] this]
  have run: "server_step\<^sup>*\<^sup>* (init_server new_map sample_files) sv" by (simp add: sample_start_def)
  have "2 \<in> set (sv_groups sv ! 0)" using sv(2) by (simp add: GROUP_NUM_MAX_def)
  from members_by_request [OF started_server run _ this] show ?thesis by (simp add: GROUP_NUM_MAX_def) blast
qed

end
