(* ===== verification/File_Races.thy ===== *)
theory File_Races
  imports Server_Files Interleaving
begin

text \<open>
  Several client threads that execute \<open>SEND_FILE\<close> at once. The name of the file is made from the shared
  counter \<open>file_cnt\<close>, which is then incremented, a load and a store, without a lock
  (\<open>src/chat-server.c\<close>); the file is written when its bytes have arrived. A download that reads while
  a file is written is not followed.
\<close>

section \<open>One upload\<close>

text \<open>
  A thread: the packet for a group and the bytes that follow it; the name is made; the counter is loaded;
  the counter is stored and the bytes are awaited; the file is written.
\<close>

datatype upload =
    Sent u8 "char list"
  | Named string "char list"
  | Loaded string "char list" int
  | Counted string "char list"
  | Stored string "char list"

fun upload_step :: "upload \<Rightarrow> server \<Rightarrow> (upload \<times> server) outcome" where
  "upload_step (Sent gid bytes) sv = Inr (Named (file_name gid (sv_file_cnt sv)) bytes, sv)"
| "upload_step (Named name bytes) sv = Inr (Loaded name bytes (sv_file_cnt sv), sv)"
| "upload_step (Loaded name bytes n) sv = Inr (Counted name bytes, sv\<lparr>sv_file_cnt := n + 1\<rparr>)"
| "upload_step (Counted name bytes) sv = Inr (Stored name bytes, set_file name (Some bytes) sv)"
| "upload_step (Stored name bytes) sv = Inr (Stored name bytes, sv)"

text \<open>What the command does after the file is written.\<close>

definition announce_file :: "env \<Rightarrow> mainhdr \<Rightarrow> string \<Rightarrow> server \<Rightarrow> server outcome" where
  "announce_file env recv filename sv =
     and_then (find_username (file_of sv CREDENTIAL_FILE_NAME) (hdr_uid recv) zero_name) (\<lambda>(len, username).
     and_then (new_packet env SEND_CHAT (hdr_gid recv) (hdr_uid recv)
         (of_int len + of_nat (length filename) + 17)) (\<lambda>send.
     and_then (c_str username) (\<lambda>name.
     and_then (snprintf_into (hdr_payload send) (unat (hdr_len send + 1))
         (name @ '' just send file '' @ filename)) (\<lambda>payload.
     forward_to_group env (hdr_gid send) (send\<lparr>hdr_payload := payload\<rparr>) sv))))"

lemma upload_alone:
  "gets upload_step (Sent gid bytes) sv (Stored (file_name gid (sv_file_cnt sv)) bytes)
    (set_file (file_name gid (sv_file_cnt sv)) (Some bytes) (sv\<lparr>sv_file_cnt := sv_file_cnt sv + 1\<rparr>))"
  by (rule gets_step, simp, rule gets_step, simp, rule gets_step, simp, rule gets_step, simp) simp

text \<open>Without interruption the command is the upload, followed by the notice.\<close>

lemma handle_send_file_uploads:
  assumes "sv_data sv p = Some c"
    and "receive_to_file (sock_of sv (cl_connfd c)) (sint (hdr_len recv)) (en_fopen env) = Some (Inr (r, Some bytes, s))"
  shows "\<exists>sv1. gets upload_step (Sent (hdr_gid recv) bytes) (put_sock (cl_connfd c) s sv)
      (Stored (file_name (hdr_gid recv) (sv_file_cnt sv)) bytes) sv1 \<and>
    handle_send_file env p recv sv = Some (announce_file env recv (file_name (hdr_gid recv) (sv_file_cnt sv)) sv1)"
proof -
  let ?sv = "put_sock (cl_connfd c) s sv"
  have sock: "sock_of (sv\<lparr>sv_file_cnt := n\<rparr>) fd = sock_of sv fd" for n fd by (simp add: sock_of_def)
  have swap: "put_sock (cl_connfd c) s (sv\<lparr>sv_file_cnt := n\<rparr>) = ?sv\<lparr>sv_file_cnt := n\<rparr>" for n by (simp add: put_sock_def)
  have cnt: "sv_file_cnt ?sv = sv_file_cnt sv" by (simp add: put_sock_def)
  show ?thesis
    using upload_alone [of "hdr_gid recv" bytes ?sv] assms
    by (intro exI conjI) (auto simp: cnt handle_send_file_def announce_file_def load_client_def sock swap Let_def)
qed

section \<open>Threads that number one at a time\<close>

fun numbering :: "upload \<Rightarrow> bool" where
  "numbering (Named name bytes) = True"
| "numbering (Loaded name bytes n) = True"
| "numbering u = False"

fun name_of :: "upload \<Rightarrow> string option" where
  "name_of (Counted name bytes) = Some name"
| "name_of (Stored name bytes) = Some name"
| "name_of u = None"

text \<open>No thread makes its name or counts while another one has made its name and not counted.\<close>

fun numbered_apart :: "nat list \<Rightarrow> upload list \<Rightarrow> server \<Rightarrow> bool" where
  "numbered_apart [] ts sv \<longleftrightarrow> True"
| "numbered_apart (i # is) ts sv \<longleftrightarrow> i < length ts \<and>
     (name_of (ts ! i) = None \<longrightarrow> (\<forall>j < length ts. j \<noteq> i \<longrightarrow> \<not> numbering (ts ! j))) \<and>
     (case upload_step (ts ! i) sv of Inl _ \<Rightarrow> True | Inr (t, sv') \<Rightarrow> numbered_apart is (ts[i := t]) sv')"

definition taken :: "int \<Rightarrow> int \<Rightarrow> string \<Rightarrow> bool" where
  "taken c0 c name \<longleftrightarrow> (\<exists>gid k. name = file_name gid k \<and> c0 \<le> k \<and> k < c)"

fun upload_ok :: "int \<Rightarrow> server \<Rightarrow> upload \<Rightarrow> bool" where
  "upload_ok c0 sv (Sent gid bytes) \<longleftrightarrow> True"
| "upload_ok c0 sv (Named name bytes) \<longleftrightarrow> (\<exists>gid. name = file_name gid (sv_file_cnt sv))"
| "upload_ok c0 sv (Loaded name bytes n) \<longleftrightarrow> n = sv_file_cnt sv \<and> (\<exists>gid. name = file_name gid n)"
| "upload_ok c0 sv (Counted name bytes) \<longleftrightarrow> taken c0 (sv_file_cnt sv) name"
| "upload_ok c0 sv (Stored name bytes) \<longleftrightarrow> taken c0 (sv_file_cnt sv) name \<and> file_of sv name = Some bytes"

definition uploads_inv :: "server \<Rightarrow> upload list \<Rightarrow> server \<Rightarrow> bool" where
  "uploads_inv sv0 ts sv \<longleftrightarrow> 0 \<le> sv_file_cnt sv0 \<and> sv_file_cnt sv0 \<le> sv_file_cnt sv \<and>
     sv_file_cnt sv + int (length (filter (\<lambda>t. name_of t = None) ts)) < 2 ^ 31 \<and>
     (\<forall>i < length ts. upload_ok (sv_file_cnt sv0) sv (ts ! i)) \<and>
     (\<forall>i < length ts. \<forall>j < length ts. i \<noteq> j \<longrightarrow> name_of (ts ! i) \<noteq> None \<longrightarrow> name_of (ts ! i) \<noteq> name_of (ts ! j)) \<and>
     (\<forall>gid m. 0 \<le> m \<longrightarrow> m < sv_file_cnt sv0 \<longrightarrow> file_of sv (file_name gid m) = file_of sv0 (file_name gid m))"

lemma uploads_distinct:
  assumes "uploads_inv sv0 ts sv" and "i < length ts" and "j < length ts" and "i \<noteq> j" and "name_of (ts ! i) = Some a"
  shows "name_of (ts ! j) \<noteq> Some a"
proof -
  have "name_of (ts ! i) \<noteq> None \<longrightarrow> name_of (ts ! i) \<noteq> name_of (ts ! j)"
    using assms(1-4) unfolding uploads_inv_def by blast
  then show ?thesis using assms(5) by auto
qed

lemma stored_other:
  "taken c0 c name \<or> (\<exists>gid k. name = file_name gid k) \<Longrightarrow> taken c0 c name' \<or> (\<exists>gid k. name' = file_name gid k) \<Longrightarrow>
    name' \<noteq> name \<Longrightarrow> file_of (set_file name b sv) name' = file_of sv name'"
  by (intro set_file_other) (auto simp: taken_def file_name_fresh(1) [OF refl])

lemma set_file_cnt [simp]: "sv_file_cnt (set_file name b sv) = sv_file_cnt sv"
  by (simp add: set_file_def)

lemma set_file_get [simp]: "file_of (set_file name b sv) name = b"
  by (simp add: file_of_def set_file_def)

lemma upload_ok_mono:
  assumes "upload_ok c0 sv t" and "\<not> numbering t"
  shows "upload_ok c0 (sv\<lparr>sv_file_cnt := sv_file_cnt sv + 1\<rparr>) t"
  using assms by (cases t) (force simp: taken_def file_of_def)+

lemma upload_ok_named: "upload_ok c0 sv t \<Longrightarrow> name_of t = Some name \<Longrightarrow> taken c0 (sv_file_cnt sv) name"
  by (cases t) auto

lemma uploads_inv_same:
  assumes "uploads_inv sv0 ts sv" and "i < length ts" and "upload_ok (sv_file_cnt sv0) sv t" and "name_of t = name_of (ts ! i)"
  shows "uploads_inv sv0 (ts[i := t]) sv"
proof -
  have "int (length (filter (\<lambda>t. name_of t = None) (ts[i := t]))) = int (length (filter (\<lambda>t. name_of t = None) ts))"
    using length_filter_update [OF assms(2), of "\<lambda>t. name_of t = None" t] assms(4) by simp
  moreover have "name_of (ts[i := t] ! j) = name_of (ts ! j)" for j
    using assms(2,4) by (cases "j = i") simp_all
  moreover have "upload_ok (sv_file_cnt sv0) sv (ts[i := t] ! j)" if "j < length ts" for j
    using assms(1-3) that by (cases "j = i") (simp_all add: uploads_inv_def)
  ultimately show ?thesis using assms(1) by (simp add: uploads_inv_def)
qed

lemma uploads_inv_count:
  assumes inv: "uploads_inv sv0 ts sv" and i: "i < length ts" "ts ! i = Loaded name bytes n"
    and apart: "\<forall>j < length ts. j \<noteq> i \<longrightarrow> \<not> numbering (ts ! j)"
  shows "uploads_inv sv0 (ts[i := Counted name bytes]) (sv\<lparr>sv_file_cnt := n + 1\<rparr>)"
proof -
  let ?lo = "sv_file_cnt sv0" and ?cnt = "sv_file_cnt sv" and ?P = "\<lambda>t. name_of t = None"
  have ok: "upload_ok ?lo sv (ts ! j)" if "j < length ts" for j using inv that by (simp add: uploads_inv_def)
  obtain gid where n: "n = ?cnt" "name = file_name gid ?cnt" using ok [OF i(1)] i(2) by auto
  have c: "0 \<le> ?lo" "?lo \<le> ?cnt" "?cnt + int (length (filter ?P ts)) < 2 ^ 31" using inv by (simp_all add: uploads_inv_def)
  have len: "int (length (filter ?P (ts[i := Counted name bytes]))) = int (length (filter ?P ts)) - 1"
    using length_filter_update [OF i(1), of ?P "Counted name bytes"] i(2) by simp
  have new: "name_of (ts ! j) \<noteq> Some name" if j: "j < length ts" for j
  proof
    assume "name_of (ts ! j) = Some name"
    from upload_ok_named [OF ok [OF j] this] obtain gid' k where k: "name = file_name gid' k" "?lo \<le> k" "k < ?cnt"
      by (auto simp: taken_def)
    then have "file_name gid' k = file_name gid ?cnt" using n(2) by simp
    moreover have "0 \<le> k" "k < 2 ^ 31" "0 \<le> ?cnt" using c k by linarith+
    ultimately have "k = ?cnt" by (rule file_name_distinct)
    then show False using k(3) by simp
  qed
  have names: "name_of (ts[i := Counted name bytes] ! j) = (if j = i then Some name else name_of (ts ! j))" for j
    using i(1) by simp
  have "upload_ok ?lo (sv\<lparr>sv_file_cnt := n + 1\<rparr>) (ts[i := Counted name bytes] ! j)" if j: "j < length ts" for j
  proof (cases "j = i")
    case True
    then show ?thesis using i(1) n c(2) by (auto simp: taken_def)
  next
    case False
    then show ?thesis using upload_ok_mono [OF ok [OF j]] apart j n(1) by simp
  qed
  moreover have "name_of (ts[i := Counted name bytes] ! j) \<noteq> name_of (ts[i := Counted name bytes] ! k)"
    if "j < length ts" "k < length ts" "j \<noteq> k" "name_of (ts[i := Counted name bytes] ! j) \<noteq> None" for j k
    using that uploads_distinct [OF inv that(1-3)] new [of j] new [of k] unfolding names by auto
  moreover have "n + 1 + int (length (filter ?P (ts[i := Counted name bytes]))) < 2 ^ 31" using len c(3) n(1) by simp
  moreover have "file_of (sv\<lparr>sv_file_cnt := n + 1\<rparr>) = file_of sv" by (simp add: file_of_def fun_eq_iff)
  ultimately show ?thesis using inv n(1) by (simp add: uploads_inv_def)
qed

lemma uploads_inv_store:
  assumes inv: "uploads_inv sv0 ts sv" and i: "i < length ts" "ts ! i = Counted name bytes"
  shows "uploads_inv sv0 (ts[i := Stored name bytes]) (set_file name (Some bytes) sv)"
proof -
  let ?lo = "sv_file_cnt sv0" and ?cnt = "sv_file_cnt sv" and ?sv = "set_file name (Some bytes) sv"
  have ok: "upload_ok ?lo sv (ts ! j)" if "j < length ts" for j using inv that by (simp add: uploads_inv_def)
  have c: "0 \<le> ?lo" "?cnt < 2 ^ 31" using inv by (simp_all add: uploads_inv_def)
  have t: "taken ?lo ?cnt name" using ok [OF i(1)] i(2) by simp
  have "upload_ok ?lo ?sv (ts ! j)" if j: "j < length ts" "j \<noteq> i" for j
  proof -
    have "name_of (ts ! j) \<noteq> Some name" using uploads_distinct [OF inv i(1) j(1)] j(2) i(2) by simp
    then have "ts ! j = Stored name' b \<Longrightarrow> file_of ?sv name' = file_of sv name'" for name' b
      using i(2) t ok [OF j(1)] by (intro stored_other [of ?lo ?cnt]) auto
    then show ?thesis using ok [OF j(1)] by (cases "ts ! j") simp_all
  qed
  moreover have "file_of ?sv (file_name gid m) = file_of sv (file_name gid m)" if "0 \<le> m" "m < ?lo" for gid m
  proof -
    obtain gid' k where k: "name = file_name gid' k" "?lo \<le> k" "k < ?cnt" using t by (auto simp: taken_def)
    have "file_name gid m \<noteq> name"
      using file_name_distinct [of gid m gid' k] k that c by auto
    then show ?thesis using t by (intro stored_other [of ?lo ?cnt]) auto
  qed
  moreover have "upload_ok ?lo ?sv (Stored name bytes)" using t by simp
  moreover have "upload_ok ?lo ?sv (ts ! i)" using t i(2) by simp
  ultimately have "uploads_inv sv0 ts ?sv" "upload_ok ?lo ?sv (Stored name bytes)"
    using inv unfolding uploads_inv_def by (simp_all, metis)
  then show ?thesis using uploads_inv_same [of sv0 ts ?sv i "Stored name bytes"] i by simp
qed

lemma uploads_inv_step:
  assumes inv: "uploads_inv sv0 ts sv" and i: "i < length ts"
    and apart: "name_of (ts ! i) = None \<longrightarrow> (\<forall>j < length ts. j \<noteq> i \<longrightarrow> \<not> numbering (ts ! j))"
    and step: "upload_step (ts ! i) sv = Inr (t, sv')"
  shows "uploads_inv sv0 (ts[i := t]) sv'"
proof -
  have ok: "upload_ok (sv_file_cnt sv0) sv (ts ! i)" using inv i by (simp add: uploads_inv_def)
  show ?thesis
  proof (cases "ts ! i")
    case (Sent gid bytes)
    then have t: "t = Named (file_name gid (sv_file_cnt sv)) bytes" "sv' = sv" using step by auto
    have "upload_ok (sv_file_cnt sv0) sv t" unfolding t by (simp, blast)
    then show ?thesis using uploads_inv_same [OF inv i, of t] Sent t by simp
  next
    case (Named name bytes)
    then have t: "t = Loaded name bytes (sv_file_cnt sv)" "sv' = sv" using step by auto
    have "upload_ok (sv_file_cnt sv0) sv t" using ok unfolding t Named by simp
    then show ?thesis using uploads_inv_same [OF inv i, of t] Named t by simp
  next
    case (Loaded name bytes n)
    then show ?thesis using step uploads_inv_count [OF inv i Loaded] apart by simp
  next
    case (Counted name bytes)
    then show ?thesis using step uploads_inv_store [OF inv i Counted] by simp
  next
    case (Stored name bytes)
    then have "t = ts ! i" "sv' = sv" using step by auto
    then show ?thesis using inv by simp
  qed
qed

lemma uploads_run:
  assumes "run_schedule upload_step schedule ts sv = Inr (ts', sv')" and "numbered_apart schedule ts sv"
    and "uploads_inv sv0 ts sv"
  shows "uploads_inv sv0 ts' sv' \<and> length ts' = length ts"
  using assms
proof (induction schedule arbitrary: ts sv)
  case (Cons i schedule ts sv)
  then obtain t sv1 where step: "upload_step (ts ! i) sv = Inr (t, sv1)"
      "run_schedule upload_step schedule (ts[i := t]) sv1 = Inr (ts', sv')"
    by (auto elim!: and_then_InrE)
  have apart: "i < length ts" "name_of (ts ! i) = None \<longrightarrow> (\<forall>j < length ts. j \<noteq> i \<longrightarrow> \<not> numbering (ts ! j))"
      "numbered_apart schedule (ts[i := t]) sv1"
    using Cons.prems(2) step(1) by simp_all
  from Cons.IH [OF step(2) apart(3) uploads_inv_step [OF Cons.prems(3) apart(1,2) step(1)]] show ?case by simp
qed simp

fun bytes_of :: "upload \<Rightarrow> char list" where
  "bytes_of (Sent gid bytes) = bytes"
| "bytes_of (Named name bytes) = bytes"
| "bytes_of (Loaded name bytes n) = bytes"
| "bytes_of (Counted name bytes) = bytes"
| "bytes_of (Stored name bytes) = bytes"

lemma bytes_step: "upload_step t sv = Inr (t', sv') \<Longrightarrow> bytes_of t' = bytes_of t"
  by (cases t) auto

lemma bytes_run:
  "run_schedule upload_step schedule ts sv = Inr (ts', sv') \<Longrightarrow> map bytes_of ts' = map bytes_of ts"
proof (induction schedule arbitrary: ts sv)
  case (Cons i schedule ts sv)
  then obtain t sv1 where "upload_step (ts ! i) sv = Inr (t, sv1)"
      "run_schedule upload_step schedule (ts[i := t]) sv1 = Inr (ts', sv')"
    by (auto elim!: and_then_InrE)
  then show ?case using Cons.IH bytes_step
    by (cases "i < length ts") (simp_all add: map_update list_update_same_conv list_update_beyond)
qed simp

lemma uploads_start:
  assumes "\<forall>t \<in> set ts. \<exists>gid bytes. t = Sent gid bytes" and "0 \<le> sv_file_cnt sv"
    and "sv_file_cnt sv + int (length ts) < 2 ^ 31"
  shows "uploads_inv sv ts sv"
proof -
  have all: "\<exists>gid bytes. ts ! i = Sent gid bytes" if "i < length ts" for i using assms(1) that by simp
  have "filter (\<lambda>t. name_of t = None) ts = ts" using assms(1) by (intro filter_True) auto
  then show ?thesis using assms(2,3) all unfolding uploads_inv_def by (fastforce dest: all)
qed

section \<open>Threads that number at the same time\<close>

text \<open>Two members send a file to one group; both make the name before either counts.\<close>

lemma uploads_race:
  "\<exists>schedule. run_schedule upload_step schedule [Sent gid a, Sent gid b] sv =
    Inr ([Stored (file_name gid (sv_file_cnt sv)) a, Stored (file_name gid (sv_file_cnt sv)) b],
      set_file (file_name gid (sv_file_cnt sv)) (Some b)
        (set_file (file_name gid (sv_file_cnt sv)) (Some a) (sv\<lparr>sv_file_cnt := sv_file_cnt sv + 1\<rparr>)))"
  by (rule exI [of _ "[0, 1, 0, 1, 0, 1, 0, 1]"]) simp

section \<open>Properties\<close>

text \<open>C22: Uploads by any number of threads. If no thread makes the name of its file or counts while
  another one has made its name and not yet counted, then, wherever else the threads interrupt each
  other, each file that was written has its own name and still the bytes that its sender sent, and all
  files stored before are as they were. (Lemma \<open>handle_send_file_uploads\<close>: these steps are what the
  command does; lemma \<open>uploads_race\<close>: two threads that make their names at the same time lose a file.)\<close>

theorem uploads_numbered:
  assumes "\<forall>t \<in> set ts. \<exists>gid bytes. t = Sent gid bytes" and "0 \<le> sv_file_cnt sv"
    and "sv_file_cnt sv + int (length ts) < 2 ^ 31"
    and "run_schedule upload_step schedule ts sv = Inr (ts', sv')" and "numbered_apart schedule ts sv"
    and "i < length ts" and "ts ! i = Sent gid bytes" and "ts' ! i = Stored name bytes'"
  shows "bytes' = bytes \<and> file_of sv' name = Some bytes \<and>
    (\<forall>j < length ts. j \<noteq> i \<longrightarrow> name_of (ts' ! j) \<noteq> Some name) \<and>
    (\<forall>gid m. 0 \<le> m \<longrightarrow> m < sv_file_cnt sv \<longrightarrow> file_of sv' (file_name gid m) = file_of sv (file_name gid m))"
proof -
  from uploads_run [OF assms(4,5) uploads_start [OF assms(1-3)]] have inv: "uploads_inv sv ts' sv'"
    and len: "length ts' = length ts" by blast+
  have "bytes_of (ts' ! i) = bytes_of (ts ! i)" using bytes_run [OF assms(4)] assms(6) len by (metis nth_map)
  then have "bytes' = bytes" using assms(7,8) by simp
  moreover have "upload_ok (sv_file_cnt sv) sv' (ts' ! i)" using inv assms(6) len by (simp add: uploads_inv_def)
  moreover have "name_of (ts' ! j) \<noteq> Some name" if "j < length ts" "j \<noteq> i" for j
    using uploads_distinct [OF inv, of i j name] that assms(6,8) len by simp
  ultimately show ?thesis using assms(8) inv by (simp add: uploads_inv_def)
qed

theorem uploads_numbered_witness:
  "\<exists>sv'. run_schedule upload_step [0, 0, 0, 1, 1, 1, 1, 0] [Sent 3 ''a'', Sent 3 ''b''] registering =
      Inr ([Stored (file_name 3 1) ''a'', Stored (file_name 3 2) ''b''], sv') \<and>
    ''a'' = ''a'' \<and> file_of sv' (file_name 3 1) = Some ''a'' \<and>
    (\<forall>j < length [Sent 3 ''a'', Sent 3 ''b'']. j \<noteq> 0 \<longrightarrow>
      name_of ([Stored (file_name 3 1) ''a'', Stored (file_name 3 2) ''b''] ! j) \<noteq> Some (file_name 3 1)) \<and>
    (\<forall>gid m. 0 \<le> m \<longrightarrow> m < sv_file_cnt registering \<longrightarrow>
      file_of sv' (file_name gid m) = file_of registering (file_name gid m))"
proof -
  let ?ts = "[Sent 3 ''a'', Sent 3 ''b'']" and ?ts' = "[Stored (file_name 3 1) ''a'', Stored (file_name 3 2) ''b'']"
  have cnt: "sv_file_cnt registering = 1" by (simp add: registering_def accept_client_def init_server_def)
  obtain sv' where run: "run_schedule upload_step [0, 0, 0, 1, 1, 1, 1, 0] ?ts registering = Inr (?ts', sv')"
    by (simp add: cnt)
  have apart: "numbered_apart [0, 0, 0, 1, 1, 1, 1, 0] ?ts registering" by (simp add: less_Suc_eq)
  from uploads_numbered [OF _ _ _ run apart, of 0 3 "''a''" "file_name 3 1" "''a''"] run cnt show ?thesis
    by (intro exI [of _ sv']) auto
qed

end
