(* ===== verification/Window_Files.thy ===== *)
theory Window_Files
  imports File_Sharing
begin

text \<open>
  Files sent and downloaded with the commands of a group's window, over the server. In a window the
  length of the name is known from the length of the line, so that nothing depends on what the allocator
  left behind the last word; but the line itself must end in the buffer.
\<close>

section \<open>The commands\<close>

lemma window_words:
  assumes "nul \<notin> set word" and "space \<notin> set word" and "nul \<notin> set name" and "space \<notin> set name"
  shows "c_str ((word @ space # name) @ nul # rest) = Inr (word @ space # name)"
    and "\<exists>j. split junk ((word @ space # name) @ nul # rest) space = Inr (2, [word @ [nul], name @ [j]])"
proof -
  show str: "c_str ((word @ space # name) @ nul # rest) = Inr (word @ space # name)"
    using c_str_terminated [of "word @ space # name" rest] assms(1,3) by (simp add: nul_def)
  show "\<exists>j. split junk ((word @ space # name) @ nul # rest) space = Inr (2, [word @ [nul], name @ [j]])"
    by (rule split_two [OF str assms(2,4)])
qed

lemma file_name_copied:
  assumes "nul \<notin> set name" and "length name < 100"
  shows "strncpy (replicate 100 nul) (name @ [j]) (length name) = Inr (name @ replicate (100 - length name) nul)"
    and "c_str (name @ replicate (100 - length name) nul) = Inr name"
  using strncpy_exact [OF assms(1), of "replicate 100 nul" "[j]"] assms
  by (simp_all add: c_str_replicate del: replicate.simps)

lemma window_download:
  assumes "plain_name name" and "\<And>n. ce_malloc ce n"
  shows "handle_window_line ce gid sockfd ((''/download'' @ space # name) @ nul # rest) (int (10 + length name)) cl =
    and_then (queue_outgoing (download_packet gid (ct_my_uid cl) name) (uint DOWNLOAD_FILE) cl) (\<lambda>cl. Inr (True, cl))"
proof -
  let ?msg = "(''/download'' @ space # name) @ nul # rest"
  have n: "nul \<notin> set name" "space \<notin> set name" "length name < 100" using assms(1) by (auto simp: plain_name_def)
  have w: "nul \<notin> set ''/download''" "space \<notin> set ''/download''" by (simp_all add: nul_def)
  obtain j where sp: "split (ce_split ce) ?msg space = Inr (2, [''/download'' @ [nul], name @ [j]])"
    using window_words(2) [OF w n(1,2)] by blast
  have line: "nul \<notin> set (''/download'' @ space # name)" using n(1) by (simp add: nul_def)
  have cmp: "strncmp_eq ?msg ''/invite '' 8 = Inr False" "strncmp_eq ?msg ''/download '' 10 = Inr True"
    using strncmp_eq_prefix [OF line, of "''/invite ''" 8 rest "[]"]
      strncmp_eq_prefix [OF line, of "''/download ''" 10 rest "[]"] by (simp_all add: nul_def)
  have size: "size_t (int (10 + length name) - 10) = length name" using n(3) by (simp add: size_t_def)
  have mk: "make_packet ce DOWNLOAD_FILE gid (ct_my_uid cl) (of_nat (length name)) = Inr
      \<lparr>hdr_cmd = DOWNLOAD_FILE, hdr_gid = gid, hdr_uid = ct_my_uid cl, hdr_len = of_nat (length name),
       hdr_payload = replicate (length name + 1) nul\<rparr>"
    by (rule make_packet_zeroed) (use assms(2) n(3) in auto)
  have "drop (length name) (replicate (length name + 1) nul) = [nul]"
    by (simp only: drop_replicate) simp
  then have cp: "strncpy (replicate (length name + 1) nul) (name @ replicate (100 - length name) nul)
      (length name) = Inr (name @ [nul])"
    using strncpy_exact [OF n(1), of "replicate (length name + 1) nul"] by simp
  show ?thesis
    using sp cmp size mk cp file_name_copied(1) [OF n(1,3), of j] file_name_copied(2) [OF n(1,3)]
    by (simp add: handle_window_line_def input_def packet_with_def download_packet_def del: replicate.simps)
qed

lemma window_send_file:
  assumes "plain_name name"
  shows "handle_window_line ce gid (ct_sockfd cl) ((''/send_file'' @ space # name) @ nul # rest) (int (11 + length name)) cl =
    Inr (True, cl\<lparr>ct_sock := snd (send_file (ct_sock cl) gid (ct_my_uid cl) (ct_files cl name))\<rparr>)"
proof -
  let ?msg = "(''/send_file'' @ space # name) @ nul # rest"
  have n: "nul \<notin> set name" "space \<notin> set name" "length name < 100" using assms(1) by (auto simp: plain_name_def)
  have w: "nul \<notin> set ''/send_file''" "space \<notin> set ''/send_file''" by (simp_all add: nul_def)
  note str = window_words(1) [OF w n(1,2)]
  obtain j where sp: "split (ce_split ce) ?msg space = Inr (2, [''/send_file'' @ [nul], name @ [j]])"
    using window_words(2) [OF w n(1,2)] by blast
  have line: "nul \<notin> set (''/send_file'' @ space # name)" using n(1) by (simp add: nul_def)
  have cmp: "strncmp_eq ?msg ''/invite '' 8 = Inr False" "strncmp_eq ?msg ''/download '' 10 = Inr False"
      "strncmp_eq ?msg ''/send_file '' 11 = Inr True"
    using strncmp_eq_prefix [OF line, of "''/invite ''" 8 rest "[]"]
      strncmp_eq_prefix [OF line, of "''/download ''" 10 rest "[]"]
      strncmp_eq_prefix [OF line, of "''/send_file ''" 11 rest "[]"] by (simp_all add: nul_def)
  have size: "size_t (int (11 + length name) - 11) = length name" using n(3) by (simp add: size_t_def)
  show ?thesis
    using sp cmp size str file_name_copied(1) [OF n(1,3), of j] file_name_copied(2) [OF n(1,3)]
    by (simp add: handle_window_line_def input_def del: replicate.simps)
qed

section \<open>The turns of the windows\<close>

lemma line_ends:
  assumes "length line < length msg" and "msg ! length line = nul"
  shows "line @ drop (length line) msg = line @ nul # drop (Suc (length line)) msg"
  using Cons_nth_drop_Suc [OF assms(1)] assms(2) by simp

lemma window_uploaded:
  assumes "about_to_send ce ev p (''/send_file'' @ space # name) cb cl" and "length msg = MAX_MSG_SIZE"
    and "msg ! (11 + length name) = nul" and "plain_name name" and "ct_files cl name = Some content"
    and "length content < 2 ^ 31"
  shows "\<exists>cb' msg' cl1. gui_turn ce gid (ct_sockfd cl) (Some p) (Some (Key_Release ev)) [] cb msg cl =
      Inr (cb', msg', cl1) \<and>
    new_bytes (ct_sock cl) (ct_sock cl1) = file_bytes gid (ct_my_uid cl) content"
proof -
  let ?line = "''/send_file'' @ space # name"
  note A = assms(1) [unfolded about_to_send_def]
  then have inv: "client_inv cl" and line: "shows_line cb ?line" and quiet: "sk_accept (ct_sock cl) = []"
    and key: "cb_works cb" "released_keysym True (ce_x ce) ev = Inr XK_Return" and mal: "ce_malloc ce = (\<lambda>_. True)" by blast+
  have len: "length ?line = 11 + length name" by simp
  have "length ?line < length msg" using line assms(2) by (simp only: shows_line_def)
  from line_ends [OF this] have ends: "?line @ drop (length ?line) msg = ?line @ nul # drop (Suc (length ?line)) msg"
    unfolding len using assms(3) by blast
  from return_code [OF line key assms(2)] obtain cb' where cb':
    "chatbox_read_input True (ce_x ce) cb (Some (Key_Release ev)) msg =
      Inr (int (length ?line), cb', ?line @ drop (length ?line) msg)" by blast
  let ?cl = "cl\<lparr>ct_sock := snd (send_file (ct_sock cl) gid (ct_my_uid cl) (Some content))\<rparr>"
  have "handle_window_line ce gid (ct_sockfd cl) (?line @ drop (length ?line) msg) (int (length ?line)) cl = Inr (True, ?cl)"
    unfolding ends unfolding len using window_send_file [OF assms(4), of ce gid cl] assms(5) by simp
  moreover have "pending ?cl (Window p) = Some []" using A by (simp add: pending_def)
  with client_inv_sock inv have "show_message (Some p) [] cb' ?cl = Inr (cb', ?cl)"
    by (intro show_message_none) auto
  ultimately have "gui_turn ce gid (ct_sockfd cl) (Some p) (Some (Key_Release ev)) [] cb msg cl =
      Inr (cb', ?line @ drop (length ?line) msg, ?cl)"
    using cb' mal by (simp add: gui_turn_def del: append.simps)
  moreover have "new_bytes (ct_sock cl) (ct_sock ?cl) = file_bytes gid (ct_my_uid cl) content"
    using send_file_all [OF quiet assms(6)] by (simp add: new_bytes_def file_bytes_def)
  ultimately show ?thesis by blast
qed

lemma window_requested:
  assumes "about_to_send ce ev p (''/download'' @ space # name) cb cl" and "length msg = MAX_MSG_SIZE"
    and "msg ! (10 + length name) = nul" and "plain_name name"
  shows "\<exists>cb' msg' cl1 cl2. gui_turn ce gid fd (Some p) (Some (Key_Release ev)) [] cb msg cl =
      Inr (cb', msg', cl1) \<and> server_write_turn cl1 = Some (Inr cl2) \<and>
    new_bytes (ct_sock cl) (ct_sock cl2) = packet (download_packet gid (ct_my_uid cl) name) \<and>
    sk_in (ct_sock cl2) = sk_in (ct_sock cl) \<and> ct_my_uid cl2 = ct_my_uid cl"
proof -
  let ?line = "''/download'' @ space # name"
  have mal: "ce_malloc ce n" and line: "shows_line cb ?line" for n
    using assms(1) by (auto simp: about_to_send_def)
  have len: "length ?line = 10 + length name" by simp
  have "length ?line < length msg" using line assms(2) by (simp only: shows_line_def)
  from line_ends [OF this] have ends: "?line @ drop (length ?line) msg = ?line @ nul # drop (Suc (length ?line)) msg"
    unfolding len using assms(3) by blast
  have "length name < 2 ^ 30" using assms(4) by (simp add: plain_name_def)
  then have h: "sendable (download_packet gid (ct_my_uid cl) name)"
    by (simp add: sendable_def download_packet_def unat_of_nat)
  have "handle_window_line ce gid fd (?line @ drop (length ?line) msg) (int (length ?line)) cl =
      and_then (queue_outgoing (download_packet gid (ct_my_uid cl) name) (uint DOWNLOAD_FILE) cl) (\<lambda>cl. Inr (True, cl))"
    unfolding ends unfolding len by (rule window_download [OF assms(4) mal])
  from command_sent [OF assms(1,2) h this] show ?thesis by blast
qed

section \<open>Properties\<close>

text \<open>C5: A file from window to window. When a member enters \<open>/send_file\<close> with one of its files in the
  window of a group and another member later enters \<open>/download\<close> with the name the server gave it, the
  file that the second client stores has the same content, however the transport cuts the bytes. Both
  lines must end in the buffer of the window's thread, which the window does not see to, and the
  thread of the sender must have got the descriptor of the connection (lemma \<open>thread_args_descriptor\<close>
  says when its argument carries it).\<close>

theorem window_file_end_to_end:
  assumes "delivers chop"
    and "about_to_send cea eva pa (''/send_file'' @ space # name) cba a" and "length msga = MAX_MSG_SIZE"
    and "msga ! (11 + length name) = nul" and "plain_name name" and "ct_files a name = Some content"
    and "length content < 2 ^ 31"
    and "serves_group env p gid (ct_my_uid a) g us fd sv" and "en_fopen env"
    and "f = file_name gid (sv_file_cnt sv)" and "0 \<le> sv_file_cnt sv" and "sv_file_cnt sv < 2 ^ 31"
    and "sv_data sv q = Some d" and "cl_connfd d \<noteq> fd" and "sv_socks sv (cl_connfd d) = Some t"
    and "clean t" and "stream t = []"
    and "about_to_send ceb evb pb (''/download'' @ space # f) cbb b" and "length msgb = MAX_MSG_SIZE"
    and "msgb ! (10 + length f) = nul" and "clean (ct_sock b)" and "stream (ct_sock b) = []"
    and "length (ce_stack ceb) = HDR_SIZE" and "ce_fopen ceb" and "ct_my_uid b \<in> set g"
    and "en_split env 0 1 (length (print_nat (nat (sv_file_cnt sv)) @ ''.file'')) = nul"
  shows "\<exists>cb1 msg1 a' sv1 t1 cb2 msg2 b1 b2 sv2 t2 b3.
    gui_turn cea gid (ct_sockfd a) (Some pa) (Some (Key_Release eva)) [] cba msga a = Inr (cb1, msg1, a') \<and>
    serve env p (arrive_at fd (chop (new_bytes (ct_sock a) (ct_sock a'))) sv) = Some (Inr sv1) \<and>
    file_of sv1 f = Some content \<and> sv_socks sv1 (cl_connfd d) = Some t1 \<and>
    gui_turn ceb gid fdb (Some pb) (Some (Key_Release evb)) [] cbb msgb b = Inr (cb2, msg2, b1) \<and>
    server_write_turn b1 = Some (Inr b2) \<and>
    serve env q (arrive_at (cl_connfd d) (chop (new_bytes (ct_sock b) (ct_sock b2))) sv1) = Some (Inr sv2) \<and>
    sv_socks sv2 (cl_connfd d) = Some t2 \<and>
    server_read_turn ceb (b2\<lparr>ct_sock := arrive (chop (new_bytes t1 t2)) (ct_sock b2)\<rparr>) = Some (Inr (True, b3)) \<and>
    ct_files b3 (cfile_name (ct_my_uid b) gid (of_int (sv_file_cnt sv))) = Some content"
proof -
  from window_uploaded [OF assms(2-7), of gid] obtain cb1 msg1 a' where 1:
    "gui_turn cea gid (ct_sockfd a) (Some pa) (Some (Key_Release eva)) [] cba msga a = Inr (cb1, msg1, a')"
    "new_bytes (ct_sock a) (ct_sock a') = file_bytes gid (ct_my_uid a) content" by blast
  have name: "plain_name f" unfolding assms(10) by (rule file_name_parts(3) [OF assms(11,12)])
  from window_requested [OF assms(18-20) name, of gid fdb] obtain cb2 msg2 b1 b2 where 2:
    "gui_turn ceb gid fdb (Some pb) (Some (Key_Release evb)) [] cbb msgb b = Inr (cb2, msg2, b1)"
    "server_write_turn b1 = Some (Inr b2)"
    "new_bytes (ct_sock b) (ct_sock b2) = packet (download_packet gid (ct_my_uid b) f)"
    "sk_in (ct_sock b2) = sk_in (ct_sock b)" "ct_my_uid b2 = ct_my_uid b" by blast
  have "clean (ct_sock b2)" "stream (ct_sock b2) = []" "\<And>n. ce_malloc ceb n"
    using assms(18,21,22) 2(4) by (simp_all add: clean_def stream_def about_to_send_def)
  from file_through_server [OF assms(1,8,9,7,10-17,25,26) this assms(23,24)] 2(5) obtain sv1 t1 sv2 t2 b3 where
    "serve env p (arrive_at fd (chop (file_bytes gid (ct_my_uid a) content)) sv) = Some (Inr sv1)"
    "file_of sv1 f = Some content" "sv_socks sv1 (cl_connfd d) = Some t1"
    "serve env q (arrive_at (cl_connfd d) (chop (packet (download_packet gid (ct_my_uid b) f))) sv1) = Some (Inr sv2)"
    "sv_socks sv2 (cl_connfd d) = Some t2"
    "server_read_turn ceb (b2\<lparr>ct_sock := arrive (chop (new_bytes t1 t2)) (ct_sock b2)\<rparr>) = Some (Inr (True, b3))"
    "ct_files b3 (cfile_name (ct_my_uid b) gid (of_int (sv_file_cnt sv))) = Some content"
    by metis
  then show ?thesis
    using 1 2(1-3) by (intro exI [of _ cb1] exI [of _ msg1] exI [of _ a'] exI [of _ sv1] exI [of _ t1] exI [of _ cb2]
        exI [of _ msg2] exI [of _ b1] exI [of _ b2] exI [of _ sv2] exI [of _ t2] exI [of _ b3]) simp
qed

text \<open>Users 1 and 2 with a window for group 0 each; user 1 has a file.\<close>

definition ann_window :: client where
  "ann_window = member_client\<lparr>ct_my_uid := 1, ct_files := [''notes'' \<mapsto> ''hello'']\<rparr>"

definition bob_window :: client where
  "bob_window = member_client\<lparr>ct_my_uid := 2\<rparr>"

lemma windows_ready:
  assumes "nul \<notin> set s" and "s \<noteq> []" and "length s < MAX_MSG_SIZE"
  shows "about_to_send sample_client_env return_key 0 s (typed_box s) ann_window"
    and "about_to_send sample_client_env return_key 0 s (typed_box s) bob_window"
  using sample_sender [OF assms]
  by (simp_all add: about_to_send_def ann_window_def bob_window_def pending_def)

theorem window_file_end_to_end_witness:
  "\<exists>cb1 msg1 a' sv1 t1 cb2 msg2 b1 b2 sv2 t2 b3.
    gui_turn sample_client_env 0 (ct_sockfd ann_window) (Some 0) (Some (Key_Release return_key)) []
      (typed_box (''/send_file'' @ space # ''notes'')) (replicate MAX_MSG_SIZE nul) ann_window = Inr (cb1, msg1, a') \<and>
    serve sample_env 7 (arrive_at 4 (map (\<lambda>c. Data [c]) (new_bytes (ct_sock ann_window) (ct_sock a'))) pair_server) =
      Some (Inr sv1) \<and>
    file_of sv1 (file_name 0 1) = Some ''hello'' \<and> sv_socks sv1 5 = Some t1 \<and>
    gui_turn sample_client_env 0 3 (Some 0) (Some (Key_Release return_key)) []
      (typed_box (''/download'' @ space # file_name 0 1)) (replicate MAX_MSG_SIZE nul) bob_window = Inr (cb2, msg2, b1) \<and>
    server_write_turn b1 = Some (Inr b2) \<and>
    serve sample_env 8 (arrive_at 5 (map (\<lambda>c. Data [c]) (new_bytes (ct_sock bob_window) (ct_sock b2))) sv1) =
      Some (Inr sv2) \<and>
    sv_socks sv2 5 = Some t2 \<and>
    server_read_turn sample_client_env
      (b2\<lparr>ct_sock := arrive (map (\<lambda>c. Data [c]) (new_bytes t1 t2)) (ct_sock b2)\<rparr>) = Some (Inr (True, b3)) \<and>
    ct_files b3 (cfile_name 2 0 1) = Some ''hello''"
proof -
  have cnt: "sv_file_cnt pair_server = 1" by (simp add: pair_server_def talk_server_socks)
  have data: "sv_data pair_server 8 = Some \<lparr>cl_connfd = 5, cl_message_queue = zero_queue, cl_uid = -1,
      cl_username = zero_name, cl_file_id = 0\<rparr>" by (simp add: pair_server_def talk_server_facts)
  have serves: "serves_group sample_env 7 0 (ct_my_uid ann_window) [1, 2] sample_users 4 pair_server"
    using pair_server_serves by (simp add: ann_window_def)
  have F: "length (file_name 0 1) \<le> 19" "nul \<notin> set (file_name 0 1)"
    using file_name_parts [of 1 0] by (simp_all add: plain_name_def)
  have short: "length (''/download'' @ space # file_name 0 1) < MAX_MSG_SIZE" "10 + length (file_name 0 1) < MAX_MSG_SIZE"
    using F(1) by (simp_all add: MAX_MSG_SIZE_def)
  have a: "about_to_send sample_client_env return_key 0 (''/send_file'' @ space # ''notes'')
      (typed_box (''/send_file'' @ space # ''notes'')) ann_window"
    by (rule windows_ready(1)) (simp_all add: nul_def MAX_MSG_SIZE_def)
  have b: "about_to_send sample_client_env return_key 0 (''/download'' @ space # file_name 0 1)
      (typed_box (''/download'' @ space # file_name 0 1)) bob_window"
    by (rule windows_ready(2) [OF _ _ short(1)]) (use F(2) in \<open>simp_all add: nul_def\<close>)
  have idle: "sv_socks pair_server 5 = Some (connection [])" "clean (connection [])" "stream (connection []) = []"
    by (simp_all add: pair_server_def talk_server_socks connection_def clean_def stream_def)
  have bob: "clean (ct_sock bob_window)" "stream (ct_sock bob_window) = []" "ct_my_uid bob_window = 2"
    using member_client_facts by (simp_all add: bob_window_def clean_def stream_def connection_def)
  have ann: "ct_files ann_window ''notes'' = Some ''hello''" by (simp add: ann_window_def)
  have env: "ce_fopen sample_client_env" "en_fopen sample_env" "en_split sample_env = (\<lambda>_ _ _. nul)"
      "length (ce_stack sample_client_env) = HDR_SIZE"
    by (simp_all add: sample_client_env_def sample_env_def)
  have buf: "replicate MAX_MSG_SIZE nul ! (11 + length ''notes'') = nul"
    "replicate MAX_MSG_SIZE nul ! (10 + length (file_name 0 1)) = nul"
    using short(2) by (simp_all add: MAX_MSG_SIZE_def)
  have f: "file_name 0 1 = file_name 0 (sv_file_cnt pair_server)" by (simp only: cnt)
  show ?thesis
    using window_file_end_to_end [OF bytewise a length_replicate buf(1) _ ann _ serves env(2) f _ _ data _ _ idle(2,3)
        b length_replicate buf(2) bob(1,2) env(4,1), where fdb = 3] idle(1) bob(3) cnt env(3)
    by (simp add: plain_name_def nul_def del: replicate.simps)
qed

end
