(* ===== verification/Spec2Isabelle.thy ===== *)
theory Spec2Isabelle
  imports Hashmap Thread_Queue Queue_Family Wire Credentials Server Server_Invariant Server_Delivery
    Server_Sessions Interleaving Group_Races Data_Races Keysyms Chatbox Client Client_Invariant Network
    Invitation Startup File_Sharing Shared_Socket Server_Isolation Server_Files Server_Service File_Races
    Window_Files
begin

text \<open>
  A group chat: a server and clients with a window for each group, in C with threads and sockets.

  The program. \<open>src/chat-server.c\<close> keeps an array of groups, a table of active users and a file of
  credentials, and has one thread per connection that reads a packet, acts on it and answers.
  \<open>src/chat-client.c\<close> has a thread that reads from the server, one that writes to it, one per group
  with a window (\<open>src/gui.c\<close>, which uses the key symbols of \<open>src/keysyms.c\<close>), and the terminal; they
  pass messages through queues (\<open>src/queue.c\<close>) and find the queue of a group in a hash map
  (\<open>src/hashmap.c\<close>), as the server finds the data of a user. Packets (\<open>src/msg_header.h\<close>), the loops
  around \<open>read\<close> and \<open>write\<close> and file transfer are in \<open>src/util.c\<close>, which both sides share.

  How C is modelled. Every call of the source that is undefined behaviour, or does not return, is a
  value of the type \<open>fault\<close> (theory \<open>Prelude\<close>): a null or freed pointer, an access outside an array,
  a string without terminator, a mutex locked twice by one thread, an \<open>exit\<close>. Words have the width of the C
  type where it matters; \<open>int\<close> counters that stay small are \<open>int\<close> or \<open>nat\<close>. What the environment decides
  is an argument: which allocations succeed, what uninitialised memory holds, in which pieces a
  socket delivers and accepts bytes, what the X server answers, what is typed.

  The theories:
    \<open>Prelude\<close>: C types, faults, \<open>and_then\<close>, lemmas on lists.
    \<open>Hashmap\<close> (\<open>hashmap.c\<close>): the table, \<open>hashmap_put\<close> with its rehash, get, remove, iterate. The locales
      \<open>pointer_table\<close> and \<open>removable_table\<close> are what clients of the map rely on, \<open>hm\<close> interprets them.
      The rehash calls \<open>hashmap_put\<close> again; the fuel 5 of \<open>hashmap_put\<close> is enough for every call that the
      code can make, because the inner call faults on the mutex (lemmas \<open>hashmap_put_fuel_room\<close> and
      \<open>hashmap_put_fuel_full\<close>).
    \<open>Thread_Queue\<close> (\<open>queue.c\<close>): the queue with its pool of nodes on an explicit heap; the locale
      \<open>fifo_queue\<close>, interpreted as \<open>tq\<close>. The wait on the condition variable is a list of the states in
      which it wakes up. The fuel of \<open>free_nodes\<close> is \<open>h_brk\<close>, above the number of nodes.
    \<open>Queue_Family\<close>: several queues on one heap; the locale \<open>channels\<close> with the sublocale \<open>one\<close> for each
      queue, interpreted as \<open>family\<close>.
    \<open>C_Strings\<close>, \<open>Wire\<close> (\<open>util.c\<close>, \<open>msg_header.h\<close>): strings in buffers, \<open>split\<close>, packets as bytes,
      \<open>send_wrapper\<close>, \<open>recv_wrapper\<close>, headers, files. \<open>receive_loop\<close> may run for ever and is a partial
      function.
    \<open>Credentials\<close> (\<open>chat-server.c\<close>): the four functions on \<open>credential.txt\<close>, on the text of the file; the
      locale \<open>user_store\<close>, interpreted as \<open>cred\<close>.
    \<open>Server\<close> (\<open>chat-server.c\<close>): the state, one definition per command, \<open>serve\<close> for one turn of a thread's
      loop, \<open>exit_thread\<close>, \<open>server_main\<close> up to the loop of \<open>main\<close>, \<open>accept_turn\<close> for one turn of it, and
      the runs, in which \<open>accept\<close> succeeds. \<open>Server_Invariant\<close>: what each command changes,
      and the invariant, through the locale \<open>ordered_system\<close>, interpreted as \<open>sys\<close>. \<open>Server_Delivery\<close>: what
      is sent to whom. \<open>Server_Sessions\<close>: answers, logins and the ends of connections.
    \<open>Server_Isolation\<close>: which connections a turn of a thread can write to. \<open>Server_Files\<close>: the files over
      any run, through \<open>ordered_system\<close> again, interpreted as \<open>records\<close>; registration. \<open>Server_Service\<close>: the
      server as a service with accounts, sessions, users online and groups: the steps of both are
      labelled with the connection or the packet read, and the locale \<open>simulation\<close>, interpreted as
      \<open>service\<close>, takes runs to runs with the same labels; why someone is online or in a group, through the locale
      \<open>caused\<close>, interpreted as \<open>online\<close> and \<open>joined\<close>.
    \<open>Interleaving\<close>: threads that take single steps on a shared state under a schedule, for any step.
    \<open>Group_Races\<close>: the two commands that change groups, as steps on linked nodes: what an uninterrupted
      thread does is what \<open>Server\<close> says, and what can go wrong without a lock.
    \<open>Data_Races\<close>: forwarding, inviting and the end of a connection, as steps around the calls on the
      table of active users: which schedules use the data of a client after it was freed.
    \<open>File_Races\<close>: the numbering of files, as steps around the accesses to the shared counter: when every
      file gets a name of its own, and how two can get the same.
    \<open>Keysyms\<close> (\<open>keysyms.c\<close>): the keyboard mapping, key symbols, upper and lower case, keycodes. The search
      for keycodes terminates by the keycodes left.
    \<open>Chatbox\<close> (\<open>gui.c\<close>): opening the window, the input line, the history, the texts drawn.
    \<open>Client\<close> (\<open>chat-client.c\<close>): one definition per turn of each thread; of \<open>main\<close>, \<open>client_setup\<close> before
      the login, \<open>login_loop\<close>, and \<open>client_threads\<close> after it. \<open>Client_Invariant\<close>: all reachable
      states of the client.
    \<open>Network\<close>, \<open>Invitation\<close>, \<open>File_Sharing\<close> and \<open>Window_Files\<close>: clients and server together, over a transport that
      delivers all bytes and cuts them anywhere.
    \<open>Shared_Socket\<close>: several threads that write packets and files to one socket, one \<open>write\<close> at a time.
    \<open>Startup\<close>: from the two command lines to the first login, and the turns of the server's loop in which
      a call fails; the locale \<open>ordered_system\<close> again, interpreted as \<open>idle\<close>.

  What the lemmas show. Data structures: a hash map that was filled by at most 1024 calls, and then
  only emptied, is a finite map, a queue
  delivers in order and loses nothing, and its cleanup frees every node once. Codecs: packets, files and
  credentials arrive as sent. Server: an invariant of all runs, the effect of each command on every
  branch, exact delivery of chat messages, and that no member is ever removed; every run is,
  event by event, a run of an abstract service whose step is fixed by the event; no connection but those a packet is for changes, no one is
  online without a login or in a group without a request, registrations last and stored files are
  never overwritten. Client: every queue
  carries what its reader expects, and the input line is a line editor. Whole system: a line typed in
  one window appears in another one, a login registers the connection and sets the client's number,
  an invitation that is accepted makes the user a member, a file sent by one member is downloaded by
  another one byte for byte. Threads: without interruption they do what the sequential model says, and
  a schedule that frees no data just found reads no freed data, one that breaks no file delivers
  all packets and files of all threads, and one in which files are numbered one at a time loses none. Where the code does something else than it
  means to, the property says what it does: groups past the end of the array, files that end
  early, short writes, removed keys that come back, entries of connections that have ended, races,
  packets inside files, connections that are never served, a failed \<open>accept\<close> that is served.

  Not modelled. A server or client that goes on with the null pointer of a failed \<open>hashmap_new\<close>: the
  two \<open>main\<close> functions give \<open>None\<close> for that state, which is not followed. Interleavings inside a
  command other than those of \<open>Group_Races\<close>, \<open>Data_Races\<close>, \<open>File_Races\<close> and \<open>Shared_Socket\<close>, and of two turns of the client; the
  mutexes of queue and hash map make their operations atomic. Numbers in the credential file beyond the
  range of \<open>int\<close>, for which \<open>sscanf\<close> is undefined, and the file counter of the server beyond it.
  Memory that is never released again, but for the nodes of the queues and the data of clients; of
  \<open>hashmap_free\<close> and \<open>xcb_key_symbols_free\<close> the model says what they release.
  Printing to the terminal, except that printing a string needs its terminator. The calls of the X
  library, pthreads and the C library are arguments or modelled as documented.

  Calls that are taken to succeed: \<open>fprintf\<close> and \<open>fwrite\<close> write all they are given, \<open>fopen\<close> for reading
  fails only if there is no file (so the descriptors that \<open>find_username\<close> never closes do not run
  out), \<open>fseek\<close> and \<open>ftell\<close> give the size, \<open>malloc\<close> the memory for the header in \<open>send_file\<close>. \<open>fopen\<close> for
  writing, all other allocations, the reads and writes of sockets, and the start of queues and
  threads may fail; \<open>accept\<close> succeeds in runs, and a failure is followed in \<open>Startup\<close>.

  Paths: a leading \<open>./\<close> is dropped, and otherwise two different texts are two different files.

  Also left out: short writes on a socket that threads share (a single thread's are in \<open>Wire\<close>), and a
  file that the window of a client writes to another descriptor than its socket, because the thread
  got a wrong one (lemma \<open>thread_args_descriptor\<close>): the model drops these bytes.
\<close>

end
